(* ===== verification/Prelude.thy ===== *)
theory Prelude
  imports Main "HOL-Library.Word"
begin

text \<open>
  What every component shares: names for the machine types of \<open>include/types.h\<close>, the
  outcome of a kernel routine that may panic, the memory of the string routines, and the
  generic lemmas on words, lists and options that the component proofs rest on.

  Conventions of the whole development. A C \<open>uint\<close> is a \<open>32 word\<close>, so additions wrap as
  they do in the kernel; a C \<open>int\<close> whose sign matters is an \<open>int\<close>, a count that the code keeps
  non-negative is a \<open>nat\<close>. A pointer that the code compares with 0 is an \<open>option\<close>, or an
  index into the table the pointer points into. A critical section (the code between
  \<open>acquire\<close> and \<open>release\<close> of one spin lock) is one atomic step, and where a routine drops its
  lock in the middle the model has one step for each part.
\<close>

unbundle bit_operations_syntax

type_synonym u8 = "8 word"
type_synonym u16 = "16 word"
type_synonym u32 = "32 word"
type_synonym u64 = "64 word"
type_synonym bytes = "u8 list"

text \<open>
  A routine returns its value, or it calls \<open>panic\<close> with a message, or it sleeps on a lock that
  someone else holds.
\<close>

datatype 'a kres = Ok 'a | Panic string | Blocked

fun kbind :: "'a kres \<Rightarrow> ('a \<Rightarrow> 'b kres) \<Rightarrow> 'b kres" where
  "kbind (Ok x) f = f x"
| "kbind (Panic s) f = Panic s"
| "kbind Blocked f = Blocked"

fun kfold :: "('a \<Rightarrow> 's \<Rightarrow> 's kres) \<Rightarrow> 'a list \<Rightarrow> 's \<Rightarrow> 's kres" where
  "kfold f [] s = Ok s"
| "kfold f (x # xs) s = kbind (f x s) (kfold f xs)"

named_theorems word_nat
  \<comment> \<open>facts that move a word inequality or sum to natural numbers\<close>

named_theorems frame
  \<comment> \<open>what an operation leaves alone\<close>

subsection \<open>Outcomes\<close>

lemma kbind_Ok_iff [simp]: "kbind r f = Ok y \<longleftrightarrow> (\<exists>x. r = Ok x \<and> f x = Ok y)"
  by (cases r) auto

lemma kbind_Panic_iff:
  "kbind r f = Panic s \<longleftrightarrow> r = Panic s \<or> (\<exists>x. r = Ok x \<and> f x = Panic s)"
  by (cases r) auto

lemma kfold_append: "kfold f (xs @ ys) s = kbind (kfold f xs s) (kfold f ys)"
proof (induction xs arbitrary: s)
  case Nil
  show ?case by simp
next
  case (Cons x xs)
  then show ?case by (cases "f x s") auto
qed

lemma kfold_invariant:
  assumes "kfold f xs s = Ok t" and "P s"
    and step: "\<And>x s t. x \<in> set xs \<Longrightarrow> P s \<Longrightarrow> f x s = Ok t \<Longrightarrow> P t"
  shows "P t"
  using assms
proof (induction xs arbitrary: s)
  case Nil
  then show ?case by simp
next
  case (Cons x xs)
  from Cons.prems(1) obtain u where u: "f x s = Ok u" "kfold f xs u = Ok t" by auto
  have "P u" using Cons.prems(2,3) u(1) by (meson list.set_intros(1))
  then show ?case using Cons.IH [OF u(2)] Cons.prems(3) by (meson list.set_intros(2))
qed

subsection \<open>Words\<close>

lemma unat_add_no_wrap [word_nat]:
  "unat (a :: 'a::len word) + unat b < 2 ^ LENGTH('a) \<Longrightarrow> unat (a + b) = unat a + unat b"
  by (simp add: unat_word_ariths)

lemma unat_bound [word_nat]: "unat (x :: 'a::len word) < 2 ^ LENGTH('a)"
  by (rule unsigned_less)

lemma unat_exp: "n < LENGTH('a) \<Longrightarrow> unat ((2 :: 'a::len word) ^ n) = 2 ^ n"
proof -
  assume n: "n < LENGTH('a)"
  have "unat (word_of_nat (2 ^ n) :: 'a word) = 2 ^ n mod 2 ^ LENGTH('a)"
    by (rule unat_of_nat)
  also have "\<dots> = 2 ^ n" using n by simp
  finally show ?thesis by simp
qed

lemma unat_inj: "a = (b :: 'a::len word) \<longleftrightarrow> unat a = unat b"
  by (auto intro: unsigned_word_eqI)

lemma unat_of_nat_len: "n < 2 ^ LENGTH('a) \<Longrightarrow> unat (of_nat n :: 'a::len word) = n"
  by (simp add: unat_of_nat)

lemma unat_diff_le [word_nat]:
  "b \<le> (a :: 'a::len word) \<Longrightarrow> unat (a - b) = unat a - unat b"
  by (simp add: unat_sub)

text \<open>A C \<open>int\<close> and the \<open>uint\<close> with the same bits.\<close>

lemma sint_u32:
  "sint (w :: u32) = (if unat w < 2 ^ 31 then int (unat w) else int (unat w) - 2 ^ 32)"
proof -
  note [simp del] = of_nat_unat
  have b: "int (unat w) < 2 ^ 32" using unat_bound [of w] by simp
  have s: "sint w = signed_take_bit 31 (int (unat w))" by (simp add: sint_uint of_nat_unat)
  show ?thesis
  proof (cases "unat w < 2 ^ 31")
    case True
    then have "signed_take_bit 31 (int (unat w)) = int (unat w)"
      by (intro signed_take_bit_int_eq_self) auto
    then show ?thesis using True s by simp
  next
    case False
    have "take_bit (Suc 31) (int (unat w)) = take_bit (Suc 31) (int (unat w) - 2 ^ 32)"
      unfolding take_bit_eq_mod by simp
    then have "signed_take_bit 31 (int (unat w)) = signed_take_bit 31 (int (unat w) - 2 ^ 32)"
      by (simp only: signed_take_bit_eq_iff_take_bit_eq)
    also have "signed_take_bit 31 (int (unat w) - 2 ^ 32) = int (unat w) - 2 ^ 32"
      using b False by (intro signed_take_bit_int_eq_self) auto
    finally show ?thesis using False s by simp
  qed
qed

lemma sint_u32_range: "- (2 ^ 31) \<le> sint (w :: u32)" "sint (w :: u32) < 2 ^ 31"
  using unat_bound [of w] by (auto simp: sint_u32 simp del: of_nat_unat)

lemma word_of_int_neg: "- (2^32) \<le> k \<Longrightarrow> k < 0 \<Longrightarrow> unat (word_of_int k :: u32) = nat (k + 2 ^ 32)"
proof -
  assume h: "- (2^32) \<le> k" "k < 0"
  have "uint (word_of_int k :: u32) = (k + 2 ^ 32) mod 2 ^ 32" by (simp add: uint_word_of_int)
  also have "\<dots> = k + 2 ^ 32" by (rule mod_pos_pos_trivial) (use h in simp_all)
  finally show ?thesis by (simp add: unat_eq_nat_uint)
qed

lemma word_of_int_nonneg: "0 \<le> k \<Longrightarrow> k < 2 ^ 32 \<Longrightarrow> unat (word_of_int k :: u32) = nat k"
  by (simp add: unat_eq_nat_uint uint_word_of_int)

lemma bit_u8_bound: "bit (x :: u8) n \<Longrightarrow> n < 8"
  using bit_imp_le_length [of x n] by simp

text \<open>The masks of the code, bit by bit.\<close>

lemma bit_mask_int [simp]:
  "bit (15 :: int) j \<longleftrightarrow> j < 4" "bit (255 :: int) j \<longleftrightarrow> j < 8" "bit (65535 :: int) j \<longleftrightarrow> j < 16"
  using bit_mask_iff [where 'a = int, of 4 j] bit_mask_iff [where 'a = int, of 8 j]
    bit_mask_iff [where 'a = int, of 16 j]
  by (auto simp: mask_eq_exp_minus_1)

lemma bit_mask_u32 [simp]:
  "bit (255 :: u32) j \<longleftrightarrow> j < 8" "bit (65535 :: u32) j \<longleftrightarrow> j < 16"
  using bit_mask_iff [where 'a = u32, of 8 j] bit_mask_iff [where 'a = u32, of 16 j]
  by (auto simp: mask_eq_exp_minus_1)

lemma and_not_split: "(a :: 'a::len word) = (a AND NOT m) + (a AND m)"
proof -
  have "(a AND NOT m) + (a AND m) = (a AND NOT m) OR (a AND m)"
    by (rule disjunctive_add) (auto simp: bit_simps)
  also have "\<dots> = a" by (rule bit_word_eqI) (auto simp: bit_simps)
  finally show ?thesis ..
qed

lemma unat_take_bit: "unat (take_bit n (a :: 'a::len word)) = unat a mod 2 ^ n"
  unfolding unsigned_take_bit_eq by (rule take_bit_eq_mod)

lemma word_eq_bitI:
  "(\<And>n. n < LENGTH('a) \<Longrightarrow> bit (x :: 'a::len word) n = bit y n) \<Longrightarrow> x = y"
  by (rule bit_word_eqI) simp

subsection \<open>Lists\<close>

lemma nth_list_update_conv:
  "j < length xs \<Longrightarrow> xs[i := v] ! j = (if i = j then v else xs ! j)"
  by (simp add: nth_list_update)

lemma find_index_split:
  assumes "\<exists>i < length xs. P (xs ! i)"
  obtains i where "i < length xs" "P (xs ! i)" "\<forall>j < i. \<not> P (xs ! j)"
proof -
  define i where "i = (LEAST i. i < length xs \<and> P (xs ! i))"
  have i: "i < length xs \<and> P (xs ! i)"
    unfolding i_def using assms by (rule LeastI_ex)
  moreover have "\<not> P (xs ! j)" if "j < i" for j
    using not_less_Least [of j "\<lambda>i. i < length xs \<and> P (xs ! i)"] that i i_def by auto
  ultimately show ?thesis using that by blast
qed

text \<open>A copy of \<open>bs\<close> over a buffer from offset \<open>off\<close> on, as \<open>memmove\<close> into an array does.\<close>

definition splice :: "nat \<Rightarrow> 'a list \<Rightarrow> 'a list \<Rightarrow> 'a list" where
  "splice off bs xs = take off xs @ bs @ drop (off + length bs) xs"

lemma length_splice [simp]: "off + length bs \<le> length xs \<Longrightarrow> length (splice off bs xs) = length xs"
  by (simp add: splice_def)

lemma nth_splice:
  "off + length bs \<le> length xs \<Longrightarrow> i < length xs \<Longrightarrow>
   splice off bs xs ! i = (if off \<le> i \<and> i < off + length bs then bs ! (i - off) else xs ! i)"
  by (auto simp: splice_def nth_append min_def)

lemma splice_Nil [simp]: "splice off [] xs = xs"
  by (simp add: splice_def)

text \<open>The first index of a list that satisfies a predicate, as a table scan with \<open>break\<close> finds it.\<close>

fun first_index :: "('a \<Rightarrow> bool) \<Rightarrow> 'a list \<Rightarrow> nat option" where
  "first_index P [] = None"
| "first_index P (x # xs) = (if P x then Some 0 else map_option Suc (first_index P xs))"

lemma first_index_None [simp]: "first_index P xs = None \<longleftrightarrow> (\<forall>x \<in> set xs. \<not> P x)"
  by (induction xs) auto

lemma first_index_SomeD:
  "first_index P xs = Some i \<Longrightarrow> i < length xs \<and> P (xs ! i) \<and> (\<forall>j < i. \<not> P (xs ! j))"
proof (induction xs arbitrary: i)
  case Nil
  then show ?case by simp
next
  case (Cons x xs)
  show ?case
  proof (cases "P x")
    case True
    with Cons.prems show ?thesis by simp
  next
    case False
    with Cons.prems obtain k where k: "first_index P xs = Some k" "i = Suc k" by auto
    from Cons.IH [OF k(1)] False show ?thesis
      unfolding k(2) by (auto simp: less_Suc_eq_0_disj)
  qed
qed

lemma first_index_SomeI:
  assumes "i < length xs" "P (xs ! i)" "\<forall>j < i. \<not> P (xs ! j)"
  shows "first_index P xs = Some i"
proof (cases "first_index P xs")
  case None
  then show ?thesis using assms by auto
next
  case (Some k)
  from first_index_SomeD [OF Some] assms have "k = i"
    by (meson linorder_neqE_nat)
  with Some show ?thesis by simp
qed

lemma map_upt_shift: "map f [a..<a + n] = map (\<lambda>i. f (a + i)) [0..<n]"
  by (rule nth_equalityI) auto

lemma map_upt_append: "map f [0..<a + b] = map f [0..<a] @ map (\<lambda>i. f (a + i)) [0..<b]"
proof -
  have "[0..<a + b] = [0..<a] @ [a..<a + b]" by (metis le_add1 upt_add_eq_append le0)
  then show ?thesis by (simp add: map_upt_shift)
qed

end
