(* ===== verification/Kstring.thy ===== *)
theory Kstring
  imports Prelude
begin

text \<open>
  \<open>kernel/core/string.c\<close>: the kernel's memory and string routines, over a memory that maps
  an address to a byte. Addresses are natural numbers: an object of the kernel never runs past
  the end of its 32-bit address space. The two \<open>rep stos\<close> instructions of \<open>include/x86.h\<close> are
  loops over that memory.
\<close>

type_synonym mem = "nat \<Rightarrow> u8"

subsection \<open>The routines\<close>

fun stosb :: "mem \<Rightarrow> nat \<Rightarrow> u8 \<Rightarrow> nat \<Rightarrow> mem" where
  "stosb m a v 0 = m"
| "stosb m a v (Suc cnt) = stosb (m(a := v)) (a + 1) v cnt"

definition store32 :: "mem \<Rightarrow> nat \<Rightarrow> u32 \<Rightarrow> mem" where
  "store32 m a v = m(a := ucast v, a + 1 := ucast (drop_bit 8 v),
                     a + 2 := ucast (drop_bit 16 v), a + 3 := ucast (drop_bit 24 v))"

fun stosl :: "mem \<Rightarrow> nat \<Rightarrow> u32 \<Rightarrow> nat \<Rightarrow> mem" where
  "stosl m a v 0 = m"
| "stosl m a v (Suc cnt) = stosl (store32 m a v) (a + 4) v cnt"

definition memset :: "mem \<Rightarrow> nat \<Rightarrow> u32 \<Rightarrow> nat \<Rightarrow> mem" where
  "memset m dst c n =
     (if dst mod 4 = 0 \<and> n mod 4 = 0 then
        let c = c AND 0xFF
        in stosl m dst (push_bit 24 c OR push_bit 16 c OR push_bit 8 c OR c) (n div 4)
      else stosb m dst (ucast c) n)"

fun memcmp :: "mem \<Rightarrow> nat \<Rightarrow> nat \<Rightarrow> nat \<Rightarrow> int" where
  "memcmp m s1 s2 0 = 0"
| "memcmp m s1 s2 (Suc n) =
     (if m s1 \<noteq> m s2 then uint (m s1) - uint (m s2) else memcmp m (s1 + 1) (s2 + 1) n)"

fun copy_up :: "mem \<Rightarrow> nat \<Rightarrow> nat \<Rightarrow> nat \<Rightarrow> mem" where
  "copy_up m d s 0 = m"
| "copy_up m d s (Suc n) = copy_up (m(d := m s)) (d + 1) (s + 1) n"

fun copy_down :: "mem \<Rightarrow> nat \<Rightarrow> nat \<Rightarrow> nat \<Rightarrow> mem" where
  "copy_down m d s 0 = m"
| "copy_down m d s (Suc n) = copy_down (m(d - 1 := m (s - 1))) (d - 1) (s - 1) n"

definition memmove :: "mem \<Rightarrow> nat \<Rightarrow> nat \<Rightarrow> nat \<Rightarrow> mem" where
  "memmove m dst src n =
     (if src < dst \<and> src + n > dst then copy_down m (dst + n) (src + n) n
      else copy_up m dst src n)"

definition memcpy :: "mem \<Rightarrow> nat \<Rightarrow> nat \<Rightarrow> nat \<Rightarrow> mem" where
  "memcpy m dst src n = memmove m dst src n"

fun strncmp :: "mem \<Rightarrow> nat \<Rightarrow> nat \<Rightarrow> nat \<Rightarrow> int" where
  "strncmp m p q 0 = 0"
| "strncmp m p q (Suc n) =
     (if m p \<noteq> 0 \<and> m p = m q then strncmp m (p + 1) (q + 1) n
      else uint (m p) - uint (m q))"

text \<open>\<open>strcmp\<close> and \<open>strlen\<close> have no bound: on a memory with no NUL they do not return.\<close>

partial_function (option) strcmp :: "mem \<Rightarrow> nat \<Rightarrow> nat \<Rightarrow> int option" where
  "strcmp m p q =
     (if m p \<noteq> 0 \<and> m p = m q then strcmp m (p + 1) (q + 1)
      else Some (uint (m p) - uint (m q)))"

partial_function (option) strlen_from :: "mem \<Rightarrow> nat \<Rightarrow> nat \<Rightarrow> nat option" where
  "strlen_from m s n = (if m (s + n) \<noteq> 0 then strlen_from m s (n + 1) else Some n)"

definition strlen :: "mem \<Rightarrow> nat \<Rightarrow> nat option" where
  "strlen m s = strlen_from m s 0"

fun strncpy_copy :: "mem \<Rightarrow> nat \<Rightarrow> nat \<Rightarrow> nat \<Rightarrow> mem" where
  "strncpy_copy m s t 0 = m"
| "strncpy_copy m s t (Suc n) =
     (if m t \<noteq> 0 then strncpy_copy (m(s := m t)) (s + 1) (t + 1) n
      else stosb (m(s := m t)) (s + 1) 0 n)"

definition strncpy :: "mem \<Rightarrow> nat \<Rightarrow> nat \<Rightarrow> int \<Rightarrow> mem" where
  "strncpy m s t n = strncpy_copy m s t (nat n)"

text \<open>
  The loop of \<open>safestrcpy\<close> decrements \<open>n\<close> before its test. When it copies the NUL it has
  already advanced \<open>s\<close>, so the final store writes the byte after that NUL.
\<close>

fun safestrcpy_loop :: "mem \<Rightarrow> nat \<Rightarrow> nat \<Rightarrow> nat \<Rightarrow> mem" where
  "safestrcpy_loop m s t 0 = m(s := 0)"
| "safestrcpy_loop m s t (Suc n) =
     (if m t \<noteq> 0 then safestrcpy_loop (m(s := m t)) (s + 1) (t + 1) n
      else (m(s := m t))(s + 1 := 0))"

definition safestrcpy :: "mem \<Rightarrow> nat \<Rightarrow> nat \<Rightarrow> int \<Rightarrow> mem" where
  "safestrcpy m s t n = (if n \<le> 0 then m else safestrcpy_loop m s t (nat n - 1))"

subsection \<open>Block stores and copies\<close>

definition fill :: "mem \<Rightarrow> nat \<Rightarrow> u8 \<Rightarrow> nat \<Rightarrow> mem" where
  "fill m a v n = (\<lambda>x. if a \<le> x \<and> x < a + n then v else m x)"

definition shifted :: "mem \<Rightarrow> nat \<Rightarrow> nat \<Rightarrow> nat \<Rightarrow> mem" where
  "shifted m dst src n = (\<lambda>x. if dst \<le> x \<and> x < dst + n then m (src + (x - dst)) else m x)"

lemma fill_0 [simp]: "fill m a v 0 = m"
  by (rule ext) (auto simp: fill_def)

lemma shifted_0 [simp]: "shifted m d s 0 = m"
  by (rule ext) (auto simp: shifted_def)

lemma fill_fill: "fill (fill m a v k) (a + k) v n = fill m a v (k + n)"
  by (auto simp: fill_def)

lemma stosb_fill: "stosb m a v n = fill m a v n"
proof (induction n arbitrary: m a)
  case 0
  show ?case by simp
next
  case (Suc n)
  have "m(a := v) = fill m a v 1" by (auto simp: fill_def)
  then show ?case using fill_fill [of m a v 1 n] by (simp add: Suc.IH)
qed

lemma store32_const:
  assumes "\<And>k. k \<in> {0, 8, 16, 24} \<Longrightarrow> ucast (drop_bit k v) = (b :: u8)"
  shows "store32 m a v = fill m a b 4"
proof
  fix x
  have "ucast v = b" using assms [of 0] by simp
  then show "store32 m a v x = fill m a b 4 x"
    using assms [of 8] assms [of 16] assms [of 24]
    by (auto simp: store32_def fill_def)
qed

lemma stosl_fill:
  assumes "\<And>k. k \<in> {0, 8, 16, 24} \<Longrightarrow> ucast (drop_bit k v) = (b :: u8)"
  shows "stosl m a v n = fill m a b (4 * n)"
proof (induction n arbitrary: m a)
  case 0
  show ?case by simp
next
  case (Suc n)
  have "store32 m a v = fill m a b 4" by (rule store32_const) (rule assms)
  then show ?case
    using fill_fill [of m a b 4 "4 * n"] by (simp add: Suc.IH)
qed

lemma repeated_byte:
  fixes c :: u32
  assumes "k \<in> {0, 8, 16, 24}"
  defines "d \<equiv> c AND 0xFF"
  shows "ucast (drop_bit k (push_bit 24 d OR push_bit 16 d OR push_bit 8 d OR d)) = (ucast c :: u8)"
proof (rule word_eq_bitI)
  fix n assume "n < LENGTH(8)"
  then have n: "n < 8" by simp
  show "bit (ucast (drop_bit k (push_bit 24 d OR push_bit 16 d OR push_bit 8 d OR d)) :: u8) n
      = bit (ucast c :: u8) n"
    using assms(1) n unfolding d_def
    by (elim insertE emptyE) (simp_all add: bit_simps)
qed

lemma copy_up_shifted:
  "\<not> (s < d \<and> d < s + n) \<Longrightarrow> copy_up m d s n = shifted m d s n"
proof (induction n arbitrary: m d s)
  case 0
  show ?case by simp
next
  case (Suc n)
  have "copy_up m d s (Suc n) = shifted (m(d := m s)) (d + 1) (s + 1) n"
    unfolding copy_up.simps by (rule Suc.IH) (use Suc.prems in linarith)
  also have "\<dots> = shifted m d s (Suc n)"
    using Suc.prems by (auto simp: shifted_def fun_eq_iff Suc_diff_Suc)
  finally show ?case .
qed

lemma copy_down_shifted:
  "s < d \<Longrightarrow> copy_down m (d + n) (s + n) n = shifted m d s n"
proof (induction n arbitrary: m)
  case 0
  show ?case by simp
next
  case (Suc n)
  have "copy_down m (d + Suc n) (s + Suc n) (Suc n) = shifted (m(d + n := m (s + n))) d s n"
    using Suc by simp
  also have "\<dots> = shifted m d s (Suc n)"
    using Suc.prems by (auto simp: shifted_def fun_eq_iff)
  finally show ?case .
qed

text \<open>
  Claim C39. \<open>memmove\<close> copies the \<open>n\<close> bytes at \<open>src\<close> to \<open>dst\<close> as they were before the call,
  whether or not the two ranges overlap and whichever way, and changes no other byte.
\<close>

theorem memmove_copies:
  "memmove m dst src n x = (if dst \<le> x \<and> x < dst + n then m (src + (x - dst)) else m x)"
proof -
  have "memmove m dst src n = shifted m dst src n"
    by (auto simp: memmove_def copy_down_shifted intro: copy_up_shifted)
  then show ?thesis by (simp add: shifted_def)
qed

text \<open>
  \<open>memset\<close> writes the low byte of \<open>c\<close> to each of the \<open>n\<close> bytes at \<open>dst\<close> and to no other
  byte: its word-at-a-time branch agrees with its byte-at-a-time branch.
\<close>

theorem memset_fills:
  "memset m dst c n x = (if dst \<le> x \<and> x < dst + n then ucast c else m x)"
proof -
  have "memset m dst c n = fill m dst (ucast c) n"
  proof (cases "dst mod 4 = 0 \<and> n mod 4 = 0")
    case True
    then have "4 * (n div 4) = n" by auto
    with True show ?thesis
      unfolding memset_def Let_def by (simp only: if_P stosl_fill [OF repeated_byte])
  next
    case False
    then show ?thesis by (auto simp: memset_def stosb_fill)
  qed
  then show ?thesis by (simp add: fill_def)
qed

subsection \<open>Strings\<close>

lemma safestrcpy_loop_frame [frame]:
  "x < s \<or> s + n < x \<Longrightarrow> safestrcpy_loop m s t n x = m x"
  by (induction m s t n rule: safestrcpy_loop.induct) auto

lemma safestrcpy_loop_copies:
  assumes "s + n < t \<or> t + n \<le> s"
  shows "\<exists>k \<le> n. safestrcpy_loop m s t n (s + k) = 0 \<and>
           (\<forall>j < k. safestrcpy_loop m s t n (s + j) = m (t + j) \<and> m (t + j) \<noteq> 0) \<and>
           (k < n \<longrightarrow> m (t + k) = 0)"
  using assms
proof (induction m s t n rule: safestrcpy_loop.induct)
  case (1 m s t)
  show ?case by simp
next
  case (2 m s t n)
  let ?m = "m(s := m t)"
  show ?case
  proof (cases "m t = 0")
    case True
    then show ?thesis by (intro exI [of _ 0]) auto
  next
    case False
    with "2.IH" "2.prems" obtain k where k: "k \<le> n"
      "safestrcpy_loop ?m (s + 1) (t + 1) n (s + 1 + k) = 0"
      "\<forall>j < k. safestrcpy_loop ?m (s + 1) (t + 1) n (s + 1 + j) = ?m (t + 1 + j)
             \<and> ?m (t + 1 + j) \<noteq> 0"
      "k < n \<longrightarrow> ?m (t + 1 + k) = 0"
      by fastforce
    have old: "?m (t + 1 + j) = m (t + Suc j)" if "j < n" for j
      using "2.prems" that by auto
    have head: "safestrcpy_loop ?m (s + 1) (t + 1) n s = m t"
      by (simp add: frame)
    show ?thesis
    proof (intro exI [of _ "Suc k"] conjI allI impI)
      show "safestrcpy_loop m s t (Suc n) (s + j) = m (t + j)" if "j < Suc k" for j
        using that k(1,3) False head old by (cases j) auto
      show "m (t + j) \<noteq> 0" if "j < Suc k" for j
        using that k(1,3) False old by (cases j) auto
    qed (use k False old in auto)
  qed
qed

text \<open>
  \<open>safestrcpy\<close> with a positive size always leaves a NUL-terminated string in the
  destination, the longest prefix of the source string that fits in \<open>n - 1\<close> bytes, and writes
  no byte outside the \<open>n\<close> bytes it was given.
\<close>

theorem safestrcpy_terminates:
  assumes "0 < n" and "s + nat n \<le> t \<or> t + nat n \<le> s"
  shows "(\<exists>k < nat n. safestrcpy m s t n (s + k) = 0 \<and>
             (\<forall>j < k. safestrcpy m s t n (s + j) = m (t + j) \<and> m (t + j) \<noteq> 0) \<and>
             (k < nat n - 1 \<longrightarrow> m (t + k) = 0)) \<and>
         (\<forall>x. x < s \<or> s + nat n \<le> x \<longrightarrow> safestrcpy m s t n x = m x)"
proof -
  have eq: "safestrcpy m s t n = safestrcpy_loop m s t (nat n - 1)"
    using assms(1) by (simp add: safestrcpy_def)
  have "s + (nat n - 1) < t \<or> t + (nat n - 1) \<le> s" using assms by auto
  from safestrcpy_loop_copies [OF this, of m] obtain k where k: "k \<le> nat n - 1"
    "safestrcpy_loop m s t (nat n - 1) (s + k) = 0"
    "\<forall>j < k. safestrcpy_loop m s t (nat n - 1) (s + j) = m (t + j) \<and> m (t + j) \<noteq> 0"
    "k < nat n - 1 \<longrightarrow> m (t + k) = 0"
    by blast
  have "k < nat n" using k(1) assms(1) by linarith
  moreover have "safestrcpy_loop m s t (nat n - 1) x = m x" if "x < s \<or> s + nat n \<le> x" for x
    using that assms(1) by (intro safestrcpy_loop_frame) linarith
  ultimately show ?thesis using k unfolding eq by blast
qed

lemma strlen_from_finds:
  assumes "m (s + k) = 0" and "\<forall>j < k. m (s + j) \<noteq> 0" and "n \<le> k"
  shows "strlen_from m s n = Some k"
  using assms(3)
proof (induction "k - n" arbitrary: n)
  case 0
  with assms(1) show ?case by (subst strlen_from.simps) simp
next
  case (Suc d)
  then have "strlen_from m s (n + 1) = Some k" by simp
  moreover have "m (s + n) \<noteq> 0" using Suc assms(2) by auto
  ultimately show ?case by (subst strlen_from.simps) simp
qed

lemma strlen_finds: "m (s + k) = 0 \<Longrightarrow> \<forall>j < k. m (s + j) \<noteq> 0 \<Longrightarrow> strlen m s = Some k"
  by (simp add: strlen_def strlen_from_finds)

lemma strncmp_zero_iff:
  "strncmp m p q n = 0 \<longleftrightarrow>
     (\<forall>i < n. (\<forall>j < i. m (p + j) \<noteq> 0) \<longrightarrow> m (p + i) = m (q + i))"
proof (induction m p q n rule: strncmp.induct)
  case (1 m p q)
  show ?case by simp
next
  case (2 m p q n)
  have split: "(\<forall>i < Suc n. (\<forall>j < i. m (p + j) \<noteq> 0) \<longrightarrow> m (p + i) = m (q + i)) \<longleftrightarrow>
      m p = m q \<and> (m p \<noteq> 0 \<longrightarrow>
        (\<forall>i < n. (\<forall>j < i. m (p + 1 + j) \<noteq> 0) \<longrightarrow> m (p + 1 + i) = m (q + 1 + i)))"
    by (auto simp: All_less_Suc2)
  have "uint (m p) - uint (m q) = 0 \<longleftrightarrow> m p = m q"
    using unsigned_word_eqI [of "m p" "m q", where 'a = int] by auto
  then show ?case unfolding split using "2.IH" by auto
qed

end
