(* ===== verification/Libgcc.thy ===== *)
theory Libgcc
  imports Prelude "HOL-Library.Signed_Division"
begin

text \<open>
  \<open>kernel/core/libgcc_compat.c\<close>: 64-bit division for a 32-bit kernel. The shift-and-subtract
  loop \<open>udivmod64\<close> is proved equal to \<open>div\<close> and \<open>mod\<close>, and the signed wrappers equal to
  division that truncates towards zero. \<open>__sync_bool_compare_and_swap_4\<close> is one instruction,
  modelled as an atomic compare and swap of a cell.
\<close>

subsection \<open>The routines\<close>

text \<open>\<open>while(d <= (n >> 1) && shift < 63)\<close>: bring the divisor up to the dividend.\<close>

function udiv_scale :: "u64 \<Rightarrow> u64 \<Rightarrow> nat \<Rightarrow> u64 \<times> nat" where
  "udiv_scale n d shift =
     (if d \<le> drop_bit 1 n \<and> shift < 63 then udiv_scale n (push_bit 1 d) (shift + 1)
      else (d, shift))"
  by pat_completeness auto
termination
  by (relation "measure (\<lambda>(n, d, shift). 63 - shift)") auto

declare udiv_scale.simps [simp del]

text \<open>\<open>while(shift >= 0)\<close>, with \<open>Suc shift\<close> rounds left: subtract and record one quotient bit.\<close>

fun udiv_rounds :: "u64 \<Rightarrow> u64 \<Rightarrow> u64 \<Rightarrow> nat \<Rightarrow> u64 \<times> u64" where
  "udiv_rounds n d q 0 = (q, n)"
| "udiv_rounds n d q (Suc shift) =
     (if n \<ge> d then udiv_rounds (n - d) (drop_bit 1 d) (q OR push_bit shift 1) shift
      else udiv_rounds n (drop_bit 1 d) q shift)"

text \<open>The quotient and what the code stores through \<open>r\<close>.\<close>

definition udivmod64 :: "u64 \<Rightarrow> u64 \<Rightarrow> u64 \<times> u64" where
  "udivmod64 n d =
     (if d = 0 then (0, 0)
      else if d > n then (0, n)
      else case udiv_scale n d 0 of (d', shift) \<Rightarrow> udiv_rounds n d' 0 (Suc shift))"

definition udivdi3 :: "u64 \<Rightarrow> u64 \<Rightarrow> u64" where
  "udivdi3 a b = fst (udivmod64 a b)"

definition udivmoddi4 :: "u64 \<Rightarrow> u64 \<Rightarrow> u64 \<times> u64" where
  "udivmoddi4 a b = udivmod64 a b"

definition umoddi3 :: "u64 \<Rightarrow> u64 \<Rightarrow> u64" where
  "umoddi3 a b = snd (udivmod64 a b)"

definition divdi3 :: "u64 \<Rightarrow> u64 \<Rightarrow> u64" where
  "divdi3 a b =
     (let neg = ((a <s 0) \<noteq> (b <s 0));
          ua = (if a <s 0 then NOT a + 1 else a);
          ub = (if b <s 0 then NOT b + 1 else b);
          q = fst (udivmod64 ua ub)
      in if neg then NOT q + 1 else q)"

definition moddi3 :: "u64 \<Rightarrow> u64 \<Rightarrow> u64" where
  "moddi3 a b =
     (let ua = (if a <s 0 then NOT a + 1 else a);
          ub = (if b <s 0 then NOT b + 1 else b);
          rem = snd (udivmod64 ua ub)
      in if a <s 0 then NOT rem + 1 else rem)"

definition sync_bool_compare_and_swap_4 :: "u32 \<Rightarrow> u32 \<Rightarrow> u32 \<Rightarrow> bool \<times> u32" where
  "sync_bool_compare_and_swap_4 cell oldval newval =
     (if cell = oldval then (True, newval) else (False, cell))"

subsection \<open>Scaling\<close>

lemma unat_drop_bit_1: "unat (drop_bit (Suc 0) (x :: u64)) = unat x div 2"
  by (simp add: drop_bit_Suc unat_div)

lemma unat_push_bit_1:
  "2 * unat (x :: u64) < 2 ^ 64 \<Longrightarrow> unat (push_bit (Suc 0) x) = 2 * unat x"
  by (simp add: push_bit_eq_mult unat_word_ariths)

lemma udiv_scale_spec:
  assumes "udiv_scale n d s = (d', s')" and "unat d = D * 2 ^ s" and "0 < D"
    and "unat d \<le> unat n" and "s \<le> 63"
  shows "unat d' = D * 2 ^ s' \<and> unat d' \<le> unat n \<and> unat n < 2 * unat d' \<and> s' \<le> 63"
  using assms
proof (induction n d s rule: udiv_scale.induct)
  case (1 n d s)
  show ?case
  proof (cases "d \<le> drop_bit 1 n \<and> s < 63")
    case True
    then have "unat d \<le> unat n div 2" by (simp add: word_le_nat_alt unat_drop_bit_1)
    then have le: "2 * unat d \<le> unat n" by linarith
    then have dbl: "unat (push_bit (Suc 0) d) = 2 * unat d"
      using unat_bound [of n] by (intro unat_push_bit_1) simp
    have "udiv_scale n (push_bit 1 d) (s + 1) = (d', s')"
      using "1.prems"(1) True by (simp add: udiv_scale.simps [of n d s])
    then show ?thesis
      using "1.IH" [OF True] "1.prems"(2,3) True le dbl by simp
  next
    case False
    with "1.prems"(1) have eq: "d' = d" "s' = s"
      by (auto simp: udiv_scale.simps [of n d s])
    have "unat n < 2 * unat d"
    proof (cases "d \<le> drop_bit 1 n")
      case True
      with False "1.prems"(5) have "s = 63" by simp
      with "1.prems"(2,3) have "2 ^ 63 \<le> unat d" by simp
      then show ?thesis using unat_bound [of n] by simp
    next
      case False
      then show ?thesis by (simp add: word_le_nat_alt unat_drop_bit_1 not_le)
    qed
    with "1.prems" show ?thesis by (simp add: eq)
  qed
qed

subsection \<open>The rounds\<close>

lemma or_new_bit:
  fixes q :: u64
  assumes "\<forall>i \<le> s. \<not> bit q i" and "unat q + 2 ^ s < 2 ^ 64"
  shows "unat (q OR push_bit s 1) = unat q + 2 ^ s"
proof -
  have "q OR push_bit s 1 = q + push_bit s 1"
    by (rule disjunctive_add [symmetric]) (use assms(1) in \<open>auto simp: bit_simps\<close>)
  moreover have "(2 :: nat) ^ s < 2 ^ 64" using assms(2) by linarith
  then have "s < 64" by (simp only: power_strict_increasing_iff)
  then have "unat (push_bit s (1 :: u64)) = 2 ^ s"
    by (simp add: push_bit_eq_mult unat_exp)
  ultimately show ?thesis using assms(2) by (simp add: unat_word_ariths)
qed

lemma udiv_rounds_spec:
  assumes "k \<noteq> 0 \<longrightarrow> unat d = D * 2 ^ (k - 1)" and "unat n < D * 2 ^ k" and "0 < D"
    and "\<forall>i < k. \<not> bit q i" and "unat q * D + unat n = N" and "N < 2 ^ 64"
  shows "udiv_rounds n d q k = (of_nat (N div D), of_nat (N mod D))"
  using assms
proof (induction n d q k rule: udiv_rounds.induct)
  case (1 n d q)
  then have "unat n < D" "unat q * D + unat n = N" by simp_all
  then have "N div D = unat q" "N mod D = unat n" by auto
  then show ?case by simp
next
  case (2 n d q s)
  have d: "unat d = D * 2 ^ s" using "2.prems"(1) by simp
  have half: "s \<noteq> 0 \<longrightarrow> unat (drop_bit 1 d) = D * 2 ^ (s - 1)"
    using d by (cases s) (simp_all add: unat_drop_bit_1)
  show ?case
  proof (cases "n \<ge> d")
    case True
    then have le: "D * 2 ^ s \<le> unat n" and sub: "unat (n - d) = unat n - D * 2 ^ s"
      using d by (simp_all add: unat_diff_le word_le_nat_alt)
    have grow: "(unat q + 2 ^ s) * D + (unat n - D * 2 ^ s) = N"
      using "2.prems"(5) le by (simp add: algebra_simps)
    have "(unat q + 2 ^ s) * 1 \<le> (unat q + 2 ^ s) * D"
      using "2.prems"(3) by (intro mult_le_mono2) simp
    then have "unat q + 2 ^ s \<le> N" using grow by (simp only: mult_1_right)
    then have or: "unat (q OR push_bit s 1) = unat q + 2 ^ s"
      using "2.prems"(4,6) by (intro or_new_bit) auto
    have bits: "\<forall>i < s. \<not> bit (q OR push_bit s 1) i"
      using "2.prems"(4) by (auto simp: bit_simps)
    have "unat (n - d) < D * 2 ^ s" using "2.prems"(2) sub by simp
    with "2.IH"(1) [OF True half] sub or grow bits "2.prems"(3,6) True show ?thesis by simp
  next
    case False
    then have "unat n < D * 2 ^ s" using d by (simp add: word_le_nat_alt not_le)
    with "2.IH"(2) [OF False half] "2.prems"(3-6) False show ?thesis by simp
  qed
qed

lemma udivmod64_spec:
  "d \<noteq> 0 \<Longrightarrow> udivmod64 n d = (n div d, n mod d)"
proof -
  assume d: "d \<noteq> 0"
  show ?thesis
  proof (cases "d > n")
    case True
    then show ?thesis
      using d by (simp add: udivmod64_def div_word_less mod_word_less)
  next
    case False
    obtain d' s where ds: "udiv_scale n d 0 = (d', s)" by (cases "udiv_scale n d 0")
    have pos: "0 < unat d" using d by (simp add: unat_gt_0)
    have sc: "unat d' = unat d * 2 ^ s" "unat n < 2 * unat d'"
      using udiv_scale_spec [OF ds, of "unat d"] pos False
      by (auto simp: word_less_nat_alt)
    have "udiv_rounds n d' 0 (Suc s) = (of_nat (unat n div unat d), of_nat (unat n mod unat d))"
      by (rule udiv_rounds_spec) (use sc pos unat_bound [of n] in auto)
    then show ?thesis
      using d False ds by (simp add: udivmod64_def word_arith_nat_div word_arith_nat_mod)
  qed
qed

lemma udivmod64_fst_snd:
  "d \<noteq> 0 \<Longrightarrow> uint (fst (udivmod64 n d)) = uint n div uint d"
  "d \<noteq> 0 \<Longrightarrow> uint (snd (udivmod64 n d)) = uint n mod uint d"
  by (simp_all add: udivmod64_spec uint_div uint_mod)

subsection \<open>Signed division\<close>

lemma sint_bounds: "- (2 ^ 63) \<le> sint (x :: u64)" "sint (x :: u64) < 2 ^ 63"
  using sint_greater_eq [of x] sint_less [of x] by simp_all

lemma sint_of_int_eq:
  "- (2 ^ 63) \<le> k \<Longrightarrow> k < 2 ^ 63 \<Longrightarrow> sint (word_of_int k :: u64) = k"
  by (simp add: sint_sbintrunc' signed_take_bit_int_eq_self)

lemma not_plus_1: "NOT (x :: u64) + 1 = - x"
  by (simp add: minus_eq_not_plus_1)

lemma uint_of_int_u64: "uint (word_of_int k :: u64) = k mod 2 ^ 64"
  by (simp only: uint_word_of_int) simp

lemma uint_magnitude:
  "uint (if (x :: u64) <s 0 then NOT x + 1 else x) = \<bar>sint x\<bar>"
proof -
  have neg: "uint (- x) = - sint x" if "sint x < 0"
    using uint_of_int_u64 [of "- sint x"] that sint_bounds [of x] by simp
  have pos: "uint x = sint x" if "\<not> sint x < 0"
    using uint_of_int_u64 [of "sint x"] that sint_bounds [of x] by simp
  show ?thesis using neg pos by (simp add: not_plus_1 word_sless_alt)
qed

lemma magnitude_nonzero: "b \<noteq> 0 \<Longrightarrow> (if (b :: u64) <s 0 then NOT b + 1 else b) \<noteq> 0"
  by (simp add: not_plus_1)

text \<open>The wrappers compute the truncating quotient and remainder, as words.\<close>

lemma divdi3_word: "b \<noteq> 0 \<Longrightarrow> divdi3 a b = word_of_int (sint a sdiv sint b)"
proof -
  assume b: "b \<noteq> 0"
  define ua where "ua = (if a <s 0 then NOT a + 1 else a)"
  define ub where "ub = (if b <s 0 then NOT b + 1 else b)"
  define q where "q = fst (udivmod64 ua ub)"
  have "uint q = \<bar>sint a\<bar> div \<bar>sint b\<bar>"
    using udivmod64_fst_snd(1) [OF magnitude_nonzero [OF b], of ua]
    by (simp only: q_def ua_def ub_def uint_magnitude)
  then have q: "q = word_of_int (\<bar>sint a\<bar> div \<bar>sint b\<bar>)"
    using word_of_int_uint [of q] by simp
  have "divdi3 a b = (if (sint a < 0) \<noteq> (sint b < 0) then - q else q)"
    unfolding divdi3_def Let_def ua_def [symmetric] ub_def [symmetric] q_def [symmetric]
    by (simp only: not_plus_1 word_sless_alt sint_0)
  then show ?thesis
    using q b by (cases "sint a" "0 :: int" rule: linorder_cases;
        cases "sint b" "0 :: int" rule: linorder_cases) (simp_all add: signed_divide_int_def)
qed

lemma moddi3_word: "b \<noteq> 0 \<Longrightarrow> moddi3 a b = word_of_int (sint a smod sint b)"
proof -
  assume b: "b \<noteq> 0"
  define ua where "ua = (if a <s 0 then NOT a + 1 else a)"
  define ub where "ub = (if b <s 0 then NOT b + 1 else b)"
  define r where "r = snd (udivmod64 ua ub)"
  have "uint r = \<bar>sint a\<bar> mod \<bar>sint b\<bar>"
    using udivmod64_fst_snd(2) [OF magnitude_nonzero [OF b], of ua]
    by (simp only: r_def ua_def ub_def uint_magnitude)
  then have r: "r = word_of_int (\<bar>sint a\<bar> mod \<bar>sint b\<bar>)"
    using word_of_int_uint [of r] by simp
  have "moddi3 a b = (if sint a < 0 then - r else r)"
    unfolding moddi3_def Let_def ua_def [symmetric] ub_def [symmetric] r_def [symmetric]
    by (simp only: not_plus_1 word_sless_alt sint_0)
  then show ?thesis
    using r by (cases "sint a" "0 :: int" rule: linorder_cases) (simp_all add: signed_modulo_int_def)
qed

subsection \<open>Correctness\<close>

text \<open>
  Claim C40. The shift-and-subtract loop of \<open>udivmod64\<close> computes the quotient and the remainder
  of 64-bit unsigned division for every dividend and divisor, and stores 0 for both when the
  divisor is 0.
\<close>

theorem udivmod64_correct:
  "udivmod64 n d = (if d = 0 then (0, 0) else (n div d, n mod d))"
  by (cases "d = 0") (simp_all add: udivmod64_spec, simp add: udivmod64_def)

text \<open>
  The signed wrappers \<open>__divdi3\<close> and \<open>__moddi3\<close> return the quotient truncated towards
  zero and the remainder with the sign of the dividend, as C division does, for every divisor
  but 0 and for every pair but the one whose quotient does not fit in 64 bits.
\<close>

theorem signed_division_truncates:
  assumes "b \<noteq> 0" and "\<not> (sint a = - (2 ^ 63) \<and> sint b = -1)"
  shows "sint (divdi3 a b) = sint a sdiv sint b \<and> sint (moddi3 a b) = sint a smod sint b"
proof
  have b: "sint b \<noteq> 0" using assms(1) by (metis signed_word_eqI sint_0)
  have abs: "\<bar>sint a sdiv sint b\<bar> = \<bar>sint a\<bar> div \<bar>sint b\<bar>"
    using b by (auto simp: signed_divide_int_def abs_mult abs_sgn_eq pos_imp_zdiv_nonneg_iff)
  moreover have le: "\<bar>sint a\<bar> div \<bar>sint b\<bar> \<le> \<bar>sint a\<bar>"
    using zdiv_mono2 [of "\<bar>sint a\<bar>" 1 "\<bar>sint b\<bar>"] b by simp
  ultimately have lo: "- (2 ^ 63) \<le> sint a sdiv sint b" "sint a sdiv sint b \<le> 2 ^ 63"
    using sint_bounds [of a] by auto
  have "sint a sdiv sint b \<noteq> 2 ^ 63"
  proof
    assume big: "sint a sdiv sint b = 2 ^ 63"
    have "\<bar>sint a\<bar> div \<bar>sint b\<bar> * \<bar>sint b\<bar> \<le> \<bar>sint a\<bar>"
      using minus_mod_eq_div_mult [of "\<bar>sint a\<bar>" "\<bar>sint b\<bar>"]
        pos_mod_sign [of "\<bar>sint b\<bar>" "\<bar>sint a\<bar>"] b by linarith
    then have "2 ^ 63 * \<bar>sint b\<bar> \<le> 2 ^ 63" using abs big sint_bounds [of a] by simp
    then have "sint b = 1 \<or> sint b = -1" using b by auto
    then show False using big assms(2) sint_bounds [of a] by auto
  qed
  then show "sint (divdi3 a b) = sint a sdiv sint b"
    unfolding divdi3_word [OF assms(1)] using lo by (intro sint_of_int_eq) linarith+
  have "\<bar>sint a smod sint b\<bar> \<le> \<bar>sint a\<bar> mod \<bar>sint b\<bar>"
    using b by (auto simp: signed_modulo_int_def abs_mult sgn_if)
  moreover have "\<bar>sint a\<bar> mod \<bar>sint b\<bar> < \<bar>sint b\<bar>" using b by (intro pos_mod_bound) simp
  ultimately show "sint (moddi3 a b) = sint a smod sint b"
    unfolding moddi3_word [OF assms(1)] using sint_bounds [of b] by (intro sint_of_int_eq) linarith+
qed

theorem signed_division_truncates_witness:
  "sint (divdi3 (- 7) 2) = sint (- 7 :: u64) sdiv sint (2 :: u64) \<and>
   sint (moddi3 (- 7) 2) = sint (- 7 :: u64) smod sint (2 :: u64) \<and>
   sint (- 7 :: u64) sdiv sint (2 :: u64) = - 3"
proof -
  have "sint (divdi3 (- 7) 2) = sint (- 7 :: u64) sdiv sint (2 :: u64) \<and>
        sint (moddi3 (- 7) 2) = sint (- 7 :: u64) smod sint (2 :: u64)"
    by (rule signed_division_truncates) simp_all
  then show ?thesis by (simp add: signed_divide_int_def)
qed

end
