(* ===== verification/Usercopy.thy ===== *)
theory Usercopy
  imports Prelude
begin

text \<open>
  The user copy routines of \<open>kernel/core/vm.c\<close>: \<open>copyin\<close> and \<open>copyout\<close> walk a user range page by
  page. What the page-table walk and the fault resolution (\<open>uva2ka\<close>, \<open>walkpgdir\<close>, zero-fill and
  copy-on-write) answer for one page is the address space \<open>aspace\<close>: the contents of the page at a
  page-aligned address, if the process may use it, and whether it can be made writable.
\<close>

definition PGSIZE :: nat where "PGSIZE = 4096"

definition PGROUNDDOWN :: "u32 \<Rightarrow> u32" where "PGROUNDDOWN a = a AND NOT 4095"

definition KERNBASE :: u32 where "KERNBASE = 0x80000000"

record aspace =
  upage :: "u32 \<Rightarrow> bytes option"
  uwritable :: "u32 \<Rightarrow> bool"

function copyin :: "aspace \<Rightarrow> u32 \<Rightarrow> nat \<Rightarrow> bytes \<times> int" where
  "copyin as va len =
     (if len = 0 then ([], 0)
      else let va0 = PGROUNDDOWN va in
        case upage as va0 of
          None \<Rightarrow> ([], - 1)
        | Some pg \<Rightarrow>
            let n = min (PGSIZE - unat (va - va0)) len;
                (bs, r) = copyin as (va0 + of_nat PGSIZE) (len - n)
            in (take n (drop (unat (va - va0)) pg) @ bs, r))"
  by pat_completeness auto

text \<open>The address of a byte: its page and its place in the page.\<close>

lemma pgoff: "va - PGROUNDDOWN va = take_bit 12 va"
proof -
  have m: "(4095 :: u32) = mask 12" by (simp add: mask_eq_exp_minus_1)
  show ?thesis
    using and_not_split [of va "mask 12"]
    unfolding PGROUNDDOWN_def m by (simp add: take_bit_eq_mask algebra_simps)
qed

lemma unat_pgoff: "unat (va - PGROUNDDOWN va) = unat va mod 4096"
  unfolding pgoff unat_take_bit by simp

lemma pgoff_less: "unat (va - PGROUNDDOWN va) < PGSIZE"
  by (simp add: unat_pgoff PGSIZE_def)

termination copyin
proof (relation "measure (\<lambda>(as, va, len). len)")
  fix as :: aspace and va va0 len pg n
  assume "len \<noteq> 0" "va0 = PGROUNDDOWN va" "n = min (PGSIZE - unat (va - va0)) len"
  then show "((as, va0 + of_nat PGSIZE, len - n), as, va, len) \<in> measure (\<lambda>(as, va, len). len)"
    using pgoff_less [of va] by auto
qed simp

function copyout :: "aspace \<Rightarrow> u32 \<Rightarrow> bytes \<Rightarrow> aspace \<times> int" where
  "copyout as va bs =
     (if bs = [] then (as, 0)
      else let va0 = PGROUNDDOWN va in
        case upage as va0 of
          None \<Rightarrow> (as, - 1)
        | Some pg \<Rightarrow>
            if \<not> uwritable as va0 then (as, - 1)
            else let n = min (PGSIZE - unat (va - va0)) (length bs);
                     as' = as\<lparr>upage := (upage as)(va0 \<mapsto> splice (unat (va - va0)) (take n bs) pg)\<rparr>
                 in copyout as' (va0 + of_nat PGSIZE) (drop n bs))"
  by pat_completeness auto

termination copyout
proof (relation "measure (\<lambda>(as, va, bs). length bs)")
  fix as as' :: aspace and va va0 and bs :: bytes and n
  assume "bs \<noteq> []" "va0 = PGROUNDDOWN va" "n = min (PGSIZE - unat (va - va0)) (length bs)"
  then show "((as', va0 + of_nat PGSIZE, drop n bs), as, va, bs) \<in> measure (\<lambda>(as, va, bs). length bs)"
    using pgoff_less [of va] by auto
qed simp

declare copyin.simps [simp del] copyout.simps [simp del]

text \<open>The byte a user address holds; pages have 4096 bytes.\<close>

definition ubyte :: "aspace \<Rightarrow> u32 \<Rightarrow> u8" where
  "ubyte as va = (case upage as (PGROUNDDOWN va) of None \<Rightarrow> 0 | Some pg \<Rightarrow> pg ! (unat va mod 4096))"

definition umapped :: "aspace \<Rightarrow> u32 \<Rightarrow> bool" where
  "umapped as va \<longleftrightarrow> upage as (PGROUNDDOWN va) \<noteq> None"

definition wf_aspace :: "aspace \<Rightarrow> bool" where
  "wf_aspace as \<longleftrightarrow> (\<forall>a pg. upage as a = Some pg \<longrightarrow> length pg = PGSIZE)"

lemma PGROUNDDOWN_alt: "PGROUNDDOWN va = va - of_nat (unat va mod 4096)"
proof -
  have "va - PGROUNDDOWN va = of_nat (unat va mod 4096)"
    by (simp flip: unat_pgoff)
  then show ?thesis by (simp add: algebra_simps)
qed

lemma unat_add_mod_page: "unat (va + of_nat k :: u32) mod 4096 = (unat va + k) mod 4096"
  by (simp add: unat_word_ariths unat_of_nat mod_mod_cancel mod_add_right_eq)

lemma same_page:
  assumes "unat va mod 4096 + k < 4096"
  shows "PGROUNDDOWN (va + of_nat k) = PGROUNDDOWN va"
    and "unat (va + of_nat k) mod 4096 = unat va mod 4096 + k"
proof -
  have "(unat va + k) mod 4096 = (unat va mod 4096 + k) mod 4096" by (simp add: mod_add_left_eq)
  also have "\<dots> = unat va mod 4096 + k" using assms by simp
  finally show off: "unat (va + of_nat k) mod 4096 = unat va mod 4096 + k"
    by (simp add: unat_add_mod_page)
  show "PGROUNDDOWN (va + of_nat k) = PGROUNDDOWN va"
    unfolding PGROUNDDOWN_alt off by simp
qed

lemma next_page:
  assumes "n = 4096 - unat va mod 4096"
  shows "PGROUNDDOWN va + 4096 + of_nat k = va + of_nat (n + k)"
  unfolding PGROUNDDOWN_alt assms by (simp add: of_nat_diff)

text \<open>
  What a copy in of \<open>len\<close> bytes from \<open>va\<close> is: the bytes of the range up to its end, or up to the
  first byte that is not mapped, and then it fails.
\<close>

definition copied :: "aspace \<Rightarrow> u32 \<Rightarrow> nat \<Rightarrow> bytes \<times> int \<Rightarrow> bool" where
  "copied as va len res \<longleftrightarrow> (case res of (bs, r) \<Rightarrow>
     bs = map (\<lambda>k. ubyte as (va + of_nat k)) [0..<length bs] \<and> length bs \<le> len \<and>
     (r = 0 \<and> length bs = len \<or>
      r = - 1 \<and> length bs < len \<and> \<not> umapped as (va + of_nat (length bs))))"

lemma page_prefix:
  assumes "wf_aspace as" "upage as (PGROUNDDOWN va) = Some pg" "unat va mod 4096 + n \<le> 4096"
  shows "take n (drop (unat va mod 4096) pg) = map (\<lambda>k. ubyte as (va + of_nat k)) [0..<n]"
proof (rule nth_equalityI)
  have len: "length pg = 4096" using assms(1,2) by (auto simp: wf_aspace_def PGSIZE_def)
  then show *: "length (take n (drop (unat va mod 4096) pg)) =
      length (map (\<lambda>k. ubyte as (va + of_nat k)) [0..<n])"
    using assms(3) by simp
  fix k assume "k < length (take n (drop (unat va mod 4096) pg))"
  then have k: "k < n" using * by simp
  then have "unat va mod 4096 + k < 4096" using assms(3) by simp
  note sp = same_page [OF this]
  show "take n (drop (unat va mod 4096) pg) ! k = map (\<lambda>k. ubyte as (va + of_nat k)) [0..<n] ! k"
    using k len assms(3) by (simp add: ubyte_def sp assms(2))
qed

lemma copied_cons:
  assumes wf: "wf_aspace as" and pg: "upage as (PGROUNDDOWN va) = Some pg"
    and n: "n = min (4096 - unat va mod 4096) len"
    and rest: "copied as (PGROUNDDOWN va + 4096) (len - n) (bs, r)"
  shows "copied as va len (take n (drop (unat va mod 4096) pg) @ bs, r)"
proof -
  have pre: "take n (drop (unat va mod 4096) pg) = map (\<lambda>k. ubyte as (va + of_nat k)) [0..<n]"
    by (rule page_prefix [OF wf pg]) (simp add: n)
  show ?thesis
  proof (cases "n = len")
    case True
    with rest have "bs = []" "r = 0" by (auto simp: copied_def)
    then show ?thesis unfolding pre copied_def using True by simp
  next
    case False
    then have n': "n = 4096 - unat va mod 4096" and le: "n \<le> len" using n by auto
    note shift = next_page [OF n']
    from rest have bs: "bs = map (\<lambda>k. ubyte as (va + of_nat (n + k))) [0..<length bs]"
      unfolding copied_def by (simp add: shift)
    have "map (\<lambda>k. ubyte as (va + of_nat k)) [0..<n] @ bs =
        map (\<lambda>k. ubyte as (va + of_nat k)) [0..<n + length bs]"
      unfolding map_upt_append using bs by simp
    moreover have "\<not> umapped as (PGROUNDDOWN va + 4096 + of_nat (length bs)) \<longleftrightarrow>
        \<not> umapped as (va + of_nat (n + length bs))" by (simp only: shift)
    ultimately show ?thesis using rest le by (auto simp: copied_def pre)
  qed
qed

lemma copyin_copied:
  assumes wf: "wf_aspace as"
  shows "copied as va len (copyin as va len)"
proof (induction len arbitrary: va rule: less_induct)
  case (less len)
  consider "len = 0" | "0 < len" "upage as (PGROUNDDOWN va) = None"
    | pg where "0 < len" "upage as (PGROUNDDOWN va) = Some pg" by blast
  then show ?case
  proof cases
    case 1
    then show ?thesis by (simp add: copyin.simps copied_def)
  next
    case 2
    then show ?thesis by (simp add: copyin.simps copied_def umapped_def)
  next
    case 3
    define n where "n = min (4096 - unat va mod 4096) len"
    obtain bs r where br: "copyin as (PGROUNDDOWN va + 4096) (len - n) = (bs, r)" by fastforce
    have "0 < n" using 3 by (simp add: n_def)
    then have "copied as (PGROUNDDOWN va + 4096) (len - n) (bs, r)"
      using less.IH [of "len - n" "PGROUNDDOWN va + 4096"] 3 br by simp
    from copied_cons [OF wf 3(2) n_def this] show ?thesis
      using 3 br by (subst copyin.simps) (simp add: unat_pgoff PGSIZE_def n_def)
  qed
qed

lemma umapped_upd [simp]:
  "upage as a = Some pg \<Longrightarrow> umapped (as\<lparr>upage := (upage as)(a \<mapsto> pg')\<rparr>) = umapped as"
  by (rule ext) (simp add: umapped_def)

lemma wf_aspace_upd:
  "wf_aspace as \<Longrightarrow> length pg' = PGSIZE \<Longrightarrow> wf_aspace (as\<lparr>upage := (upage as)(a \<mapsto> pg')\<rparr>)"
  by (auto simp: wf_aspace_def)

lemma ubyte_page_write:
  assumes wf: "wf_aspace as" and pg: "upage as (PGROUNDDOWN va) = Some pg"
    and n: "unat va mod 4096 + length cs \<le> 4096"
  shows "ubyte (as\<lparr>upage := (upage as)(PGROUNDDOWN va \<mapsto> splice (unat va mod 4096) cs pg)\<rparr>) a =
    (if unat (a - va) < length cs then cs ! unat (a - va) else ubyte as a)"
proof -
  let ?o = "unat va mod 4096"
  have len: "length pg = 4096" using wf pg by (auto simp: wf_aspace_def PGSIZE_def)
  show ?thesis
  proof (cases "unat (a - va) < length cs")
    case True
    have a: "a = va + of_nat (unat (a - va))" by simp
    have "?o + unat (a - va) < 4096" using True n by simp
    note sp = same_page [OF this, folded a]
    show ?thesis using True n len by (simp add: ubyte_def sp nth_splice)
  next
    case False
    have "splice ?o cs pg ! (unat a mod 4096) = pg ! (unat a mod 4096)"
      if same: "PGROUNDDOWN a = PGROUNDDOWN va"
    proof -
      have False if h: "?o \<le> unat a mod 4096" "unat a mod 4096 < ?o + length cs"
      proof -
        from same have "a - of_nat (unat a mod 4096) = va - of_nat ?o"
          by (simp only: PGROUNDDOWN_alt)
        then have "a - va = of_nat (unat a mod 4096) - of_nat ?o" by (simp add: algebra_simps)
        also have "\<dots> = of_nat (unat a mod 4096 - ?o)" using h by (simp add: of_nat_diff)
        finally have d: "a - va = of_nat (unat a mod 4096 - ?o)" .
        have "unat (a - va) = unat a mod 4096 - ?o"
          unfolding d by (rule unat_of_nat_len) (use n h in simp)
        then show False using h False by simp
      qed
      then show ?thesis using n len by (auto simp: nth_splice)
    qed
    then show ?thesis using False pg by (auto simp: ubyte_def)
  qed
qed

text \<open>The effect of a copy out that succeeds.\<close>

definition written :: "aspace \<Rightarrow> u32 \<Rightarrow> bytes \<Rightarrow> aspace \<Rightarrow> bool" where
  "written as va bs as' \<longleftrightarrow>
     wf_aspace as' \<and> umapped as' = umapped as \<and> (\<forall>k < length bs. umapped as (va + of_nat k)) \<and>
     (\<forall>a. ubyte as' a = (if unat (a - va) < length bs then bs ! unat (a - va) else ubyte as a))"

lemma written_page:
  assumes wf: "wf_aspace as" and pg: "upage as (PGROUNDDOWN va) = Some pg"
    and n: "unat va mod 4096 + length cs \<le> 4096"
  shows "written as va cs (as\<lparr>upage := (upage as)(PGROUNDDOWN va \<mapsto> splice (unat va mod 4096) cs pg)\<rparr>)"
proof -
  have pl: "length pg = 4096" using wf pg by (auto simp: wf_aspace_def PGSIZE_def)
  have "umapped as (va + of_nat k)" if "k < length cs" for k
    using same_page(1) [of va k] that n pg by (simp add: umapped_def)
  moreover have "wf_aspace (as\<lparr>upage := (upage as)(PGROUNDDOWN va \<mapsto> splice (unat va mod 4096) cs pg)\<rparr>)"
    by (rule wf_aspace_upd [OF wf]) (simp add: PGSIZE_def pl n)
  ultimately show ?thesis
    unfolding written_def using ubyte_page_write [OF wf pg n] pg by simp
qed

lemma unat_minus_of_nat:
  "n \<le> unat (d :: u32) \<Longrightarrow> unat (d - of_nat n) = unat d - n"
  "unat (d :: u32) < n \<Longrightarrow> n < 2 ^ 32 \<Longrightarrow> unat (d - of_nat n) = unat d + 2 ^ 32 - n"
proof -
  assume "n \<le> unat d"
  then have "d - of_nat n = of_nat (unat d - n)" by (simp add: of_nat_diff)
  then show "unat (d - of_nat n) = unat d - n"
    using unat_of_nat_len [of "unat d - n", where 'a = 32] unat_bound [of d] by simp
next
  assume h: "unat d < n" "n < 2 ^ 32"
  have "of_nat (unat d + 2 ^ 32 - n) = (d - of_nat n :: u32)"
    using h by (subst of_nat_diff) simp_all
  then show "unat (d - of_nat n) = unat d + 2 ^ 32 - n"
    using unat_of_nat_len [of "unat d + 2 ^ 32 - n", where 'a = 32] h by simp
qed

lemma written_append:
  assumes w1: "written as va cs as1" and w2: "written as1 (va + of_nat (length cs)) ds as2"
    and len: "length cs + length ds \<le> 2 ^ 32" and ds: "ds \<noteq> []"
  shows "written as va (cs @ ds) as2"
proof -
  let ?n = "length cs"
  have n: "?n < 2 ^ 32" using len ds by (cases ds) auto
  have "ubyte as2 a = (if unat (a - va) < length (cs @ ds) then (cs @ ds) ! unat (a - va) else ubyte as a)" for a
  proof (cases "?n \<le> unat (a - va)")
    case True
    then have "unat (a - va - of_nat ?n) = unat (a - va) - ?n" by (rule unat_minus_of_nat)
    then show ?thesis using w1 w2 True by (auto simp: written_def nth_append diff_diff_eq)
  next
    case False
    then have "unat (a - va - of_nat ?n) = unat (a - va) + 2 ^ 32 - ?n"
      using n by (intro unat_minus_of_nat) auto
    then have "\<not> unat (a - (va + of_nat ?n)) < length ds"
      using len False by (simp add: diff_diff_eq)
    then show ?thesis using w1 w2 False by (simp add: written_def nth_append)
  qed
  moreover have "umapped as (va + of_nat k)" if "k < length (cs @ ds)" for k
  proof (cases "k < ?n")
    case True
    with w1 show ?thesis by (simp add: written_def)
  next
    case False
    with that have "k - ?n < length ds" by simp
    with w2 have "umapped as1 (va + of_nat ?n + of_nat (k - ?n))" by (auto simp: written_def)
    moreover have "va + of_nat ?n + of_nat (k - ?n) = va + of_nat k"
      using False by (simp add: of_nat_diff)
    ultimately show ?thesis using w1 by (simp add: written_def)
  qed
  ultimately show ?thesis using w1 w2 by (simp add: written_def)
qed

lemma copyout_written:
  assumes "wf_aspace as" "length bs \<le> 2 ^ 32" "copyout as va bs = (as', 0)"
  shows "written as va bs as'"
  using assms
proof (induction "length bs" arbitrary: as va bs rule: less_induct)
  case less
  show ?case
  proof (cases "bs = []")
    case True
    with less.prems show ?thesis by (simp add: copyout.simps written_def)
  next
    case False
    with less.prems(3) obtain pg where pg: "upage as (PGROUNDDOWN va) = Some pg"
      by (subst (asm) copyout.simps) (auto simp: Let_def split: option.splits)
    let ?o = "unat va mod 4096"
    define n where "n = min (4096 - ?o) (length bs)"
    define as1 where "as1 = as\<lparr>upage := (upage as)(PGROUNDDOWN va \<mapsto> splice ?o (take n bs) pg)\<rparr>"
    have n: "0 < n" "n \<le> length bs" "?o + n \<le> 4096" using False by (auto simp: n_def)
    have w1: "written as va (take n bs) as1"
      unfolding as1_def by (rule written_page [OF less.prems(1) pg]) (use n in simp)
    have co: "copyout as1 (PGROUNDDOWN va + 4096) (drop n bs) = (as', 0)"
      using less.prems(3) False pg
      by (subst (asm) copyout.simps)
        (simp add: Let_def unat_pgoff PGSIZE_def n_def as1_def split: if_splits)
    show ?thesis
    proof (cases "n = length bs")
      case True
      with co w1 show ?thesis by (simp add: copyout.simps)
    next
      case ne: False
      then have n': "n = 4096 - ?o" by (auto simp: n_def)
      have va': "PGROUNDDOWN va + 4096 = va + of_nat n" using next_page [OF n', of 0] by simp
      have "written as1 (va + of_nat n) (drop n bs) as'"
        by (rule less.hyps) (use n w1 co va' less.prems(2) in \<open>auto simp: written_def\<close>)
      then show ?thesis
        using written_append [OF w1, of "drop n bs" as'] n ne less.prems(2) by simp
    qed
  qed
qed

text \<open>
  Claim C37. The user copies are inverse to each other. When \<open>copyout\<close> of a buffer reports success,
  every page still has 4096 bytes, \<open>copyin\<close> of the same range returns exactly the buffer and
  reports success, and every user byte outside the range is what it was.
\<close>

theorem copyout_copyin:
  assumes "wf_aspace as" "length bs \<le> 2 ^ 32" "copyout as va bs = (as', 0)"
  shows "wf_aspace as' \<and> copyin as' va (length bs) = (bs, 0) \<and>
    (\<forall>a. length bs \<le> unat (a - va) \<longrightarrow> ubyte as' a = ubyte as a)"
proof -
  have w: "written as va bs as'" by (rule copyout_written [OF assms])
  obtain cs r where cs: "copyin as' va (length bs) = (cs, r)" by fastforce
  have "copied as' va (length bs) (cs, r)"
    using copyin_copied [of as' va "length bs"] w cs by (simp add: written_def)
  then have c: "cs = map (\<lambda>k. ubyte as' (va + of_nat k)) [0..<length cs]" "r = 0" "length cs = length bs"
    using w by (auto simp: copied_def written_def)
  have "cs = bs"
  proof (rule nth_equalityI [OF c(3)])
    fix k assume k: "k < length cs"
    then have "cs ! k = ubyte as' (va + of_nat k)" using c(1) by (metis add_0 nth_map_upt diff_zero)
    then show "cs ! k = bs ! k"
      using w k c(3) assms(2) by (simp add: written_def unat_of_nat_len)
  qed
  then show ?thesis using w cs c(2) by (auto simp: written_def)
qed

text \<open>A buffer of two bytes that ends one page and starts the next.\<close>

definition two_pages :: aspace where
  "two_pages = \<lparr>upage = (\<lambda>a. if a = 0x1000 \<or> a = 0x2000 then Some (replicate 4096 0) else None),
                uwritable = (\<lambda>a. True)\<rparr>"

theorem copyout_copyin_witness:
  "snd (copyout two_pages 0x1FFF [7, 8]) = 0 \<and>
   copyin (fst (copyout two_pages 0x1FFF [7, 8])) 0x1FFF (Suc (Suc 0)) = ([7, 8], 0)"
proof -
  have wf: "wf_aspace two_pages" by (simp add: wf_aspace_def two_pages_def PGSIZE_def)
  have ok: "snd (copyout two_pages 0x1FFF [7, 8]) = 0"
    by (simp add: copyout.simps two_pages_def PGROUNDDOWN_def PGSIZE_def Let_def)
  then show ?thesis
    using copyout_copyin [OF wf, of "[7, 8]" "0x1FFF" "fst (copyout two_pages 0x1FFF [7, 8])"]
    by (simp add: prod_eq_iff)
qed

end
