(* ===== verification/Pipe.thy ===== *)
theory Pipe
  imports Usercopy
begin

text \<open>
  The pipe of \<open>kernel/core/pipe.c\<close>: a ring of 2048 bytes with two free-running 32-bit counters.
  The record \<open>pipe\<close> is \<open>struct pipe\<close> with, for each of the two sleep channels \<open>&p->nread\<close> and
  \<open>&p->nwrite\<close>, the processes asleep on it, and the file's four global statistics counters, which
  a new pipe inherits. A routine that would sleep returns the point at which it resumes, so that what other processes do
  in between is explicit. The reader of a user buffer drops the pipe lock around \<open>copyout\<close>; it is
  cut into the two critical sections \<open>piperead_pick\<close> and \<open>piperead_commit\<close>.
\<close>

definition PIPE_CAPACITY :: nat where "PIPE_CAPACITY = 2048"

definition SIGPIPE_bit :: u32 where "SIGPIPE_bit = push_bit 12 1"

record pipe_stats =
  pipe_read_sleep_calls :: u32
  pipe_write_sleep_calls :: u32
  pipe_wakeup_readers :: u32
  pipe_wakeup_writers :: u32

record pipe =
  data :: bytes
  nread :: u32
  nwrite :: u32
  readopen :: bool
  writeopen :: bool
  rwait :: "nat list"
  wwait :: "nat list"
  stats :: pipe_stats

text \<open>The caller: its process id, whether it was killed, its pending signals, its address space.\<close>

record caller =
  c_pid :: nat
  killed :: bool
  sig_pending :: u32
  pgdir :: "aspace option"

subsection \<open>Operations\<close>

text \<open>The part of \<open>pipealloc\<close> that sets up the object.\<close>

definition pipe_init :: "pipe_stats \<Rightarrow> pipe" where
  "pipe_init st = \<lparr>data = replicate PIPE_CAPACITY 0, nread = 0, nwrite = 0, readopen = True,
     writeopen = True, rwait = [], wwait = [], stats = st\<rparr>"

text \<open>\<open>wakeup(&p->nread)\<close> and \<open>wakeup(&p->nwrite)\<close> with the counter each call site bumps.\<close>

definition wake_readers :: "pipe \<Rightarrow> pipe" where
  "wake_readers p = p\<lparr>rwait := [],
     stats := (stats p)\<lparr>pipe_wakeup_readers := pipe_wakeup_readers (stats p) + 1\<rparr>\<rparr>"

definition wake_writers :: "pipe \<Rightarrow> pipe" where
  "wake_writers p = p\<lparr>wwait := [],
     stats := (stats p)\<lparr>pipe_wakeup_writers := pipe_wakeup_writers (stats p) + 1\<rparr>\<rparr>"

definition full :: "pipe \<Rightarrow> bool" where
  "full p \<longleftrightarrow> nwrite p = nread p + of_nat PIPE_CAPACITY"

text \<open>
  The chunk computation of both loops, on C ints: at most what is wanted and what is there, and at
  most what is left before the end of the array; the second comparison is unsigned.
\<close>

definition clip :: "int \<Rightarrow> int \<Rightarrow> u32 \<Rightarrow> int" where
  "clip want avail off =
     (let chunk = (if want > avail then avail else want);
          until_wrap = of_nat PIPE_CAPACITY - off
      in if (word_of_int chunk :: u32) > until_wrap then sint until_wrap else chunk)"

definition write_chunk :: "int \<Rightarrow> int \<Rightarrow> pipe \<Rightarrow> int" where
  "write_chunk n i p = clip (n - i) (int PIPE_CAPACITY - sint (nwrite p - nread p))
     (nwrite p mod of_nat PIPE_CAPACITY)"

definition read_chunk :: "int \<Rightarrow> int \<Rightarrow> pipe \<Rightarrow> int" where
  "read_chunk n i p = clip (n - i) (sint (nwrite p - nread p)) (nread p mod of_nat PIPE_CAPACITY)"

text \<open>The bytes a write fetches from its buffer: \<open>copyin\<close> for a user address, else a \<open>memmove\<close>.\<close>

definition fetch :: "aspace option \<Rightarrow> (u32 \<Rightarrow> u8) \<Rightarrow> u32 \<Rightarrow> int \<Rightarrow> int \<Rightarrow> bytes \<times> int" where
  "fetch um km addr i chunk =
     (case um of
        Some as \<Rightarrow> copyin as (addr + word_of_int i) (nat chunk)
      | None \<Rightarrow> (map (\<lambda>k. km (addr + word_of_int i + of_nat k)) [0..<nat chunk], 0))"

datatype wres = WReturn int | WSleep int

text \<open>Storing fetched bytes into the ring at the write position.\<close>

definition poke :: "bytes \<Rightarrow> pipe \<Rightarrow> pipe" where
  "poke bs p = p\<lparr>data := splice (unat (nwrite p mod of_nat PIPE_CAPACITY)) bs (data p)\<rparr>"

function pipewrite_loop ::
  "aspace option \<Rightarrow> (u32 \<Rightarrow> u8) \<Rightarrow> u32 \<Rightarrow> int \<Rightarrow> int \<Rightarrow> caller \<Rightarrow> pipe \<Rightarrow> wres \<times> caller \<times> pipe" where
  "pipewrite_loop um km addr n i c p =
     (if i < n then
        if full p then
          if \<not> readopen p \<or> killed c then
            (WReturn (- 1),
             if \<not> readopen p then c\<lparr>sig_pending := sig_pending c OR SIGPIPE_bit\<rparr> else c, p)
          else
            let p1 = wake_readers (p\<lparr>stats := (stats p)\<lparr>pipe_write_sleep_calls :=
                       pipe_write_sleep_calls (stats p) + 1\<rparr>\<rparr>)
            in (WSleep i, c, p1\<lparr>wwait := c_pid c # wwait p1\<rparr>)
        else
          let was_empty = (nwrite p = nread p);
              chunk = write_chunk n i p;
              (bs, r) = fetch um km addr i chunk;
              p1 = poke bs p
          in if r < 0 then (WReturn (if i > 0 then i else - 1), c, p1)
             else let p2 = p1\<lparr>nwrite := nwrite p1 + word_of_int chunk\<rparr>;
                      p3 = (if was_empty then wake_readers p2 else p2)
                  in pipewrite_loop um km addr n (i + chunk) c p3
      else (WReturn n, c, p))"
  by pat_completeness auto

lemma until_wrap:
  assumes "off < 2048"
  shows "unat (2048 - off :: u32) = 2048 - unat off" "sint (2048 - off :: u32) = 2048 - int (unat off)"
proof -
  have o: "unat off < 2048" using assms by (simp add: word_less_nat_alt)
  show u: "unat (2048 - off :: u32) = 2048 - unat off"
    using assms by (subst unat_diff_le) (auto simp: order_less_imp_le)
  show "sint (2048 - off :: u32) = 2048 - int (unat off)"
    unfolding sint_u32 u using o by (simp add: of_nat_diff del: of_nat_unat)
qed

lemma off_bound: "(x :: u32) mod 2048 < 2048"
  by (simp add: word_mod_less_divisor)

text \<open>On sane arguments the chunk is the least of the three bounds.\<close>

lemma clip_min:
  assumes "0 < want" "0 < avail" "want < 2 ^ 31" "off < 2048"
  shows "clip want avail off = min (min want avail) (2048 - int (unat off))"
proof -
  have "unat (word_of_int (min want avail) :: u32) = nat (min want avail)"
    using assms by (intro word_of_int_nonneg) auto
  then show ?thesis
    using assms until_wrap [OF assms(4)]
    by (auto simp: clip_def PIPE_CAPACITY_def Let_def min_def word_less_nat_alt
        simp del: of_nat_unat split: if_splits)
qed

lemma clip_pos:
  assumes "0 < want" "avail \<noteq> 0" "off < 2048" "- (2 ^ 31) \<le> avail"
  shows "0 < clip want avail off"
proof -
  have o: "unat off < 2048" using assms(3) by (simp add: word_less_nat_alt)
  show ?thesis
  proof (cases "0 < avail")
    case True
    then show ?thesis
      using assms o until_wrap(2) [OF assms(3)] 
      by (simp add: clip_def PIPE_CAPACITY_def Let_def del: of_nat_unat)
  next
    case False
    then have "unat (word_of_int avail :: u32) = nat (avail + 2 ^ 32)"
      using assms by (intro word_of_int_neg) auto
    then have "(2048 - off :: u32) < word_of_int avail"
      using until_wrap(1) [OF assms(3)] assms by (simp add: word_less_nat_alt)
    then show ?thesis
      using False assms o until_wrap(2) [OF assms(3)] 
      by (simp add: clip_def PIPE_CAPACITY_def Let_def del: of_nat_unat)
  qed
qed

lemma write_chunk_pos: "i < n \<Longrightarrow> \<not> full p \<Longrightarrow> 0 < write_chunk n i p"
proof -
  assume "i < n" "\<not> full p"
  have "sint (nwrite p - nread p) \<noteq> 2048"
  proof
    assume "sint (nwrite p - nread p) = 2048"
    then have "nwrite p - nread p = 2048" by (intro signed_word_eqI) simp
    with \<open>\<not> full p\<close> show False by (simp add: full_def PIPE_CAPACITY_def algebra_simps)
  qed
  then show ?thesis
    using \<open>i < n\<close> sint_u32_range [of "nwrite p - nread p"] unfolding write_chunk_def
    by (intro clip_pos) (auto simp: PIPE_CAPACITY_def off_bound)
qed

lemma read_chunk_pos: "i < n \<Longrightarrow> nread p \<noteq> nwrite p \<Longrightarrow> 0 < read_chunk n i p"
proof -
  assume "i < n" "nread p \<noteq> nwrite p"
  then have "sint (nwrite p - nread p) \<noteq> 0"
    using signed_word_eqI [of "nwrite p - nread p" 0] by auto
  with \<open>i < n\<close> show ?thesis
    using sint_u32_range [of "nwrite p - nread p"] unfolding read_chunk_def
    by (intro clip_pos) (auto simp: PIPE_CAPACITY_def off_bound)
qed

termination pipewrite_loop
  by (relation "measure (\<lambda>(um, km, addr, n, i, c, p). nat (n - i))")
    (auto dest: write_chunk_pos)

text \<open>\<open>pipewrite\<close> up to its first sleep or its return.\<close>

definition pipewrite :: "(u32 \<Rightarrow> u8) \<Rightarrow> u32 \<Rightarrow> int \<Rightarrow> caller \<Rightarrow> pipe \<Rightarrow> wres \<times> caller \<times> pipe" where
  "pipewrite km addr n c p =
     (let user_src = addr < KERNBASE in
      if user_src \<and> pgdir c = None then (WReturn (- 1), c, p)
      else if \<not> readopen p then
        (WReturn (- 1), c\<lparr>sig_pending := sig_pending c OR SIGPIPE_bit\<rparr>, p)
      else pipewrite_loop (if user_src then pgdir c else None) km addr n 0 c p)"

text \<open>The wait of \<open>piperead\<close> for data, and the two critical sections of one round of its copy loop.\<close>

datatype rwait_res = RReturn int | RSleep | RGo

definition piperead_wait :: "caller \<Rightarrow> pipe \<Rightarrow> rwait_res \<times> pipe" where
  "piperead_wait c p =
     (if nread p = nwrite p \<and> writeopen p then
        if killed c then (RReturn (- 1), p)
        else (RSleep, p\<lparr>rwait := c_pid c # rwait p,
                stats := (stats p)\<lparr>pipe_read_sleep_calls := pipe_read_sleep_calls (stats p) + 1\<rparr>\<rparr>)
      else (RGo, p))"

datatype rpick = RDone int | RCopy int u32 bool

definition piperead_pick :: "int \<Rightarrow> int \<Rightarrow> pipe \<Rightarrow> rpick" where
  "piperead_pick n i p =
     (if i < n \<and> nread p \<noteq> nwrite p
      then RCopy (read_chunk n i p) (nread p mod of_nat PIPE_CAPACITY) (full p)
      else RDone i)"

definition peek :: "int \<Rightarrow> u32 \<Rightarrow> pipe \<Rightarrow> bytes" where
  "peek chunk off p = take (nat chunk) (drop (unat off) (data p))"

definition piperead_commit :: "int \<Rightarrow> bool \<Rightarrow> pipe \<Rightarrow> pipe" where
  "piperead_commit chunk was_full p =
     (let p1 = p\<lparr>nread := nread p + word_of_int chunk\<rparr>
      in if was_full then wake_writers p1 else p1)"

text \<open>
  The copy loop into a kernel buffer, where the code holds the lock throughout. The rounds of a
  reader with a user buffer, and what may happen between their two halves, are the steps below.
\<close>

function piperead_kloop :: "int \<Rightarrow> int \<Rightarrow> pipe \<Rightarrow> bytes \<times> int \<times> pipe" where
  "piperead_kloop n i p =
     (case piperead_pick n i p of
        RDone v \<Rightarrow> ([], v, p)
      | RCopy chunk off was_full \<Rightarrow>
          let (bs, v, p') = piperead_kloop n (i + chunk) (piperead_commit chunk was_full p)
          in (peek chunk off p @ bs, v, p'))"
  by pat_completeness auto

lemma piperead_pick_chunk:
  "piperead_pick n i p = RCopy chunk off w \<Longrightarrow> i < n \<and> 0 < chunk"
  by (auto simp: piperead_pick_def read_chunk_pos split: if_splits)

termination piperead_kloop
  by (relation "measure (\<lambda>(n, i, p). nat (n - i))") (auto dest: piperead_pick_chunk)

declare pipewrite_loop.simps [simp del] piperead_kloop.simps [simp del]

text \<open>The poll predicates, \<open>pipeclose\<close>, and the cache of closed pipes.\<close>

definition pipe_readable :: "pipe \<Rightarrow> bool" where
  "pipe_readable p \<longleftrightarrow> nread p \<noteq> nwrite p \<or> \<not> writeopen p"

definition pipe_writable :: "pipe \<Rightarrow> bool" where
  "pipe_writable p \<longleftrightarrow> nwrite p < nread p + of_nat PIPE_CAPACITY \<or> \<not> readopen p"

record pipe_cache =
  pc_head :: "nat list"
  pc_count :: u32

definition PIPE_CACHE_MAX :: u32 where "PIPE_CACHE_MAX = 256"

definition pipe_close_end :: "bool \<Rightarrow> pipe \<Rightarrow> pipe" where
  "pipe_close_end writable p =
     (if writable then wake_readers (p\<lparr>writeopen := False\<rparr>)
      else wake_writers (p\<lparr>readopen := False\<rparr>))"

text \<open>\<open>pipeclose\<close> of the pipe in page \<open>a\<close>: the pages given to \<open>kfree\<close> come first.\<close>

definition pipeclose :: "nat \<Rightarrow> bool \<Rightarrow> pipe \<Rightarrow> pipe_cache \<Rightarrow> nat list \<times> pipe \<times> pipe_cache" where
  "pipeclose a writable p pc =
     (let p1 = pipe_close_end writable p in
      if \<not> readopen p1 \<and> \<not> writeopen p1 then
        if pc_count pc < PIPE_CACHE_MAX
        then ([], p1, pc\<lparr>pc_head := a # pc_head pc, pc_count := pc_count pc + 1\<rparr>)
        else ([a], p1, pc)
      else ([], p1, pc))"

text \<open>
  \<open>pipealloc\<close>: \<open>files\<close> says whether both \<open>filealloc\<close> calls succeed, \<open>page\<close> what \<open>kalloc\<close> returns.
\<close>

definition pipealloc ::
  "bool \<Rightarrow> nat option \<Rightarrow> pipe_stats \<Rightarrow> pipe_cache \<Rightarrow> (nat \<times> pipe) option \<times> pipe_cache" where
  "pipealloc files page st pc =
     (if \<not> files then (None, pc)
      else case pc_head pc of
        a # as \<Rightarrow> (Some (a, pipe_init st),
                   pc\<lparr>pc_head := as, pc_count := (if pc_count pc > 0 then pc_count pc - 1 else pc_count pc)\<rparr>)
      | [] \<Rightarrow> (case page of None \<Rightarrow> (None, pc) | Some a \<Rightarrow> (Some (a, pipe_init st), pc)))"

subsection \<open>The ring as a queue of bytes\<close>

definition used :: "pipe \<Rightarrow> nat" where "used p = unat (nwrite p - nread p)"

definition pipe_inv :: "pipe \<Rightarrow> bool" where
  "pipe_inv p \<longleftrightarrow> length (data p) = PIPE_CAPACITY \<and> used p \<le> PIPE_CAPACITY"

definition content :: "pipe \<Rightarrow> bytes" where
  "content p = map (\<lambda>k. data p ! ((unat (nread p) + k) mod PIPE_CAPACITY)) [0..<used p]"

text \<open>A queue of bytes with bounded room: what a client of the ring may rely on.\<close>

locale byte_fifo =
  fixes ok :: "'s \<Rightarrow> bool"
    and bytes_of :: "'s \<Rightarrow> bytes"
    and can_put :: "nat \<Rightarrow> 's \<Rightarrow> bool"
    and put :: "bytes \<Rightarrow> 's \<Rightarrow> 's"
    and front :: "nat \<Rightarrow> 's \<Rightarrow> bytes"
    and discard :: "nat \<Rightarrow> 's \<Rightarrow> 's"
    and can_take :: "nat \<Rightarrow> 's \<Rightarrow> bool"
  assumes put_ok: "ok s \<Longrightarrow> can_put (length bs) s \<Longrightarrow> ok (put bs s)"
    and put_bytes: "ok s \<Longrightarrow> can_put (length bs) s \<Longrightarrow> bytes_of (put bs s) = bytes_of s @ bs"
    and front_bytes: "ok s \<Longrightarrow> can_take n s \<Longrightarrow> front n s = take n (bytes_of s)"
    and discard_ok: "ok s \<Longrightarrow> can_take n s \<Longrightarrow> ok (discard n s)"
    and discard_bytes: "ok s \<Longrightarrow> can_take n s \<Longrightarrow> bytes_of (discard n s) = drop n (bytes_of s)"
begin

lemma put_keeps_front:
  "ok s \<Longrightarrow> can_put (length bs) s \<Longrightarrow> can_take n s \<Longrightarrow> can_take n (put bs s) \<Longrightarrow>
   n \<le> length (bytes_of s) \<Longrightarrow> front n (put bs s) = front n s"
  by (simp add: front_bytes put_ok put_bytes)

lemma front_discard:
  "ok s \<Longrightarrow> can_take n s \<Longrightarrow> front n s @ bytes_of (discard n s) = bytes_of s"
  by (simp add: front_bytes discard_bytes)

end

definition ring_put :: "bytes \<Rightarrow> pipe \<Rightarrow> pipe" where
  "ring_put bs p = (poke bs p)\<lparr>nwrite := nwrite p + of_nat (length bs)\<rparr>"

definition ring_room :: "nat \<Rightarrow> pipe \<Rightarrow> bool" where
  "ring_room n p \<longleftrightarrow> used p + n \<le> PIPE_CAPACITY \<and> unat (nwrite p) mod PIPE_CAPACITY + n \<le> PIPE_CAPACITY"

definition ring_front :: "nat \<Rightarrow> pipe \<Rightarrow> bytes" where
  "ring_front n p = peek (int n) (nread p mod of_nat PIPE_CAPACITY) p"

definition ring_discard :: "nat \<Rightarrow> pipe \<Rightarrow> pipe" where
  "ring_discard n p = p\<lparr>nread := nread p + of_nat n\<rparr>"

definition ring_has :: "nat \<Rightarrow> pipe \<Rightarrow> bool" where
  "ring_has n p \<longleftrightarrow> n \<le> used p \<and> unat (nread p) mod PIPE_CAPACITY + n \<le> PIPE_CAPACITY"

lemma unat_mod_cap [simp]: "unat (x mod 2048 :: u32) = unat x mod 2048"
  by (simp add: unat_mod)

lemma unat_add_mod_cap: "unat (x + of_nat k :: u32) mod 2048 = (unat x + k) mod 2048"
  by (simp add: unat_word_ariths unat_of_nat mod_mod_cancel mod_add_right_eq)

lemma nwrite_used: "nwrite p = nread p + of_nat (used p)"
  by (simp add: used_def)

lemma write_off: "unat (nwrite p) mod 2048 = (unat (nread p) + used p) mod 2048"
  using unat_add_mod_cap [of "nread p" "used p"] by (simp flip: nwrite_used)

lemma used_put:
  "used p + n \<le> 2048 \<Longrightarrow> nwrite q = nwrite p + of_nat n \<Longrightarrow> nread q = nread p \<Longrightarrow> used q = used p + n"
proof -
  assume "used p + n \<le> 2048" and q: "nwrite q = nwrite p + of_nat n" "nread q = nread p"
  have "nwrite q - nread q = of_nat (used p + n)" unfolding q nwrite_used [of p] by simp
  moreover have "unat (of_nat (used p + n) :: u32) = used p + n"
    by (rule unat_of_nat_len) (use \<open>used p + n \<le> 2048\<close> in simp)
  ultimately show "used q = used p + n" by (simp only: used_def)
qed

lemma used_discard:
  "n \<le> used p \<Longrightarrow> nread q = nread p + of_nat n \<Longrightarrow> nwrite q = nwrite p \<Longrightarrow> used q = used p - n"
proof -
  assume "n \<le> used p" and q: "nread q = nread p + of_nat n" "nwrite q = nwrite p"
  then have "nwrite q - nread q = of_nat (used p - n)"
    unfolding q nwrite_used [of p] by (simp add: of_nat_diff)
  moreover have "unat (of_nat (used p - n) :: u32) = used p - n"
    by (rule unat_of_nat_len) (use unat_bound [of "nwrite p - nread p"] in \<open>simp add: used_def\<close>)
  ultimately show "used q = used p - n" by (simp only: used_def)
qed

lemma ring_slot_disjoint:
  fixes r u k j :: nat
  assumes "k < u" "u + j < 2048"
  shows "(r + k) mod 2048 \<noteq> (r + u + j) mod 2048"
proof
  assume "(r + k) mod 2048 = (r + u + j) mod 2048"
  then have "2048 dvd (r + u + j) - (r + k)" by (subst mod_eq_dvd_iff_nat [symmetric]) (use assms in auto)
  then have "2048 dvd u + j - k" by simp
  with assms show False by (auto dest: dvd_imp_le)
qed

lemma ring_put_simps [simp]:
  "nread (ring_put bs p) = nread p" "nwrite (ring_put bs p) = nwrite p + of_nat (length bs)"
  "data (ring_put bs p) = splice (unat (nwrite p) mod 2048) bs (data p)"
  "readopen (ring_put bs p) = readopen p" "writeopen (ring_put bs p) = writeopen p"
  "rwait (ring_put bs p) = rwait p" "wwait (ring_put bs p) = wwait p"
  by (simp_all add: ring_put_def poke_def PIPE_CAPACITY_def)

lemma used_ring_put: "ring_room (length bs) p \<Longrightarrow> used (ring_put bs p) = used p + length bs"
  by (rule used_put) (simp_all add: ring_room_def PIPE_CAPACITY_def)

lemma content_put:
  assumes inv: "pipe_inv p" and room: "ring_room (length bs) p"
  shows "content (ring_put bs p) = content p @ bs"
proof (rule nth_equalityI)
  let ?r = "unat (nread p)" and ?u = "used p" and ?off = "unat (nwrite p) mod 2048"
  have off: "?off = (?r + ?u) mod 2048" by (rule write_off)
  have fit: "?off + length bs \<le> 2048" "?u + length bs \<le> 2048" "length (data p) = 2048"
    using inv room by (auto simp: ring_room_def pipe_inv_def PIPE_CAPACITY_def)
  show "length (content (ring_put bs p)) = length (content p @ bs)"
    by (simp add: content_def used_ring_put [OF room])
  fix k assume "k < length (content (ring_put bs p))"
  then have k: "k < ?u + length bs" by (simp add: content_def used_ring_put [OF room])
  let ?s = "(?r + k) mod 2048"
  have lhs: "content (ring_put bs p) ! k = splice ?off bs (data p) ! ?s"
    using k by (simp add: content_def used_ring_put [OF room] PIPE_CAPACITY_def)
  show "content (ring_put bs p) ! k = (content p @ bs) ! k"
  proof (cases "k < ?u")
    case True
    have "\<not> (?off \<le> ?s \<and> ?s < ?off + length bs)"
    proof
      assume h: "?off \<le> ?s \<and> ?s < ?off + length bs"
      define j where "j = ?s - ?off"
      have "?s = (?off + j) mod 2048" using h by (simp add: j_def)
      also have "\<dots> = (?r + ?u + j) mod 2048" unfolding off by (simp add: mod_add_left_eq)
      finally have eq: "?s = (?r + ?u + j) mod 2048" .
      have "?u + j < 2048" using h fit unfolding j_def by linarith
      from ring_slot_disjoint [OF True this, of ?r] eq show False by simp
    qed
    then show ?thesis
      unfolding lhs using True fit by (auto simp: nth_splice nth_append content_def PIPE_CAPACITY_def)
  next
    case False
    have "?s = (?r + ?u + (k - ?u)) mod 2048" using False by simp
    also have "\<dots> = (?off + (k - ?u)) mod 2048" unfolding off by (rule mod_add_left_eq [symmetric])
    also have "\<dots> = ?off + (k - ?u)" using fit k False by simp
    finally have s: "?s = ?off + (k - ?u)" .
    have "k - ?u < length bs" using k False by simp
    then show ?thesis
      unfolding lhs s using False fit by (subst nth_splice) (auto simp: nth_append content_def)
  qed
qed

lemma ring_discard_simps [simp]:
  "nread (ring_discard n p) = nread p + of_nat n" "nwrite (ring_discard n p) = nwrite p"
  "data (ring_discard n p) = data p" "readopen (ring_discard n p) = readopen p"
  "writeopen (ring_discard n p) = writeopen p"
  "rwait (ring_discard n p) = rwait p" "wwait (ring_discard n p) = wwait p"
  by (simp_all add: ring_discard_def)

lemma used_ring_discard: "n \<le> used p \<Longrightarrow> used (ring_discard n p) = used p - n"
  by (rule used_discard) (simp_all add: ring_discard_def)

lemma content_discard:
  assumes "ring_has n p"
  shows "content (ring_discard n p) = drop n (content p)"
proof (rule nth_equalityI)
  have n: "n \<le> used p" using assms by (simp add: ring_has_def)
  show len: "length (content (ring_discard n p)) = length (drop n (content p))"
    by (simp add: content_def used_ring_discard [OF n])
  fix k assume "k < length (content (ring_discard n p))"
  then have k: "n + k < used p" by (simp add: content_def used_ring_discard [OF n])
  have "(unat (nread p + of_nat n) + k) mod 2048 = (unat (nread p) + (n + k)) mod 2048"
    using unat_add_mod_cap [of "nread p" n] by (metis (no_types) add.assoc mod_add_left_eq)
  then show "content (ring_discard n p) ! k = drop n (content p) ! k"
    using k n by (simp add: content_def used_ring_discard [OF n] PIPE_CAPACITY_def)
qed

lemma ring_front_content:
  assumes "pipe_inv p" "ring_has n p"
  shows "ring_front n p = take n (content p)"
  using assms
  by (intro nth_equalityI)
    (auto simp: ring_front_def peek_def ring_has_def pipe_inv_def content_def PIPE_CAPACITY_def
      mod_add_left_eq [symmetric, of "unat (nread p)"])

interpretation ring: byte_fifo pipe_inv content ring_room ring_put ring_front ring_discard ring_has
proof unfold_locales
  fix p n and bs :: bytes
  assume inv: "pipe_inv p"
  show "pipe_inv (ring_put bs p)" if "ring_room (length bs) p"
    using inv that used_ring_put [OF that]
    by (simp add: pipe_inv_def ring_room_def PIPE_CAPACITY_def)
  show "content (ring_put bs p) = content p @ bs" if "ring_room (length bs) p"
    by (rule content_put [OF inv that])
  show "ring_front n p = take n (content p)" if "ring_has n p"
    by (rule ring_front_content [OF inv that])
  show "pipe_inv (ring_discard n p)" if "ring_has n p"
    using inv that used_ring_discard [of n p]
    by (auto simp: pipe_inv_def ring_has_def)
  show "content (ring_discard n p) = drop n (content p)" if "ring_has n p"
    by (rule content_discard [OF that])
qed

subsection \<open>What one call transfers\<close>

text \<open>The \<open>k\<close>-th byte of the buffer a writer passes.\<close>

definition src_byte :: "aspace option \<Rightarrow> (u32 \<Rightarrow> u8) \<Rightarrow> u32 \<Rightarrow> int \<Rightarrow> u8" where
  "src_byte um km addr k = (case um of Some as \<Rightarrow> ubyte as (addr + word_of_int k)
                                    | None \<Rightarrow> km (addr + word_of_int k))"

definition src_bytes :: "aspace option \<Rightarrow> (u32 \<Rightarrow> u8) \<Rightarrow> u32 \<Rightarrow> int \<Rightarrow> nat \<Rightarrow> bytes" where
  "src_bytes um km addr i m = map (\<lambda>k. src_byte um km addr (i + int k)) [0..<m]"

definition wf_src :: "aspace option \<Rightarrow> bool" where
  "wf_src um \<longleftrightarrow> (case um of None \<Rightarrow> True | Some as \<Rightarrow> wf_aspace as)"

lemma fetch_src:
  assumes "wf_src um" "fetch um km addr i chunk = (bs, r)"
  shows "bs = src_bytes um km addr i (length bs) \<and> length bs \<le> nat chunk \<and>
    (r = 0 \<and> length bs = nat chunk \<or>
     r = - 1 \<and> (\<exists>as. um = Some as \<and> length bs < nat chunk \<and>
       \<not> umapped as (addr + word_of_int (i + int (length bs)))))"
proof (cases um)
  case None
  then show ?thesis using assms(2)
    by (auto simp: fetch_def src_bytes_def src_byte_def algebra_simps)
next
  case (Some as)
  then have "copied as (addr + word_of_int i) (nat chunk) (bs, r)"
    using assms copyin_copied [of as "addr + word_of_int i" "nat chunk"]
    by (simp add: fetch_def wf_src_def)
  then show ?thesis
    using Some by (auto simp: copied_def src_bytes_def src_byte_def algebra_simps)
qed

lemma src_bytes_append:
  "src_bytes um km addr i (a + b) = src_bytes um km addr i a @ src_bytes um km addr (i + int a) b"
  unfolding src_bytes_def map_upt_append by (simp add: algebra_simps)

lemma length_src_bytes [simp]: "length (src_bytes um km addr i m) = m"
  by (simp add: src_bytes_def)

lemma full_iff: "full p \<longleftrightarrow> used p = 2048"
proof -
  have "full p \<longleftrightarrow> nwrite p - nread p = 2048" by (auto simp: full_def PIPE_CAPACITY_def algebra_simps)
  also have "\<dots> \<longleftrightarrow> unat (nwrite p - nread p) = unat (2048 :: u32)"  by (rule unat_inj)
  finally show ?thesis by (simp add: used_def)
qed

lemma empty_iff: "nwrite p = nread p \<longleftrightarrow> used p = 0"
  by (simp add: used_def unat_eq_zero)

lemma sint_used: "pipe_inv p \<Longrightarrow> sint (nwrite p - nread p) = int (used p)"
  unfolding pipe_inv_def used_def PIPE_CAPACITY_def by (simp add: sint_u32 del: of_nat_unat)

lemma write_chunk_room:
  assumes "pipe_inv p" "\<not> full p" "i < n" "n - i < 2 ^ 31"
  shows "ring_room (nat (write_chunk n i p)) p" "0 < write_chunk n i p" "write_chunk n i p \<le> n - i"
proof -
  have u: "used p < 2048" using assms(1,2) by (auto simp: full_iff pipe_inv_def PIPE_CAPACITY_def)
  have c: "write_chunk n i p =
      min (min (n - i) (2048 - int (used p))) (2048 - int (unat (nwrite p mod 2048)))"
    unfolding write_chunk_def PIPE_CAPACITY_def sint_used [OF assms(1)]
    using clip_min [of "n - i" "2048 - int (used p)" "nwrite p mod 2048"] u assms off_bound
    by simp
  have o: "unat (nwrite p) mod 2048 < 2048" by simp
  show "0 < write_chunk n i p" "write_chunk n i p \<le> n - i"
    using c u o assms(3) by (simp_all add: min_def del: of_nat_unat)
  moreover have "int (used p) + write_chunk n i p \<le> 2048"
    "int (unat (nwrite p) mod 2048) + write_chunk n i p \<le> 2048"
    unfolding c by (simp_all del: of_nat_unat)
  ultimately show "ring_room (nat (write_chunk n i p)) p"
    unfolding ring_room_def PIPE_CAPACITY_def by linarith
qed

text \<open>A short copy into free slots changes nothing a reader can see.\<close>

lemma content_poke:
  assumes "pipe_inv p" "ring_room (length bs) p"
  shows "content (poke bs p) = content p" "pipe_inv (poke bs p)"
proof -
  have "content (poke bs p) = take (used p) (content (ring_put bs p))"
    using used_ring_put [OF assms(2)]
    by (simp add: content_def poke_def take_map used_def PIPE_CAPACITY_def)
  also have "\<dots> = content p"
    unfolding content_put [OF assms] by (simp add: content_def)
  finally show "content (poke bs p) = content p" .
  show "pipe_inv (poke bs p)"
    using assms by (simp add: pipe_inv_def ring_room_def poke_def used_def PIPE_CAPACITY_def)
qed

text \<open>What a run of the write loop from position \<open>i\<close> may do.\<close>

definition write_outcome ::
  "aspace option \<Rightarrow> (u32 \<Rightarrow> u8) \<Rightarrow> u32 \<Rightarrow> int \<Rightarrow> int \<Rightarrow> caller \<Rightarrow> pipe \<Rightarrow> wres \<Rightarrow> pipe \<Rightarrow> nat \<Rightarrow> bool" where
  "write_outcome um km addr n i c p r p' m \<longleftrightarrow>
     pipe_inv p' \<and> nread p' = nread p \<and> nwrite p' = nwrite p + of_nat m \<and>
     readopen p' = readopen p \<and> writeopen p' = writeopen p \<and>
     content p' = content p @ src_bytes um km addr i m \<and> i + int m \<le> n \<and>
     (case r of
        WSleep j \<Rightarrow> j = i + int m \<and> j < n \<and> full p' \<and> readopen p \<and> \<not> killed c
      | WReturn v \<Rightarrow>
          v = n \<and> i + int m = n \<or>
          v = - 1 \<and> full p' \<and> i + int m < n \<and> (\<not> readopen p \<or> killed c) \<or>
          v = (if i + int m > 0 then i + int m else - 1) \<and>
            (\<exists>as k. um = Some as \<and> i + int m \<le> k \<and> k < n \<and> \<not> umapped as (addr + word_of_int k)))"

lemma write_outcome_used:
  assumes "write_outcome um km addr n i c p r p' m"
  shows "used p' = used p + m"
proof -
  have "content p' = content p @ src_bytes um km addr i m" using assms by (simp add: write_outcome_def)
  from arg_cong [OF this, of length] show ?thesis by (simp add: content_def)
qed

lemma wake_simps [simp]:
  "content (wake_readers p) = content p" "pipe_inv (wake_readers p) = pipe_inv p"
  "nread (wake_readers p) = nread p" "nwrite (wake_readers p) = nwrite p"
  "readopen (wake_readers p) = readopen p" "writeopen (wake_readers p) = writeopen p"
  "rwait (wake_readers p) = []" "wwait (wake_readers p) = wwait p"
  "content (wake_writers p) = content p" "pipe_inv (wake_writers p) = pipe_inv p"
  "nread (wake_writers p) = nread p" "nwrite (wake_writers p) = nwrite p"
  "readopen (wake_writers p) = readopen p" "writeopen (wake_writers p) = writeopen p"
  "rwait (wake_writers p) = rwait p" "wwait (wake_writers p) = []"
  by (simp_all add: wake_readers_def wake_writers_def content_def pipe_inv_def used_def)

lemma waiters_frame [simp]:
  "content (p\<lparr>wwait := x\<rparr>) = content p" "pipe_inv (p\<lparr>wwait := x\<rparr>) = pipe_inv p"
  "content (p\<lparr>rwait := x\<rparr>) = content p" "pipe_inv (p\<lparr>rwait := x\<rparr>) = pipe_inv p"
  "content (p\<lparr>stats := y\<rparr>) = content p" "pipe_inv (p\<lparr>stats := y\<rparr>) = pipe_inv p"
  "content (p\<lparr>readopen := b\<rparr>) = content p" "pipe_inv (p\<lparr>readopen := b\<rparr>) = pipe_inv p"
  "content (p\<lparr>writeopen := b\<rparr>) = content p" "pipe_inv (p\<lparr>writeopen := b\<rparr>) = pipe_inv p"
  by (simp_all add: content_def pipe_inv_def used_def)

lemma pipewrite_loop_stop:
  "\<not> (i < n \<and> \<not> full p) \<Longrightarrow> i \<le> n \<Longrightarrow> pipe_inv p \<Longrightarrow>
   pipewrite_loop um km addr n i c p = (r, c', p') \<Longrightarrow> write_outcome um km addr n i c p r p' 0"
  by (subst (asm) pipewrite_loop.simps)
    (auto simp: write_outcome_def src_bytes_def full_def Let_def split: if_splits)

lemma pipewrite_loop_fault:
  assumes "i < n" "\<not> full p" "fetch um km addr i (write_chunk n i p) = (bs, - 1)"
  shows "pipewrite_loop um km addr n i c p = (WReturn (if i > 0 then i else - 1), c, poke bs p)"
  using assms by (subst pipewrite_loop.simps) (simp add: Let_def)

definition after_put :: "bytes \<Rightarrow> pipe \<Rightarrow> pipe" where
  "after_put bs p = (if nwrite p = nread p then wake_readers (ring_put bs p) else ring_put bs p)"

lemma pipewrite_loop_step:
  assumes "i < n" "\<not> full p" "fetch um km addr i (write_chunk n i p) = (bs, 0)"
    "length bs = nat (write_chunk n i p)"
  shows "pipewrite_loop um km addr n i c p =
    pipewrite_loop um km addr n (i + write_chunk n i p) c (after_put bs p)"
proof -
  have "(word_of_int (write_chunk n i p) :: u32) = of_nat (length bs)"
    using assms(4) write_chunk_pos [OF assms(1,2)] by simp
  then show ?thesis
    using assms
    by (subst pipewrite_loop.simps) (simp add: Let_def after_put_def ring_put_def poke_def)
qed

lemma after_put_simps [simp]:
  "content (after_put bs p) = content (ring_put bs p)" "pipe_inv (after_put bs p) = pipe_inv (ring_put bs p)"
  "nread (after_put bs p) = nread p" "nwrite (after_put bs p) = nwrite p + of_nat (length bs)"
  "readopen (after_put bs p) = readopen p" "writeopen (after_put bs p) = writeopen p"
  "wwait (after_put bs p) = wwait p"
  "rwait (after_put bs p) = (if nwrite p = nread p then [] else rwait p)"
  by (simp_all add: after_put_def)

lemma write_outcome_step:
  assumes "write_outcome um km addr n (i + int (length bs)) c (after_put bs p) r p' m"
    and "pipe_inv p" "ring_room (length bs) p" "bs = src_bytes um km addr i (length bs)"
  shows "write_outcome um km addr n i c p r p' (length bs + m)"
  using assms(1) content_put [OF assms(2,3)] assms(4) src_bytes_append [of um km addr i "length bs" m]
  by (cases r) (simp_all add: write_outcome_def add.assoc split: if_splits)

lemma pipewrite_loop_outcome:
  assumes "pipe_inv p" "wf_src um" "0 \<le> i" "i \<le> n" "n < 2 ^ 31"
    "pipewrite_loop um km addr n i c p = (r, c', p')"
  shows "\<exists>m. write_outcome um km addr n i c p r p' m"
  using assms
proof (induction "nat (n - i)" arbitrary: i p rule: less_induct)
  case less
  show ?case
  proof (cases "i < n \<and> \<not> full p")
    case False
    then show ?thesis using pipewrite_loop_stop less.prems by blast
  next
    case True
    let ?chunk = "write_chunk n i p"
    have room: "ring_room (nat ?chunk) p" "0 < ?chunk" "?chunk \<le> n - i"
      using write_chunk_room [of p i n] less.prems True by auto
    obtain bs rr where f: "fetch um km addr i ?chunk = (bs, rr)" by fastforce
    note src = fetch_src [OF less.prems(2) f]
    have rb: "ring_room (length bs) p" using room src by (auto simp: ring_room_def)
    show ?thesis
    proof (cases "rr = 0")
      case False
      with src obtain as where as: "rr = - 1" "um = Some as" "length bs < nat ?chunk"
        "\<not> umapped as (addr + word_of_int (i + int (length bs)))" by auto
      have "write_outcome um km addr n i c p r p' 0"
        using pipewrite_loop_fault [of i n p um km addr bs c] True f as room less.prems
          content_poke [OF less.prems(1) rb]
        by (auto simp: write_outcome_def src_bytes_def poke_def intro!: exI [of _ "i + int (length bs)"])
      then show ?thesis ..
    next
      case True': True
      with src have len: "length bs = nat ?chunk" by auto
      have inv: "pipe_inv (after_put bs p)" using ring.put_ok [OF less.prems(1) rb] by simp
      have "\<exists>m. write_outcome um km addr n (i + ?chunk) c (after_put bs p) r p' m"
        by (rule less.hyps)
          (use room less.prems True inv pipewrite_loop_step [of i n p um km addr bs c] f True' len in auto)
      then show ?thesis
        using write_outcome_step [OF _ less.prems(1) rb] src len room by fastforce
    qed
  qed
qed

lemma read_chunk_eq:
  assumes "pipe_inv p" "nread p \<noteq> nwrite p" "i < n" "n - i < 2 ^ 31"
  shows "read_chunk n i p = min (min (n - i) (int (used p))) (2048 - int (unat (nread p mod 2048)))"
proof -
  have "0 < used p" using empty_iff [of p] assms(2) by auto
  then show ?thesis
    unfolding read_chunk_def PIPE_CAPACITY_def sint_used [OF assms(1)]
    using clip_min [of "n - i" "int (used p)" "nread p mod 2048"] assms off_bound
    by simp
qed

lemma read_chunk_has:
  assumes "pipe_inv p" "nread p \<noteq> nwrite p" "i < n" "n - i < 2 ^ 31"
  shows "ring_has (nat (read_chunk n i p)) p" "0 < read_chunk n i p" "read_chunk n i p \<le> n - i"
proof -
  have u: "0 < used p" using empty_iff [of p] assms(2) by auto
  note c = read_chunk_eq [OF assms]
  have o: "unat (nread p) mod 2048 < 2048" by simp
  show "0 < read_chunk n i p" "read_chunk n i p \<le> n - i"
    using c u o assms(3) by (simp_all add: min_def del: of_nat_unat)
  moreover have "read_chunk n i p \<le> int (used p)"
    "int (unat (nread p) mod 2048) + read_chunk n i p \<le> 2048"
    unfolding c by (simp_all del: of_nat_unat)
  ultimately show "ring_has (nat (read_chunk n i p)) p"
    unfolding ring_has_def PIPE_CAPACITY_def by linarith
qed

lemma piperead_commit_discard:
  "0 \<le> chunk \<Longrightarrow> piperead_commit chunk w p =
     (if w then wake_writers (ring_discard (nat chunk) p) else ring_discard (nat chunk) p)"
  by (simp add: piperead_commit_def ring_discard_def Let_def)

text \<open>One round of the reader: it takes a non-empty prefix of what the ring holds.\<close>

lemma piperead_round:
  assumes inv: "pipe_inv p" and pick: "piperead_pick n i p = RCopy chunk off w" and "n - i < 2 ^ 31"
  shows "peek chunk off p = take (nat chunk) (content p)"
    and "content (piperead_commit chunk w p) = drop (nat chunk) (content p)"
    and "pipe_inv (piperead_commit chunk w p)"
    and "nwrite (piperead_commit chunk w p) = nwrite p"
    and "0 < chunk" "chunk \<le> n - i" "nat chunk \<le> length (content p)" "i < n"
    and "w = full p" "off = nread p mod 2048" "ring_has (nat chunk) p"
proof -
  have h: "i < n" "nread p \<noteq> nwrite p" "chunk = read_chunk n i p" "off = nread p mod 2048" "w = full p"
    using pick by (auto simp: piperead_pick_def PIPE_CAPACITY_def split: if_splits)
  note has = read_chunk_has [OF inv h(2,1) assms(3), folded h(3)]
  show "0 < chunk" "chunk \<le> n - i" "i < n" "w = full p" "off = nread p mod 2048" "ring_has (nat chunk) p"
    using has h by auto
  show "peek chunk off p = take (nat chunk) (content p)"
    using ring.front_bytes [OF inv has(1)] has(2) h(4) by (simp add: ring_front_def PIPE_CAPACITY_def)
  show "content (piperead_commit chunk w p) = drop (nat chunk) (content p)"
    using ring.discard_bytes [OF inv has(1)] has(2) by (simp add: piperead_commit_discard)
  show "pipe_inv (piperead_commit chunk w p)"
    using ring.discard_ok [OF inv has(1)] has(2) by (simp add: piperead_commit_discard)
  show "nwrite (piperead_commit chunk w p) = nwrite p"
    using has(2) by (simp add: piperead_commit_discard)
  show "nat chunk \<le> length (content p)" using has(1) by (simp add: ring_has_def content_def)
qed

lemma piperead_pick_done:
  "piperead_pick n i p = RDone v \<Longrightarrow> v = i \<and> (n \<le> i \<or> content p = [])"
  using empty_iff [of p] by (auto simp: piperead_pick_def content_def split: if_splits)

lemma piperead_kloop_takes:
  assumes "pipe_inv p" "0 \<le> i" "i \<le> n" "n < 2 ^ 31"
  shows "\<exists>p'. piperead_kloop n i p =
      (take (nat (n - i)) (content p), i + int (min (nat (n - i)) (length (content p))), p') \<and>
    pipe_inv p' \<and> content p' = drop (nat (n - i)) (content p) \<and> nwrite p' = nwrite p"
  using assms
proof (induction "nat (n - i)" arbitrary: i p rule: less_induct)
  case less
  show ?case
  proof (cases "piperead_pick n i p")
    case (RDone v)
    with less.prems show ?thesis
      using piperead_pick_done [OF RDone] by (auto simp: piperead_kloop.simps)
  next
    case (RCopy chunk off w)
    have small: "n - i < 2 ^ 31" using less.prems by simp
    note rnd = piperead_round [OF less.prems(1) RCopy small]
    let ?q = "piperead_commit chunk w p"
    obtain p' where p': "piperead_kloop n (i + chunk) ?q =
        (take (nat (n - (i + chunk))) (content ?q),
         i + chunk + int (min (nat (n - (i + chunk))) (length (content ?q))), p')"
      "pipe_inv p'" "content p' = drop (nat (n - (i + chunk))) (content ?q)" "nwrite p' = nwrite ?q"
      using less.hyps [of "i + chunk" ?q] rnd less.prems by auto
    have split: "nat (n - i) = nat chunk + nat (n - (i + chunk))" using rnd by simp
    show ?thesis
      using p' RCopy rnd unfolding piperead_kloop.simps [of n i p] split
      by (auto simp: take_add add.commute min_def)
  qed
qed

subsection \<open>Processes sharing a pipe\<close>

text \<open>
  A reader of a user buffer between the release and the next acquire of the pipe lock: its request,
  the chunk it picked, and the bytes it has copied out.
\<close>

record rop =
  r_n :: int
  r_i :: int
  r_chunk :: int
  r_off :: u32
  r_was_full :: bool
  r_copied :: "bytes option"

text \<open>A pipe in use, with everything accepted from writers and everything delivered to readers.\<close>

record psys =
  pip :: pipe
  busy :: "rop list"
  sent :: bytes
  received :: bytes

definition sys_init :: "pipe_stats \<Rightarrow> psys" where
  "sys_init st = \<lparr>pip = pipe_init st, busy = [], sent = [], received = []\<rparr>"

definition next_round :: "int \<Rightarrow> int \<Rightarrow> pipe \<Rightarrow> rop list" where
  "next_round n i p = (case piperead_pick n i p of
      RDone v \<Rightarrow> []
    | RCopy chunk off w \<Rightarrow> [\<lparr>r_n = n, r_i = i, r_chunk = chunk, r_off = off, r_was_full = w, r_copied = None\<rparr>])"

text \<open>
  The steps of the processes on a pipe; at most \<open>R\<close> readers of user buffers are between their two
  critical sections at any time. A write step is one stretch of the write loop, from its start or
  from its last sleep to its next sleep or its return.
\<close>

inductive pipe_step :: "nat \<Rightarrow> psys \<Rightarrow> psys \<Rightarrow> bool" for R where
  wr: "wf_src um \<Longrightarrow> 0 \<le> i \<Longrightarrow> i \<le> n \<Longrightarrow> n < 2 ^ 31 \<Longrightarrow>
    pipewrite_loop um km addr n i c (pip s) = (r, c', p') \<Longrightarrow>
    pipe_step R s (s\<lparr>pip := p',
      sent := sent s @ src_bytes um km addr i (unat (nwrite p' - nwrite (pip s)))\<rparr>)"
| wait: "piperead_wait c (pip s) = (r, p') \<Longrightarrow> pipe_step R s (s\<lparr>pip := p'\<rparr>)"
| kread: "busy s = [] \<Longrightarrow> 0 \<le> n \<Longrightarrow> n < 2 ^ 31 \<Longrightarrow> piperead_kloop n 0 (pip s) = (bs, v, p') \<Longrightarrow>
    pipe_step R s (s\<lparr>pip := p', received := received s @ bs\<rparr>)"
| start: "length (busy s) < R \<Longrightarrow> 0 \<le> n \<Longrightarrow> n < 2 ^ 31 \<Longrightarrow> piperead_wait c (pip s) = (RGo, p') \<Longrightarrow>
    pipe_step R s (s\<lparr>busy := next_round n 0 (pip s) @ busy s\<rparr>)"
| copy: "busy s = xs @ op # ys \<Longrightarrow> r_copied op = None \<Longrightarrow>
    pipe_step R s (s\<lparr>busy := xs @ op\<lparr>r_copied := Some (peek (r_chunk op) (r_off op) (pip s))\<rparr> # ys\<rparr>)"
| fault: "busy s = xs @ op # ys \<Longrightarrow> r_copied op = None \<Longrightarrow> pipe_step R s (s\<lparr>busy := xs @ ys\<rparr>)"
| commit: "busy s = xs @ op # ys \<Longrightarrow> r_copied op = Some bs \<Longrightarrow>
    p' = piperead_commit (r_chunk op) (r_was_full op) (pip s) \<Longrightarrow>
    pipe_step R s (s\<lparr>pip := p', received := received s @ bs,
      busy := xs @ next_round (r_n op) (r_i op + r_chunk op) p' @ ys\<rparr>)"
| close: "pipe_step R s (s\<lparr>pip := pipe_close_end w (pip s)\<rparr>)"
| interrupted: "set rs \<subseteq> set (rwait (pip s)) \<Longrightarrow> set ws \<subseteq> set (wwait (pip s)) \<Longrightarrow>
    pipe_step R s (s\<lparr>pip := (pip s)\<lparr>rwait := rs, wwait := ws\<rparr>\<rparr>)"

inductive_cases pipe_stepE: "pipe_step R s t"

text \<open>What a reader in flight knows of the ring.\<close>

definition rop_ok :: "pipe \<Rightarrow> rop \<Rightarrow> bool" where
  "rop_ok p op \<longleftrightarrow> r_n op < 2 ^ 31 \<and> 0 \<le> r_i op \<and> 0 < r_chunk op \<and> r_chunk op \<le> r_n op - r_i op \<and>
     ring_has (nat (r_chunk op)) p \<and> r_off op = nread p mod 2048 \<and>
     (r_copied op = None \<or> r_copied op = Some (take (nat (r_chunk op)) (content p)))"

definition sys_inv :: "psys \<Rightarrow> bool" where
  "sys_inv s \<longleftrightarrow> pipe_inv (pip s) \<and> sent s = received s @ content (pip s) \<and>
     length (busy s) \<le> 1 \<and> (\<forall>op \<in> set (busy s). rop_ok (pip s) op)"

lemma next_round_ok:
  assumes "pipe_inv p" "0 \<le> i" "n < 2 ^ 31"
  shows "length (next_round n i p) \<le> 1" "\<forall>op \<in> set (next_round n i p). rop_ok p op"
proof -
  show "length (next_round n i p) \<le> 1" by (simp add: next_round_def split: rpick.split)
  have "rop_ok p op" if "op \<in> set (next_round n i p)" for op
  proof (cases "piperead_pick n i p")
    case (RDone v)
    with that show ?thesis by (simp add: next_round_def)
  next
    case (RCopy chunk off w)
    have "n - i < 2 ^ 31" using assms by simp
    from piperead_round [OF assms(1) RCopy this] that RCopy assms show ?thesis
      by (simp add: next_round_def rop_ok_def)
  qed
  then show "\<forall>op \<in> set (next_round n i p). rop_ok p op" by blast
qed

lemma rop_ok_frame:
  assumes "rop_ok p op" "nread q = nread p" "used p \<le> used q" "content q = content p @ bs"
  shows "rop_ok q op"
  using assms by (auto simp: rop_ok_def ring_has_def content_def)

lemma sys_inv_write:
  assumes "sys_inv s" "wf_src um" "0 \<le> i" "i \<le> n" "n < 2 ^ 31"
    and "pipewrite_loop um km addr n i c (pip s) = (r, c', p')"
  shows "sys_inv (s\<lparr>pip := p', sent := sent s @ src_bytes um km addr i (unat (nwrite p' - nwrite (pip s)))\<rparr>)"
proof -
  have inv: "pipe_inv (pip s)" using assms(1) by (simp add: sys_inv_def)
  obtain m where w: "write_outcome um km addr n i c (pip s) r p' m"
    using pipewrite_loop_outcome [OF inv assms(2-6)] by blast
  then have c: "content p' = content (pip s) @ src_bytes um km addr i m" and inv': "pipe_inv p'"
    and ptr: "nread p' = nread (pip s)" "nwrite p' = nwrite (pip s) + of_nat m"
    by (auto simp: write_outcome_def)
  note len = write_outcome_used [OF w]
  have "m \<le> 2048" using len inv' by (simp add: pipe_inv_def PIPE_CAPACITY_def)
  then have m: "unat (nwrite p' - nwrite (pip s)) = m"
    using ptr unat_of_nat_len [of m, where 'a = 32] by simp
  show ?thesis
    using assms(1) inv' c m rop_ok_frame [OF _ ptr(1) _ c] len by (auto simp: sys_inv_def)
qed

lemma piperead_wait_frame:
  "piperead_wait c p = (r, p') \<Longrightarrow> content p' = content p \<and> pipe_inv p' = pipe_inv p \<and>
     nread p' = nread p \<and> nwrite p' = nwrite p \<and> (r = RGo \<longrightarrow> p' = p)"
  by (auto simp: piperead_wait_def split: if_splits)

lemma pipe_close_end_frame:
  "content (pipe_close_end w p) = content p" "pipe_inv (pipe_close_end w p) = pipe_inv p"
  "nread (pipe_close_end w p) = nread p" "nwrite (pipe_close_end w p) = nwrite p"
  by (simp_all add: pipe_close_end_def)

lemma rop_ok_same:
  "content q = content p \<Longrightarrow> nread q = nread p \<Longrightarrow> nwrite q = nwrite p \<Longrightarrow> rop_ok q = rop_ok p"
  by (rule ext) (simp add: rop_ok_def ring_has_def used_def)

lemma at_most_one: "length (xs @ x # ys) \<le> 1 \<Longrightarrow> xs = [] \<and> ys = []"
  by simp

lemma sys_inv_commit:
  assumes "sys_inv s" "busy s = xs @ op # ys" "r_copied op = Some bs"
    and p': "p' = piperead_commit (r_chunk op) (r_was_full op) (pip s)"
  shows "sys_inv (s\<lparr>pip := p', received := received s @ bs,
      busy := xs @ next_round (r_n op) (r_i op + r_chunk op) p' @ ys\<rparr>)"
proof -
  have inv: "pipe_inv (pip s)" and one: "xs = []" "ys = []" and op: "rop_ok (pip s) op"
    using assms(1,2) by (auto simp: sys_inv_def)
  have bs: "bs = take (nat (r_chunk op)) (content (pip s))" and has: "ring_has (nat (r_chunk op)) (pip s)"
    and c: "0 < r_chunk op" using op assms(3) by (auto simp: rop_ok_def)
  have "pipe_inv p'" "content p' = drop (nat (r_chunk op)) (content (pip s))"
    using ring.discard_ok [OF inv has] ring.discard_bytes [OF inv has] c
    unfolding p' by (auto simp: piperead_commit_discard)
  moreover have "0 \<le> r_i op + r_chunk op" "r_n op < 2 ^ 31" using op by (auto simp: rop_ok_def)
  ultimately show ?thesis
    using next_round_ok assms(1) one bs by (simp add: sys_inv_def)
qed

lemma sys_inv_step:
  assumes "pipe_step 1 s t" "sys_inv s"
  shows "sys_inv t"
  using assms
proof cases
  case wr
  then show ?thesis using sys_inv_write [OF assms(2)] by blast
next
  case (wait c r p')
  note fr = piperead_wait_frame [OF wait(2)]
  then have "rop_ok p' = rop_ok (pip s)" by (intro rop_ok_same) auto
  then show ?thesis using assms(2) fr wait(1) by (simp add: sys_inv_def)
next
  case (kread n bs v p')
  moreover have "pipe_inv (pip s)" using assms(2) by (simp add: sys_inv_def)
  ultimately show ?thesis
    using assms(2) piperead_kloop_takes [of "pip s" 0 n] by (auto simp: sys_inv_def)
next
  case (start n c p')
  then show ?thesis
    using assms(2) next_round_ok [of "pip s" 0 n] by (auto simp: sys_inv_def)
next
  case (copy xs op ys)
  then have "rop_ok (pip s) op" "xs = []" "ys = []" using assms(2) by (auto simp: sys_inv_def)
  moreover have "peek (r_chunk op) (r_off op) (pip s) = take (nat (r_chunk op)) (content (pip s))"
    using ring.front_bytes [of "pip s" "nat (r_chunk op)"] calculation assms(2)
    by (simp add: rop_ok_def ring_front_def sys_inv_def PIPE_CAPACITY_def)
  ultimately show ?thesis using copy assms(2) by (auto simp: sys_inv_def rop_ok_def)
next
  case fault
  then show ?thesis using assms(2) by (auto simp: sys_inv_def)
next
  case commit
  then show ?thesis using sys_inv_commit [OF assms(2)] by blast
next
  case (close w)
  have "rop_ok (pipe_close_end w (pip s)) = rop_ok (pip s)"
    by (rule rop_ok_same) (simp_all add: pipe_close_end_frame)
  then show ?thesis using assms(2) close by (simp add: sys_inv_def pipe_close_end_frame)
next
  case (interrupted rs ws)
  have "rop_ok ((pip s)\<lparr>rwait := rs, wwait := ws\<rparr>) = rop_ok (pip s)"
    by (rule rop_ok_same) simp_all
  then show ?thesis using assms(2) interrupted by (simp add: sys_inv_def)
qed

lemma sys_inv_init: "sys_inv (sys_init st)"
  by (simp add: sys_inv_def sys_init_def pipe_init_def pipe_inv_def content_def used_def)

text \<open>
  Claim C6. A pipe is a first-in first-out channel. However the processes on it interleave, with at
  most one reader between its two critical sections at a time, every byte accepted from the writers
  has been delivered in order exactly once or is still in the ring, in order, and the ring never
  holds more than its capacity, whatever the 32-bit counters do when they wrap.
\<close>

theorem pipe_fifo:
  assumes "(pipe_step 1)\<^sup>*\<^sup>* (sys_init st) s"
  shows "sent s = received s @ content (pip s) \<and> length (content (pip s)) \<le> PIPE_CAPACITY"
proof -
  have "sys_inv s" using assms
  proof (induction rule: rtranclp_induct)
    case base
    show ?case by (rule sys_inv_init)
  next
    case (step t u)
    then show ?case using sys_inv_step by blast
  qed
  then show ?thesis by (simp add: sys_inv_def pipe_inv_def content_def)
qed

text \<open>Two bytes written and one of them read by a kernel caller.\<close>

definition stats0 :: pipe_stats where
  "stats0 = \<lparr>pipe_read_sleep_calls = 0, pipe_write_sleep_calls = 0, pipe_wakeup_readers = 0,
             pipe_wakeup_writers = 0\<rparr>"

definition caller0 :: "nat \<Rightarrow> caller" where
  "caller0 k = \<lparr>c_pid = k, killed = False, sig_pending = 0, pgdir = None\<rparr>"

lemma pipe_step_kwrite:
  assumes "pipe_inv (pip s)" "0 \<le> n" "n < 2 ^ 31" "int (used (pip s)) + n \<le> 2047"
  shows "\<exists>t. pipe_step R s t \<and> sent t = sent s @ src_bytes None km addr 0 (nat n) \<and>
    received t = received s \<and> busy t = busy s \<and> used (pip t) = used (pip s) + nat n \<and>
    nread (pip t) = nread (pip s) \<and> pipe_inv (pip t) \<and>
    readopen (pip t) = readopen (pip s) \<and> writeopen (pip t) = writeopen (pip s)"
proof -
  obtain r c' p' where w: "pipewrite_loop None km addr n 0 (caller0 1) (pip s) = (r, c', p')"
    by (metis prod_cases3)
  then obtain m where o: "write_outcome None km addr n 0 (caller0 1) (pip s) r p' m"
    using pipewrite_loop_outcome [OF assms(1) _ order_refl assms(2,3) w] by (auto simp: wf_src_def)
  note len = write_outcome_used [OF o]
  have "m = nat n"
    using o len assms(4) by (cases r) (auto simp: write_outcome_def full_iff)
  moreover have "unat (nwrite p' - nwrite (pip s)) = m"
    using o \<open>m = nat n\<close> assms(4) unat_of_nat_len [of m, where 'a = 32] by (simp add: write_outcome_def)
  ultimately show ?thesis
    using pipe_step.wr [of None 0 n km addr "caller0 1" s r c' p' R] w assms o len
    by (intro exI [of _ "s\<lparr>pip := p', sent := sent s @ src_bytes None km addr 0 (nat n)\<rparr>"])
      (simp add: wf_src_def write_outcome_def)
qed

theorem pipe_fifo_witness:
  "\<exists>s. (pipe_step 1)\<^sup>*\<^sup>* (sys_init stats0) s \<and> sent s = [7, 7] \<and> received s = [] \<and>
       content (pip s) = [7, 7]"
proof -
  have "pipe_inv (pip (sys_init stats0))" "used (pip (sys_init stats0)) = 0"
    by (simp_all add: sys_init_def pipe_init_def pipe_inv_def used_def)
  then obtain t where t: "pipe_step 1 (sys_init stats0) t" "received t = []"
    "sent t = src_bytes None (\<lambda>_. 7) 0 0 (nat 2)"
    using pipe_step_kwrite [of "sys_init stats0" 2 1 "\<lambda>_. 7" 0] by (auto simp: sys_init_def)
  then have run: "(pipe_step 1)\<^sup>*\<^sup>* (sys_init stats0) t" by blast
  have "sent t = [7, 7]"
    using t(3) by (simp add: src_bytes_def src_byte_def numeral_2_eq_2)
  with pipe_fifo [OF run] t(2) run show ?thesis by auto
qed

subsection \<open>Wakeups\<close>

text \<open>A process sleeps only for a reason: readers on an empty pipe, writers on a full one.\<close>

definition wait_inv :: "pipe \<Rightarrow> bool" where
  "wait_inv p \<longleftrightarrow> (rwait p \<noteq> [] \<longrightarrow> nread p = nwrite p \<and> writeopen p) \<and>
     (wwait p \<noteq> [] \<longrightarrow> full p \<and> readopen p)"

lemma full_frame: "nwrite q = nwrite p \<Longrightarrow> nread q = nread p \<Longrightarrow> full q = full p"
  by (simp add: full_def)

lemma wait_inv_after_put:
  assumes "wait_inv p" "\<not> full p"
  shows "wait_inv (after_put bs p)"
  using assms by (auto simp: wait_inv_def)

lemma wait_inv_poke: "wait_inv (poke bs p) = wait_inv p"
  by (simp add: wait_inv_def poke_def full_def)

lemma pipewrite_loop_wait_inv:
  assumes "pipe_inv p" "wf_src um" "0 \<le> i" "i \<le> n" "n < 2 ^ 31" "wait_inv p"
    "pipewrite_loop um km addr n i c p = (r, c', p')"
  shows "wait_inv p' \<and> (\<forall>j. r = WSleep j \<longrightarrow> c_pid c \<in> set (wwait p'))"
  using assms
proof (induction "nat (n - i)" arbitrary: i p rule: less_induct)
  case less
  show ?case
  proof (cases "i < n \<and> \<not> full p")
    case False
    then show ?thesis
      using less.prems(6,7)
      by (subst (asm) pipewrite_loop.simps)
        (auto simp: wait_inv_def full_def Let_def split: if_splits)
  next
    case True
    let ?chunk = "write_chunk n i p"
    have room: "ring_room (nat ?chunk) p" "0 < ?chunk" "?chunk \<le> n - i"
      using write_chunk_room [of p i n] less.prems True by auto
    obtain bs rr where f: "fetch um km addr i ?chunk = (bs, rr)" by fastforce
    note src = fetch_src [OF less.prems(2) f]
    show ?thesis
    proof (cases "rr = 0")
      case False
      then show ?thesis
        using src pipewrite_loop_fault [of i n p um km addr bs c] True f less.prems
        by (auto simp: wait_inv_poke)
    next
      case True': True
      with src have len: "length bs = nat ?chunk" by auto
      have inv: "pipe_inv (after_put bs p)"
        using ring.put_ok [OF less.prems(1)] room(1) len by simp
      show ?thesis
        by (rule less.hyps [of "i + ?chunk" "after_put bs p"])
          (use room less.prems True inv wait_inv_after_put
            pipewrite_loop_step [of i n p um km addr bs c] f True' len in auto)
    qed
  qed
qed

lemma piperead_kloop_wait_inv:
  assumes "pipe_inv p" "0 \<le> i" "i \<le> n" "n < 2 ^ 31" "wait_inv p" "piperead_kloop n i p = (bs, v, p')"
  shows "wait_inv p'"
  using assms
proof (induction "nat (n - i)" arbitrary: i p bs v rule: less_induct)
  case less
  show ?case
  proof (cases "piperead_pick n i p")
    case (RDone v)
    with less.prems show ?thesis by (simp add: piperead_kloop.simps)
  next
    case (RCopy chunk off w)
    have small: "n - i < 2 ^ 31" using less.prems by simp
    note rnd = piperead_round [OF less.prems(1) RCopy small]
    let ?q = "piperead_commit chunk w p"
    have "nread p \<noteq> nwrite p" using RCopy by (auto simp: piperead_pick_def split: if_splits)
    then have "wait_inv ?q"
      using less.prems(5) rnd(5,9) by (auto simp: wait_inv_def piperead_commit_discard full_def)
    moreover obtain bs' v' where "piperead_kloop n (i + chunk) ?q = (bs', v', p')"
      using less.prems(6) RCopy by (subst (asm) piperead_kloop.simps) (auto split: prod.splits)
    ultimately show ?thesis
      using less.hyps [of "i + chunk" ?q] rnd less.prems by auto
  qed
qed

lemma pipe_step_0_1: "pipe_step 0 s t \<Longrightarrow> pipe_step 1 s t"
proof (induction rule: pipe_step.induct)
  case wr
  then show ?case by (rule pipe_step.wr)
next
  case wait
  then show ?case by (rule pipe_step.wait)
next
  case kread
  then show ?case by (rule pipe_step.kread)
next
  case start
  then show ?case by simp
next
  case copy
  then show ?case by (rule pipe_step.copy)
next
  case fault
  then show ?case by (rule pipe_step.fault)
next
  case commit
  then show ?case by (rule pipe_step.commit)
next
  case close
  then show ?case by (rule pipe_step.close)
next
  case interrupted
  then show ?case by (rule pipe_step.interrupted)
qed

definition kernel_inv :: "psys \<Rightarrow> bool" where
  "kernel_inv s \<longleftrightarrow> sys_inv s \<and> busy s = [] \<and> wait_inv (pip s)"

lemma wait_inv_close: "wait_inv p \<Longrightarrow> wait_inv (pipe_close_end w p)"
  by (simp add: wait_inv_def pipe_close_end_def full_def)

lemma wait_inv_read_sleep: "wait_inv p \<Longrightarrow> piperead_wait c p = (r, p') \<Longrightarrow> wait_inv p'"
  by (auto simp: wait_inv_def piperead_wait_def full_def split: if_splits)

lemma kernel_inv_step:
  assumes "pipe_step 0 s t" "kernel_inv s"
  shows "kernel_inv t"
proof -
  have k: "sys_inv s" "busy s = []" "wait_inv (pip s)" "pipe_inv (pip s)"
    using assms(2) by (auto simp: kernel_inv_def sys_inv_def)
  have "sys_inv t" by (rule sys_inv_step [OF pipe_step_0_1 [OF assms(1)] k(1)])
  moreover have "busy t = [] \<and> wait_inv (pip t)"
    using assms(1)
  proof cases
    case wr
    then show ?thesis using k pipewrite_loop_wait_inv by auto
  next
    case wait
    then show ?thesis using k wait_inv_read_sleep by auto
  next
    case (kread n bs v p')
    have "wait_inv p'"
      by (rule piperead_kloop_wait_inv [OF k(4) order_refl kread(3,4) k(3) kread(5)])
    then show ?thesis using k kread by simp
  next
    case close
    then show ?thesis using k by (simp add: wait_inv_close)
  next
    case interrupted
    then show ?thesis using k by (auto simp: wait_inv_def full_def)
  qed (use k in auto)
  ultimately show ?thesis by (simp add: kernel_inv_def)
qed

text \<open>
  Claim C16. When no reader drops the pipe lock in the middle of a round (every reader passes a kernel
  buffer), no wakeup is lost: in every reachable state a process sleeps on the read channel only
  while the pipe is empty and its write end open, and on the write channel only while the pipe is
  full and its read end open.
\<close>

theorem pipe_no_lost_wakeup:
  assumes "(pipe_step 0)\<^sup>*\<^sup>* (sys_init st) s"
  shows "(rwait (pip s) \<noteq> [] \<longrightarrow> content (pip s) = [] \<and> writeopen (pip s)) \<and>
    (wwait (pip s) \<noteq> [] \<longrightarrow> length (content (pip s)) = PIPE_CAPACITY \<and> readopen (pip s))"
proof -
  have "kernel_inv s" using assms
  proof (induction rule: rtranclp_induct)
    case base
    show ?case
      by (simp add: kernel_inv_def sys_inv_init) (simp add: sys_init_def pipe_init_def wait_inv_def)
  next
    case (step t u)
    then show ?case using kernel_inv_step by blast
  qed
  then show ?thesis
    using full_iff [of "pip s"] by (auto simp: kernel_inv_def wait_inv_def content_def PIPE_CAPACITY_def used_def)
qed

theorem pipe_no_lost_wakeup_witness:
  "\<exists>s. (pipe_step 0)\<^sup>*\<^sup>* (sys_init stats0) s \<and> rwait (pip s) = [3] \<and> content (pip s) = []"
proof -
  let ?s = "(sys_init stats0)\<lparr>pip := snd (piperead_wait (caller0 3) (pip (sys_init stats0)))\<rparr>"
  have "pipe_step 0 (sys_init stats0) ?s"
    by (rule pipe_step.wait [where c = "caller0 3" and r = "fst (piperead_wait (caller0 3) (pip (sys_init stats0)))"])
      simp
  then have run: "(pipe_step 0)\<^sup>*\<^sup>* (sys_init stats0) ?s" by blast
  have "rwait (pip ?s) = [3]"
    by (simp add: sys_init_def pipe_init_def piperead_wait_def caller0_def)
  with pipe_no_lost_wakeup [OF run] run show ?thesis by auto
qed

text \<open>
  One byte is in the pipe. A reader picks it and drops the lock; a writer fills the pipe and goes to
  sleep; the reader commits, with the stale observation that the pipe was not full.
\<close>

lemma kwrite_fills:
  assumes "pipe_inv (pip s)" "readopen (pip s)" "0 \<le> n" "n < 2 ^ 31" "2048 < int (used (pip s)) + n"
    "\<not> full (pip s)" "wait_inv (pip s)"
  shows "\<exists>t. pipe_step R s t \<and> busy t = busy s \<and> full (pip t) \<and> nread (pip t) = nread (pip s) \<and>
    pipe_inv (pip t) \<and> wwait (pip t) \<noteq> [] \<and>
    readopen (pip t) = readopen (pip s) \<and> writeopen (pip t) = writeopen (pip s)"
proof -
  obtain r c' p' where w: "pipewrite_loop None (\<lambda>_. 0) 0 n 0 (caller0 1) (pip s) = (r, c', p')"
    by (metis prod_cases3)
  then obtain m where o: "write_outcome None (\<lambda>_. 0) 0 n 0 (caller0 1) (pip s) r p' m"
    using pipewrite_loop_outcome [OF assms(1) _ order_refl assms(3,4) w] by (auto simp: wf_src_def)
  note len = write_outcome_used [OF o]
  have "m \<noteq> nat n" using len o assms(3,5) by (auto simp: write_outcome_def pipe_inv_def PIPE_CAPACITY_def)
  then obtain j where r: "r = WSleep j" and f: "full p'"
    using o assms(2) by (cases r) (auto simp: write_outcome_def caller0_def)
  have "wwait p' \<noteq> []"
    using pipewrite_loop_wait_inv [OF assms(1) _ order_refl assms(3,4,7) w] r by (auto simp: wf_src_def)
  then show ?thesis
    using pipe_step.wr [of None 0 n "\<lambda>_. 0" 0 "caller0 1" s r c' p' R] w assms o f
    by (intro exI) (auto simp: wf_src_def write_outcome_def)
qed

text \<open>A reader's whole round, and the first half of one, as steps of the system.\<close>

lemma start_round:
  assumes "busy s = []" "piperead_pick n 0 (pip s) = RCopy chunk off w" "n < 2 ^ 31"
  shows "pipe_step 1 s (s\<lparr>busy := [\<lparr>r_n = n, r_i = 0, r_chunk = chunk, r_off = off, r_was_full = w,
    r_copied = None\<rparr>]\<rparr>)"
proof -
  have "piperead_wait (caller0 2) (pip s) = (RGo, pip s)" "0 \<le> n"
    using assms(2) by (auto simp: piperead_wait_def piperead_pick_def split: if_splits)
  from pipe_step.start [OF _ this(2) assms(3) this(1), of 1] assms(1,2) show ?thesis
    by (simp add: next_round_def)
qed

lemma finish_round:
  assumes "busy s = [op]" "r_copied op = None"
    "p' = piperead_commit (r_chunk op) (r_was_full op) (pip s)"
    "piperead_pick (r_n op) (r_i op + r_chunk op) p' = RDone v"
  shows "\<exists>t. (pipe_step 1)\<^sup>*\<^sup>* s t \<and> busy t = [] \<and> pip t = p'"
proof -
  let ?op = "op\<lparr>r_copied := Some (peek (r_chunk op) (r_off op) (pip s))\<rparr>"
  let ?s = "s\<lparr>busy := [?op]\<rparr>"
  have s1: "pipe_step 1 s ?s" using pipe_step.copy [of s "[]" op "[]" 1] assms by simp
  have "pipe_step 1 ?s (?s\<lparr>pip := p', received := received s @ peek (r_chunk op) (r_off op) (pip s),
      busy := []\<rparr>)"
    using pipe_step.commit [of ?s "[]" ?op "[]" _ p' 1] assms by (simp add: next_round_def)
  with s1 show ?thesis
    by (intro exI [of _ "?s\<lparr>pip := p', received := received s @ peek (r_chunk op) (r_off op) (pip s),
      busy := []\<rparr>"]) auto
qed

lemma stale_round_keeps_sleepers:
  assumes "busy s = [\<lparr>r_n = 1, r_i = 0, r_chunk = 1, r_off = off, r_was_full = False, r_copied = None\<rparr>]"
    and "full (pip s)" "nread (pip s) = 0" "pipe_inv (pip s)"
  shows "\<exists>t. (pipe_step 1)\<^sup>*\<^sup>* s t \<and> busy t = [] \<and> pip t = ring_discard 1 (pip s)"
proof (rule finish_round [OF assms(1)])
  show "ring_discard 1 (pip s) = piperead_commit
      (r_chunk \<lparr>r_n = 1, r_i = 0, r_chunk = 1, r_off = off, r_was_full = False, r_copied = None\<rparr>)
      (r_was_full \<lparr>r_n = 1, r_i = 0, r_chunk = 1, r_off = off, r_was_full = False, r_copied = None\<rparr>) (pip s)"
    by (simp add: piperead_commit_discard)
qed (simp_all add: piperead_pick_def)

lemma drain_and_sleep:
  assumes "busy s = []" "pipe_inv (pip s)" "used (pip s) = 2047" "nread (pip s) = 1" "writeopen (pip s)"
  shows "\<exists>t. (pipe_step 1)\<^sup>*\<^sup>* s t \<and> busy t = [] \<and> content (pip t) = [] \<and> rwait (pip t) \<noteq> [] \<and>
    wwait (pip t) = wwait (pip s) \<and> readopen (pip t) = readopen (pip s) \<and> writeopen (pip t)"
proof -
  have ne: "nread (pip s) \<noteq> nwrite (pip s)" "\<not> full (pip s)"
    using assms(3) empty_iff [of "pip s"] full_iff [of "pip s"] by auto
  have "read_chunk 4096 0 (pip s) = 2047"
    using read_chunk_eq [OF assms(2) ne(1), of 0 4096] assms(3,4) by simp
  then have pick: "piperead_pick 4096 0 (pip s) = RCopy 2047 1 False"
    using ne assms(4) by (simp add: piperead_pick_def PIPE_CAPACITY_def)
  let ?op = "\<lparr>r_n = 4096, r_i = 0, r_chunk = 2047, r_off = 1, r_was_full = False, r_copied = None\<rparr>"
  let ?p = "ring_discard 2047 (pip s)"
  have p: "?p = piperead_commit (r_chunk ?op) (r_was_full ?op) (pip (s\<lparr>busy := [?op]\<rparr>))"
    by (simp add: piperead_commit_discard)
  have u: "used ?p = 0" using used_ring_discard [of 2047 "pip s"] assms(3) by simp
  then have e: "nread ?p = nwrite ?p" using empty_iff [of ?p] by simp
  have s1: "pipe_step 1 s (s\<lparr>busy := [?op]\<rparr>)" using start_round [OF assms(1) pick] by simp
  have "piperead_pick (r_n ?op) (r_i ?op + r_chunk ?op) ?p = RDone 2047"
    unfolding piperead_pick_def using e by simp
  then obtain t where t: "(pipe_step 1)\<^sup>*\<^sup>* (s\<lparr>busy := [?op]\<rparr>) t" "busy t = []" "pip t = ?p"
    using finish_round [OF _ _ p, of 2047] by auto
  obtain r q where q: "piperead_wait (caller0 2) (pip t) = (r, q)" by fastforce
  then have "rwait q \<noteq> []" "content q = []" "wwait q = wwait (pip s)" "readopen q = readopen (pip s)" "writeopen q"
    using t(3) e u assms(5) by (auto simp: piperead_wait_def caller0_def content_def used_def)
  moreover have "pipe_step 1 t (t\<lparr>pip := q\<rparr>)" by (rule pipe_step.wait [OF q])
  then have "(pipe_step 1)\<^sup>*\<^sup>* s (t\<lparr>pip := q\<rparr>)"
    using converse_rtranclp_into_rtranclp [OF s1 t(1)] by (meson rtranclp.rtrancl_into_rtrancl)
  ultimately show ?thesis using t(2) by (intro exI [of _ "t\<lparr>pip := q\<rparr>"]) simp
qed

text \<open>
  Claim C27. The wakeup rule of the reader is not safe for user buffers, where the lock is dropped
  around \<open>copyout\<close>: from a fresh pipe, with one reader and one writer, a state is reachable in which
  the pipe is empty, both ends are open, no call is in progress, and both the reader and the writer
  are asleep, each waiting for the other.
\<close>

theorem pipe_lost_wakeup:
  "\<exists>s. (pipe_step 1)\<^sup>*\<^sup>* (sys_init st) s \<and> busy s = [] \<and> content (pip s) = [] \<and>
     readopen (pip s) \<and> writeopen (pip s) \<and> rwait (pip s) \<noteq> [] \<and> wwait (pip s) \<noteq> []"
proof -
  have k0: "kernel_inv (sys_init st)"
    by (simp add: kernel_inv_def sys_inv_init) (simp add: sys_init_def pipe_init_def wait_inv_def)
  have i0: "pipe_inv (pip (sys_init st))" "used (pip (sys_init st)) = 0"
    by (simp_all add: sys_init_def pipe_init_def pipe_inv_def used_def)
  obtain s1 where s1: "pipe_step 0 (sys_init st) s1" "busy s1 = []" "used (pip s1) = 1"
    "nread (pip s1) = 0" "pipe_inv (pip s1)" "readopen (pip s1)" "writeopen (pip s1)"
    using pipe_step_kwrite [OF i0(1), of 1 0] i0(2) by (auto simp: sys_init_def pipe_init_def)
  have w1: "wait_inv (pip s1)" using kernel_inv_step [OF s1(1) k0] by (simp add: kernel_inv_def)
  have ne: "nread (pip s1) \<noteq> nwrite (pip s1)" "\<not> full (pip s1)"
    using s1(3) empty_iff [of "pip s1"] full_iff [of "pip s1"] by auto
  have "read_chunk 1 0 (pip s1) = 1" using read_chunk_eq [OF s1(5) ne(1), of 0 1] s1(3,4) by simp
  then have pick: "piperead_pick 1 0 (pip s1) = RCopy 1 0 False"
    using ne s1(4) by (simp add: piperead_pick_def PIPE_CAPACITY_def)
  define s2 where "s2 = s1\<lparr>busy := [\<lparr>r_n = 1, r_i = 0, r_chunk = 1, r_off = 0, r_was_full = False,
    r_copied = None\<rparr>]\<rparr>"
  have s2: "pipe_step 1 s1 s2" unfolding s2_def using start_round [OF s1(2) pick] by simp
  obtain s3 where s3: "pipe_step 1 s2 s3" "busy s3 = busy s2" "full (pip s3)" "nread (pip s3) = 0"
    "pipe_inv (pip s3)" "wwait (pip s3) \<noteq> []" "readopen (pip s3)" "writeopen (pip s3)"
    using kwrite_fills [of s2 2048 1] s1 w1 ne(2) by (auto simp: s2_def)
  obtain s4 where s4: "(pipe_step 1)\<^sup>*\<^sup>* s3 s4" "busy s4 = []" "pip s4 = ring_discard 1 (pip s3)"
    using stale_round_keeps_sleepers [of s3 0] s3 by (auto simp: s2_def)
  have u3: "used (pip s3) = 2048" using s3(3) by (simp add: full_iff)
  then have has: "ring_has 1 (pip s3)" using s3(4) by (simp add: ring_has_def PIPE_CAPACITY_def)
  obtain s5 where "(pipe_step 1)\<^sup>*\<^sup>* s4 s5" "busy s5 = []" "content (pip s5) = []" "rwait (pip s5) \<noteq> []"
    "wwait (pip s5) \<noteq> []" "readopen (pip s5)" "writeopen (pip s5)"
    using drain_and_sleep [of s4] s4 s3 u3 used_ring_discard [of 1 "pip s3"]
      ring.discard_ok [OF s3(5) has] by auto
  moreover have "(pipe_step 1)\<^sup>*\<^sup>* (sys_init st) s4"
    using pipe_step_0_1 [OF s1(1)] s2 s3(1) s4(1)
    by (meson converse_rtranclp_into_rtranclp)
  ultimately show ?thesis by (meson rtranclp_trans)
qed

subsection \<open>Polling\<close>

text \<open>
  Claim C38. \<open>pipe_readable\<close> is exact: it holds when a read would not sleep. \<open>pipe_writable\<close> compares
  the counters without regard to wrap-around: it is exact while \<open>nread + 2048\<close> does not wrap, but
  in the 2048 positions below the wrap it refuses an open pipe in which there is room, down to the
  empty pipe, until the write counter itself has wrapped.
\<close>

theorem pipe_poll:
  assumes "pipe_inv p"
  shows "(pipe_readable p \<longleftrightarrow> content p \<noteq> [] \<or> \<not> writeopen p) \<and>
    (unat (nread p) + 2048 < 2 ^ 32 \<longrightarrow>
       (pipe_writable p \<longleftrightarrow> length (content p) < PIPE_CAPACITY \<or> \<not> readopen p)) \<and>
    (2 ^ 32 \<le> unat (nread p) + 2048 \<and> nread p \<le> nwrite p \<and> readopen p \<longrightarrow> \<not> pipe_writable p)"
proof (intro conjI impI)
  show "pipe_readable p \<longleftrightarrow> content p \<noteq> [] \<or> \<not> writeopen p"
    using empty_iff [of p] by (auto simp: pipe_readable_def content_def)
  have u: "used p \<le> 2048" using assms by (simp add: pipe_inv_def PIPE_CAPACITY_def)
  show "pipe_writable p \<longleftrightarrow> length (content p) < PIPE_CAPACITY \<or> \<not> readopen p"
    if small: "unat (nread p) + 2048 < 2 ^ 32"
  proof -
    have "unat (nread p + 2048) = unat (nread p) + 2048"
      using small by (subst unat_add_no_wrap) auto
    moreover have "unat (nread p + of_nat (used p)) = unat (nread p) + used p"
      using small u unat_of_nat_len [of "used p", where 'a = 32]
      by (subst unat_add_no_wrap) simp_all
    then have "unat (nwrite p) = unat (nread p) + used p" by (simp only: nwrite_used [of p, symmetric])
    ultimately show ?thesis
      by (simp add: pipe_writable_def content_def PIPE_CAPACITY_def word_less_nat_alt)
  qed
  show "\<not> pipe_writable p"
    if h: "2 ^ 32 \<le> unat (nread p) + 2048 \<and> nread p \<le> nwrite p \<and> readopen p"
  proof -
    have "unat (nread p + 2048) = unat (nread p) + 2048 - 2 ^ 32"
      using h unat_bound [of "nread p"] by (simp add: unat_word_ariths mod_if)
    moreover have "unat (nread p) \<le> unat (nwrite p)" using h by (simp add: word_le_nat_alt)
    ultimately show ?thesis
      using h unat_bound [of "nread p"]
      by (simp add: pipe_writable_def PIPE_CAPACITY_def word_less_nat_alt)
  qed
qed

theorem pipe_poll_witness:
  "content ((pipe_init stats0)\<lparr>nread := 4294967295, nwrite := 4294967295\<rparr>) = [] \<and>
   \<not> pipe_writable ((pipe_init stats0)\<lparr>nread := 4294967295, nwrite := 4294967295\<rparr>)"
proof -
  let ?p = "(pipe_init stats0)\<lparr>nread := 4294967295, nwrite := 4294967295\<rparr>"
  have "pipe_inv ?p" by (simp add: pipe_inv_def used_def pipe_init_def)
  then show ?thesis
    using pipe_poll [of ?p] by (simp add: content_def used_def) (simp add: pipe_init_def)
qed

end
