(* ===== verification/Bio.thy ===== *)
theory Bio
  imports Prelude
begin

text \<open>
  Block buffers: the sleep locks of \<open>kernel/core/sleeplock.c\<close>, the block-device table of
  \<open>kernel/core/blockdev.c\<close>, the in-memory disk driver \<open>kernel/driver/memide.c\<close> and the buffer cache
  of \<open>kernel/fs/bio.c\<close>. A buffer is an index into \<open>bcache.buf\<close>; the LRU list and the hash chains,
  which the code threads through the buffers, are the lists of the indices in them. The disk keeps
  the sequence of block writes made to it, so that the state of the disk after a crash at any point
  is the state after a prefix of that sequence.
\<close>

subsection \<open>Sleep locks\<close>

record sleeplock =
  locked :: bool
  lkpid :: nat

definition initsleeplock :: sleeplock where
  "initsleeplock = \<lparr>locked = False, lkpid = 0\<rparr>"

definition acquiresleep :: "nat \<Rightarrow> sleeplock \<Rightarrow> sleeplock kres" where
  "acquiresleep me lk = (if locked lk then Blocked else Ok (lk\<lparr>locked := True, lkpid := me\<rparr>))"

definition releasesleep :: "sleeplock \<Rightarrow> sleeplock" where
  "releasesleep lk = lk\<lparr>locked := False, lkpid := 0\<rparr>"

definition holdingsleep :: "nat \<Rightarrow> sleeplock \<Rightarrow> bool" where
  "holdingsleep me lk \<longleftrightarrow> locked lk \<and> lkpid lk = me"

subsection \<open>Buffers and the disk\<close>

definition BSIZE :: nat where "BSIZE = 512"
definition NBUF :: nat where "NBUF = 128"
definition NDEV :: nat where "NDEV = 64"
definition BCACHE_HASH_SIZE :: nat where "BCACHE_HASH_SIZE = 64"

definition B_VALID :: u32 where "B_VALID = 2"
definition B_DIRTY :: u32 where "B_DIRTY = 4"
definition B_ERROR :: u32 where "B_ERROR = 8"
definition B_INHASH :: u32 where "B_INHASH = 16"

record buf =
  flags :: u32
  dev :: u32
  blockno :: u32
  lock :: sleeplock
  refcnt :: u32
  data :: bytes

definition has :: "u32 \<Rightarrow> buf \<Rightarrow> bool" where
  "has f b \<longleftrightarrow> flags b AND f \<noteq> 0"

type_synonym block = bytes

record disk =
  blocks :: "u32 \<Rightarrow> block"
  writes :: "(u32 \<times> block) list"
  disksize :: u32

definition disk_write :: "u32 \<Rightarrow> block \<Rightarrow> disk \<Rightarrow> disk" where
  "disk_write n bl d = d\<lparr>blocks := (blocks d)(n := bl), writes := writes d @ [(n, bl)]\<rparr>"

text \<open>The memory disk's transfer routine; the caller is process \<open>me\<close>.\<close>

definition memide_backend_rw :: "nat \<Rightarrow> buf \<Rightarrow> disk \<Rightarrow> (buf \<times> disk) kres" where
  "memide_backend_rw me b d =
     (if \<not> holdingsleep me (lock b) then Panic ''iderw: buf not locked''
      else if flags b AND (B_VALID OR B_DIRTY) = B_VALID then Panic ''iderw: nothing to do''
      else if dev b \<noteq> 1 then Panic ''iderw: request not for disk 1''
      else if blockno b \<ge> disksize d then Panic ''iderw: block out of range''
      else if has B_DIRTY b
        then Ok (b\<lparr>flags := (flags b AND NOT B_DIRTY) OR B_VALID\<rparr>, disk_write (blockno b) (data b) d)
      else Ok (b\<lparr>data := blocks d (blockno b), flags := flags b OR B_VALID\<rparr>, d))"

subsection \<open>The block-device table\<close>

record bdevent =
  ops :: bool
  parent :: u32
  start :: u32
  nblocks :: u32
  is_part :: bool

definition bdev_none :: bdevent where
  "bdev_none = \<lparr>ops = False, parent = 0, start = 0, nblocks = 0, is_part = False\<rparr>"

definition bdevinit :: "bdevent list" where
  "bdevinit = replicate NDEV bdev_none"

definition bdev_register :: "u32 \<Rightarrow> bool \<Rightarrow> bdevent list \<Rightarrow> int \<times> bdevent list" where
  "bdev_register d has_rw t =
     (if unat d \<ge> NDEV \<or> \<not> has_rw then (- 1, t)
      else (0, t[unat d := \<lparr>ops = True, parent = d, start = 0, nblocks = 0, is_part = False\<rparr>]))"

definition bdev_unregister :: "u32 \<Rightarrow> bdevent list \<Rightarrow> int \<times> bdevent list" where
  "bdev_unregister d t =
     (if unat d \<ge> NDEV then (- 1, t)
      else if \<not> ops (t ! unat d) then (- 1, t)
      else if \<exists>i < NDEV. i \<noteq> unat d \<and> ops (t ! i) \<and> is_part (t ! i) \<and> parent (t ! i) = d then (- 1, t)
      else (0, t[unat d := bdev_none]))"

definition bdev_register_part :: "u32 \<Rightarrow> u32 \<Rightarrow> u32 \<Rightarrow> u32 \<Rightarrow> bdevent list \<Rightarrow> int \<times> bdevent list" where
  "bdev_register_part d par st n t =
     (if unat d \<ge> NDEV \<or> unat par \<ge> NDEV \<or> n = 0 then (- 1, t)
      else if \<not> ops (t ! unat par) then (- 1, t)
      else (0, t[unat d := \<lparr>ops = True, parent = par, start = st, nblocks = n, is_part = True\<rparr>]))"

definition bdev_set_nblocks :: "u32 \<Rightarrow> u32 \<Rightarrow> bdevent list \<Rightarrow> int \<times> bdevent list" where
  "bdev_set_nblocks d n t =
     (if unat d \<ge> NDEV \<or> n = 0 then (- 1, t)
      else if \<not> ops (t ! unat d) \<or> is_part (t ! unat d) then (- 1, t)
      else (0, t[unat d := (t ! unat d)\<lparr>nblocks := n\<rparr>]))"

text \<open>What the driver of device \<open>d\<close> reports, if it has the call, is the argument \<open>drv\<close>.\<close>

definition bdev_nblocks :: "(u32 \<Rightarrow> u32) option \<Rightarrow> u32 \<Rightarrow> bdevent list \<Rightarrow> u32" where
  "bdev_nblocks drv d t =
     (if unat d \<ge> NDEV then 0
      else if \<not> ops (t ! unat d) then 0
      else if is_part (t ! unat d) then nblocks (t ! unat d)
      else if nblocks (t ! unat d) \<noteq> 0 then nblocks (t ! unat d)
      else case drv of None \<Rightarrow> 0 | Some f \<Rightarrow> f d)"

text \<open>
  \<open>bdevrw\<close>: the result code, the buffer and the disk. For a partition the buffer carries the
  parent's device and block number during the transfer and its own again afterwards.
\<close>

definition bdevrw :: "nat \<Rightarrow> bdevent list \<Rightarrow> buf \<Rightarrow> disk \<Rightarrow> (int \<times> buf \<times> disk) kres" where
  "bdevrw me t b d =
     (if unat (dev b) \<ge> NDEV then Ok (- 1, b, d)
      else let e = t ! unat (dev b) in
        if \<not> ops e then Ok (- 1, b, d)
        else if \<not> is_part e
          then kbind (memide_backend_rw me b d) (\<lambda>(b', d'). Ok (0, b', d'))
        else if blockno b \<ge> nblocks e then Ok (- 1, b, d)
        else kbind (memide_backend_rw me (b\<lparr>dev := parent e, blockno := blockno b + start e\<rparr>) d)
               (\<lambda>(b', d'). Ok (0, b'\<lparr>dev := dev b, blockno := blockno b\<rparr>, d')))"

subsection \<open>The cache\<close>

record bcache =
  bufs :: "buf list"
  lru :: "nat list"
  hash :: "nat list list"

record bio =
  bc :: bcache
  disk :: disk
  bdevs :: "bdevent list"

definition BHASH :: "u32 \<Rightarrow> u32 \<Rightarrow> nat" where
  "BHASH d n = unat ((d * 31 + n) AND (of_nat BCACHE_HASH_SIZE - 1))"

definition buf0 :: buf where
  "buf0 = \<lparr>flags = 0, dev = 0, blockno = 0, lock = initsleeplock, refcnt = 0, data = replicate BSIZE 0\<rparr>"

definition binit :: bcache where
  "binit = \<lparr>bufs = replicate NBUF buf0, lru = rev [0..<NBUF],
            hash = replicate BCACHE_HASH_SIZE []\<rparr>"

definition upd :: "nat \<Rightarrow> (buf \<Rightarrow> buf) \<Rightarrow> bcache \<Rightarrow> bcache" where
  "upd i f c = c\<lparr>bufs := (bufs c)[i := f (bufs c ! i)]\<rparr>"

text \<open>The lookup of \<open>bget\<close> along a hash chain, and its search for a victim from the LRU end.\<close>

definition bcache_lookup :: "u32 \<Rightarrow> u32 \<Rightarrow> bcache \<Rightarrow> nat option" where
  "bcache_lookup d n c =
     List.find (\<lambda>i. dev (bufs c ! i) = d \<and> blockno (bufs c ! i) = n) (hash c ! BHASH d n)"

definition bcache_victim :: "bcache \<Rightarrow> nat option" where
  "bcache_victim c =
     List.find (\<lambda>i. refcnt (bufs c ! i) = 0 \<and> \<not> has B_DIRTY (bufs c ! i)) (rev (lru c))"

definition bcache_recycle :: "u32 \<Rightarrow> u32 \<Rightarrow> nat \<Rightarrow> bcache \<Rightarrow> bcache" where
  "bcache_recycle d n i c =
     (let b = bufs c ! i; h = BHASH d n;
          c1 = (if has B_INHASH b
                then c\<lparr>hash := (hash c)[BHASH (dev b) (blockno b) :=
                         remove1 i (hash c ! BHASH (dev b) (blockno b))]\<rparr>
                else c);
          c2 = upd i (\<lambda>b. b\<lparr>dev := d, blockno := n, flags := B_INHASH, refcnt := 1\<rparr>) c1
      in c2\<lparr>hash := (hash c2)[h := i # hash c2 ! h]\<rparr>)"

text \<open>The critical section of \<open>bget\<close> under \<open>bcache.lock\<close>, and \<open>bget\<close> with the sleep lock.\<close>

definition bget_locked :: "u32 \<Rightarrow> u32 \<Rightarrow> bcache \<Rightarrow> (nat \<times> bcache) kres" where
  "bget_locked d n c =
     (case bcache_lookup d n c of
        Some i \<Rightarrow> Ok (i, upd i (\<lambda>b. b\<lparr>refcnt := refcnt b + 1\<rparr>) c)
      | None \<Rightarrow>
          (case bcache_victim c of
             Some i \<Rightarrow> Ok (i, bcache_recycle d n i c)
           | None \<Rightarrow> Panic ''bget: no buffers''))"

definition bget :: "nat \<Rightarrow> u32 \<Rightarrow> u32 \<Rightarrow> bcache \<Rightarrow> (nat \<times> bcache) kres" where
  "bget me d n c =
     kbind (bget_locked d n c) (\<lambda>(i, c1).
     kbind (acquiresleep me (lock (bufs c1 ! i))) (\<lambda>lk.
     Ok (i, upd i (\<lambda>b. b\<lparr>lock := lk\<rparr>) c1)))"

definition setbuf :: "nat \<Rightarrow> buf \<Rightarrow> bio \<Rightarrow> bio" where
  "setbuf i b s = s\<lparr>bc := upd i (\<lambda>_. b) (bc s)\<rparr>"

definition getbuf :: "nat \<Rightarrow> bio \<Rightarrow> buf" where
  "getbuf i s = bufs (bc s) ! i"

definition bread :: "nat \<Rightarrow> u32 \<Rightarrow> u32 \<Rightarrow> bio \<Rightarrow> (nat \<times> bio) kres" where
  "bread me d n s =
     kbind (bget me d n (bc s)) (\<lambda>(i, c).
     let s1 = s\<lparr>bc := c\<rparr>; b = getbuf i s1 in
     if \<not> has B_VALID b then
       kbind (bdevrw me (bdevs s1) b (disk s1)) (\<lambda>(r, b', d').
       if r < 0
       then Ok (i, (setbuf i (b'\<lparr>flags := flags b' OR (B_ERROR OR B_VALID), data := replicate BSIZE 0\<rparr>) s1)\<lparr>disk := d'\<rparr>)
       else Ok (i, (setbuf i (b'\<lparr>flags := flags b' AND NOT B_ERROR\<rparr>) s1)\<lparr>disk := d'\<rparr>))
     else Ok (i, s1))"

definition berror :: "nat \<Rightarrow> bio \<Rightarrow> bool" where
  "berror i s = has B_ERROR (getbuf i s)"

definition bwrite :: "nat \<Rightarrow> nat \<Rightarrow> bio \<Rightarrow> bio kres" where
  "bwrite me i s =
     (let b = getbuf i s in
      if \<not> holdingsleep me (lock b) then Panic ''bwrite''
      else kbind (bdevrw me (bdevs s) (b\<lparr>flags := flags b OR B_DIRTY\<rparr>) (disk s)) (\<lambda>(r, b', d').
        if r < 0 then Ok ((setbuf i (b'\<lparr>flags := flags b' OR B_ERROR\<rparr>) s)\<lparr>disk := d'\<rparr>)
        else Ok ((setbuf i (b'\<lparr>flags := flags b' AND NOT B_ERROR\<rparr>) s)\<lparr>disk := d'\<rparr>)))"

definition brelse :: "nat \<Rightarrow> nat \<Rightarrow> bio \<Rightarrow> bio kres" where
  "brelse me i s =
     (let b = getbuf i s in
      if \<not> holdingsleep me (lock b) then Panic ''brelse''
      else let c = upd i (\<lambda>b. b\<lparr>lock := releasesleep (lock b), refcnt := refcnt b - 1\<rparr>) (bc s)
           in Ok (s\<lparr>bc := (if refcnt (bufs c ! i) = 0 then c\<lparr>lru := i # remove1 i (lru c)\<rparr> else c)\<rparr>))"

definition bread_ok :: "nat \<Rightarrow> u32 \<Rightarrow> u32 \<Rightarrow> bio \<Rightarrow> (nat option \<times> bio) kres" where
  "bread_ok me d n s =
     kbind (bread me d n s) (\<lambda>(i, s1).
     if berror i s1 then kbind (brelse me i s1) (\<lambda>s2. Ok (None, s2)) else Ok (Some i, s1))"

definition bwrite_ok :: "nat \<Rightarrow> nat \<Rightarrow> bio \<Rightarrow> (int \<times> bio) kres" where
  "bwrite_ok me i s =
     kbind (bwrite me i s) (\<lambda>s1. Ok (if berror i s1 then - 1 else 0, s1))"

subsection \<open>Structure of the cache\<close>

lemma flag_bits [simp]:
  "has B_VALID b \<longleftrightarrow> bit (flags b) 1" "has B_DIRTY b \<longleftrightarrow> bit (flags b) 2"
  "has B_ERROR b \<longleftrightarrow> bit (flags b) 3" "has B_INHASH b \<longleftrightarrow> bit (flags b) 4"
  using and_exp_eq_0_iff_not_bit [of "flags b" 1] and_exp_eq_0_iff_not_bit [of "flags b" 2]
    and_exp_eq_0_iff_not_bit [of "flags b" 3] and_exp_eq_0_iff_not_bit [of "flags b" 4]
  by (simp_all add: has_def B_VALID_def B_DIRTY_def B_ERROR_def B_INHASH_def)

lemma flag_const_bits [simp]:
  "bit B_INHASH (Suc 0) = False" "bit B_INHASH 2 = False" "bit B_INHASH 3 = False" "bit B_INHASH 4"
  "bit B_VALID (Suc 0)" "bit B_VALID 2 = False" "bit B_VALID 3 = False" "bit B_VALID 4 = False"
  "bit B_DIRTY (Suc 0) = False" "bit B_DIRTY 2" "bit B_DIRTY 3 = False" "bit B_DIRTY 4 = False"
  "bit B_ERROR (Suc 0) = False" "bit B_ERROR 2 = False" "bit B_ERROR 3" "bit B_ERROR 4 = False"
  by (simp_all add: B_VALID_def B_DIRTY_def B_ERROR_def B_INHASH_def bit_simps)

lemma BHASH_bound [simp]: "BHASH d n < 64"
proof -
  have "(d * 31 + n) AND 63 = take_bit 6 (d * 31 + n)"
    by (simp add: take_bit_eq_mask mask_eq_exp_minus_1)
  then show ?thesis by (simp add: BHASH_def BCACHE_HASH_SIZE_def unat_take_bit)
qed

definition same_id :: "buf \<Rightarrow> buf \<Rightarrow> bool" where
  "same_id b b' \<longleftrightarrow> dev b = dev b' \<and> blockno b = blockno b'"

definition bcache_inv :: "bcache \<Rightarrow> bool" where
  "bcache_inv c \<longleftrightarrow>
     length (bufs c) = NBUF \<and> distinct (lru c) \<and> set (lru c) = {..<NBUF} \<and>
     length (hash c) = 64 \<and>
     (\<forall>h < 64. distinct (hash c ! h) \<and> (\<forall>i \<in> set (hash c ! h). i < NBUF \<and> has B_INHASH (bufs c ! i) \<and>
        BHASH (dev (bufs c ! i)) (blockno (bufs c ! i)) = h)) \<and>
     (\<forall>i < NBUF. has B_INHASH (bufs c ! i) \<longrightarrow>
        i \<in> set (hash c ! BHASH (dev (bufs c ! i)) (blockno (bufs c ! i)))) \<and>
     (\<forall>i < NBUF. \<forall>j < NBUF. has B_INHASH (bufs c ! i) \<longrightarrow> has B_INHASH (bufs c ! j) \<longrightarrow>
        same_id (bufs c ! i) (bufs c ! j) \<longrightarrow> i = j)"

lemma bufs_upd: "j < NBUF \<Longrightarrow> length (bufs c) = NBUF \<Longrightarrow>
   bufs (upd i f c) ! j = (if i = j then f (bufs c ! j) else bufs c ! j)"
  by (auto simp: upd_def nth_list_update)

lemma upd_simps [simp]:
  "lru (upd i f c) = lru c" "hash (upd i f c) = hash c" "length (bufs (upd i f c)) = length (bufs c)"
  by (simp_all add: upd_def)

text \<open>A change that keeps a buffer's identity keeps the structure.\<close>

lemma bcache_inv_upd:
  assumes "bcache_inv c" "i < NBUF"
    and "same_id (f (bufs c ! i)) (bufs c ! i)" "has B_INHASH (f (bufs c ! i)) = has B_INHASH (bufs c ! i)"
  shows "bcache_inv (upd i f c)"
proof -
  have id: "\<And>j. j < NBUF \<Longrightarrow> dev (bufs (upd i f c) ! j) = dev (bufs c ! j) \<and>
      blockno (bufs (upd i f c) ! j) = blockno (bufs c ! j) \<and>
      has B_INHASH (bufs (upd i f c) ! j) = has B_INHASH (bufs c ! j)"
    using assms by (auto simp: bufs_upd bcache_inv_def same_id_def)
  show ?thesis
    using assms(1) unfolding bcache_inv_def same_id_def
    by (auto simp: id simp del: flag_bits)
qed

lemma bcache_inv_lru:
  "bcache_inv c \<Longrightarrow> i < NBUF \<Longrightarrow> bcache_inv (c\<lparr>lru := i # remove1 i (lru c)\<rparr>)"
  by (auto simp: bcache_inv_def simp del: flag_bits)

lemma bcache_invD:
  assumes "bcache_inv c"
  shows inv_len: "length (bufs c) = NBUF" "length (hash c) = 64"
    and inv_lru: "distinct (lru c)" "set (lru c) = {..<NBUF}"
    and inv_chain: "h < 64 \<Longrightarrow> i \<in> set (hash c ! h) \<Longrightarrow> i < NBUF \<and> has B_INHASH (bufs c ! i) \<and>
          BHASH (dev (bufs c ! i)) (blockno (bufs c ! i)) = h"
    and inv_chain_distinct: "h < 64 \<Longrightarrow> distinct (hash c ! h)"
    and inv_inhash: "i < NBUF \<Longrightarrow> has B_INHASH (bufs c ! i) \<Longrightarrow>
          i \<in> set (hash c ! BHASH (dev (bufs c ! i)) (blockno (bufs c ! i)))"
    and inv_unique: "i < NBUF \<Longrightarrow> j < NBUF \<Longrightarrow> has B_INHASH (bufs c ! i) \<Longrightarrow> has B_INHASH (bufs c ! j) \<Longrightarrow>
          same_id (bufs c ! i) (bufs c ! j) \<Longrightarrow> i = j"
  using assms unfolding bcache_inv_def by blast+

lemma bcache_lookup_iff:
  assumes "bcache_inv c"
  shows "bcache_lookup d n c = Some i \<longleftrightarrow>
    i < NBUF \<and> has B_INHASH (bufs c ! i) \<and> dev (bufs c ! i) = d \<and> blockno (bufs c ! i) = n"
proof
  assume "bcache_lookup d n c = Some i"
  then have "i \<in> set (hash c ! BHASH d n)" "dev (bufs c ! i) = d" "blockno (bufs c ! i) = n"
    by (auto simp: bcache_lookup_def find_Some_iff in_set_conv_nth)
  then show "i < NBUF \<and> has B_INHASH (bufs c ! i) \<and> dev (bufs c ! i) = d \<and> blockno (bufs c ! i) = n"
    using inv_chain [OF assms BHASH_bound] by blast
next
  assume h: "i < NBUF \<and> has B_INHASH (bufs c ! i) \<and> dev (bufs c ! i) = d \<and> blockno (bufs c ! i) = n"
  then have "i \<in> set (hash c ! BHASH d n)" using inv_inhash [OF assms] by blast
  with h have "bcache_lookup d n c \<noteq> None"
    by (auto simp: bcache_lookup_def find_None_iff)
  then obtain j where j: "bcache_lookup d n c = Some j" by blast
  then have "j \<in> set (hash c ! BHASH d n)" "dev (bufs c ! j) = d" "blockno (bufs c ! j) = n"
    by (auto simp: bcache_lookup_def find_Some_iff in_set_conv_nth)
  then have "i = j"
    using inv_unique [OF assms, of i j] inv_chain [OF assms BHASH_bound, of j d n] h
    by (auto simp: same_id_def)
  with j show "bcache_lookup d n c = Some i" by simp
qed

lemma bcache_lookup_None:
  assumes "bcache_inv c" "bcache_lookup d n c = None" "i < NBUF" "has B_INHASH (bufs c ! i)"
  shows "\<not> (dev (bufs c ! i) = d \<and> blockno (bufs c ! i) = n)"
  using bcache_lookup_iff [OF assms(1), of d n i] assms by auto

text \<open>Recycling a buffer for a block that is not cached keeps the structure.\<close>

lemma recycle_bufs:
  assumes "j < NBUF" "length (bufs c) = NBUF"
  shows "bufs (bcache_recycle d n i c) ! j =
    (if j = i then (bufs c ! i)\<lparr>dev := d, blockno := n, flags := B_INHASH, refcnt := 1\<rparr> else bufs c ! j)"
  using assms by (auto simp: bcache_recycle_def Let_def upd_def nth_list_update)

lemma recycle_chain:
  assumes inv: "bcache_inv c" and h: "h < 64" and i: "i < NBUF"
  shows "set (hash (bcache_recycle d n i c) ! h) =
      (set (hash c ! h) - {i}) \<union> (if h = BHASH d n then {i} else {})"
    and "distinct (hash (bcache_recycle d n i c) ! h)"
proof -
  let ?b = "bufs c ! i"
  define H where "H = (if has B_INHASH ?b then (hash c)[BHASH (dev ?b) (blockno ?b) :=
      remove1 i (hash c ! BHASH (dev ?b) (blockno ?b))] else hash c)"
  have lenH: "length H = 64" using inv by (simp add: H_def inv_len)
  have notin: "i \<notin> set (hash c ! k)" if "k < 64" "\<not> has B_INHASH ?b \<or> k \<noteq> BHASH (dev ?b) (blockno ?b)" for k
    using inv_chain [OF inv that(1), of i] that(2) by blast
  have H: "set (H ! k) = set (hash c ! k) - {i} \<and> distinct (H ! k)" if "k < 64" for k
    using notin [OF that] inv_chain_distinct [OF inv that] inv_len(2) [OF inv] that
    by (auto simp: H_def nth_list_update simp del: flag_bits)
  have "hash (bcache_recycle d n i c) = H[BHASH d n := i # H ! BHASH d n]"
    by (simp add: bcache_recycle_def Let_def H_def)
  then have eq: "hash (bcache_recycle d n i c) ! h = (if h = BHASH d n then i # H ! h else H ! h)"
    using h lenH by (simp add: nth_list_update)
  show "set (hash (bcache_recycle d n i c) ! h) =
      (set (hash c ! h) - {i}) \<union> (if h = BHASH d n then {i} else {})"
    "distinct (hash (bcache_recycle d n i c) ! h)"
    using H [OF h] unfolding eq by auto
qed

lemma bcache_inv_recycle:
  assumes inv: "bcache_inv c" and none: "bcache_lookup d n c = None" and i: "i < NBUF"
  shows "bcache_inv (bcache_recycle d n i c)"
proof -
  let ?c = "bcache_recycle d n i c"
  note rb = recycle_bufs [OF _ inv_len(1) [OF inv], where d = d and n = n and i = i]
  have len: "length (bufs ?c) = NBUF" "length (hash ?c) = 64" "lru ?c = lru c"
    using inv_len [OF inv] by (auto simp: bcache_recycle_def Let_def)
  have chain: "j < NBUF \<and> has B_INHASH (bufs ?c ! j) \<and> BHASH (dev (bufs ?c ! j)) (blockno (bufs ?c ! j)) = h"
    if "h < 64" "j \<in> set (hash ?c ! h)" for h j
    using that recycle_chain(1) [OF inv that(1) i, of d n] inv_chain [OF inv that(1), of j] i
    by (auto simp: rb split: if_splits)
  moreover have "j \<in> set (hash ?c ! BHASH (dev (bufs ?c ! j)) (blockno (bufs ?c ! j)))"
    if "j < NBUF" "has B_INHASH (bufs ?c ! j)" for j
    using that recycle_chain(1) [OF inv BHASH_bound i, of d n] inv_inhash [OF inv, of j]
    by (auto simp: rb split: if_splits)
  moreover have "j = k" if "j < NBUF" "k < NBUF" "has B_INHASH (bufs ?c ! j)" "has B_INHASH (bufs ?c ! k)"
    "same_id (bufs ?c ! j) (bufs ?c ! k)" for j k
    using that inv_unique [OF inv, of j k] bcache_lookup_None [OF inv none]
    by (auto simp: rb same_id_def split: if_splits)
  ultimately show ?thesis
    unfolding bcache_inv_def using len recycle_chain(2) [OF inv _ i] inv_lru [OF inv]
    by (simp del: flag_bits)
qed

lemma bget_locked_inv:
  assumes "bcache_inv c" "bget_locked d n c = Ok (i, c')"
  shows "bcache_inv c' \<and> i < NBUF \<and> bcache_lookup d n c' = Some i \<and> refcnt (bufs c' ! i) = refcnt (bufs c ! i) + 1 \<and>
    (\<forall>j < NBUF. j \<noteq> i \<longrightarrow> bufs c' ! j = bufs c ! j)"
proof (cases "bcache_lookup d n c")
  case (Some k)
  then have k: "k = i" "c' = upd i (\<lambda>b. b\<lparr>refcnt := refcnt b + 1\<rparr>) c"
    using assms(2) by (auto simp: bget_locked_def)
  have i: "i < NBUF" "has B_INHASH (bufs c ! i)" "dev (bufs c ! i) = d" "blockno (bufs c ! i) = n"
    using bcache_lookup_iff [OF assms(1)] Some k(1) by auto
  have inv: "bcache_inv c'"
    unfolding k(2) by (rule bcache_inv_upd [OF assms(1) i(1)]) (simp_all add: same_id_def has_def)
  then show ?thesis
    using bcache_lookup_iff [OF inv, of d n i] i inv_len(1) [OF assms(1)]
    by (auto simp: k(2) bufs_upd)
next
  case None
  then obtain v: "bcache_victim c = Some i" "c' = bcache_recycle d n i c"
    using assms(2) by (auto simp: bget_locked_def split: option.splits)
  then have "i \<in> set (lru c)" "refcnt (bufs c ! i) = 0"
    by (auto simp: bcache_victim_def find_Some_iff rev_nth in_set_conv_nth)
      (metis diff_Suc_less gr_implies_not0 neq0_conv)
  then have i: "i < NBUF" using inv_lru [OF assms(1)] by auto
  have inv: "bcache_inv c'" unfolding v(2) by (rule bcache_inv_recycle [OF assms(1) None i])
  then show ?thesis
    using bcache_lookup_iff [OF inv, of d n i] i inv_len(1) [OF assms(1)] \<open>refcnt (bufs c ! i) = 0\<close>
    by (auto simp: v(2) recycle_bufs)
qed

lemma bcache_victim_Some:
  assumes "bcache_victim c = Some i"
  shows "i \<in> set (lru c)" "refcnt (bufs c ! i) = 0" "\<not> has B_DIRTY (bufs c ! i)"
proof -
  from assms have "i \<in> set (rev (lru c)) \<and> refcnt (bufs c ! i) = 0 \<and> \<not> has B_DIRTY (bufs c ! i)"
    unfolding bcache_victim_def find_Some_iff by (auto simp del: set_rev)
  then show "i \<in> set (lru c)" "refcnt (bufs c ! i) = 0" "\<not> has B_DIRTY (bufs c ! i)" by auto
qed

text \<open>
  Claim C29. \<open>bget\<close> on a well-formed cache never has two buffers for one block: it returns the buffer
  that holds the block, with one more reference, and the cache stays well formed. No other buffer
  changes; a buffer is given a new identity only when it was unreferenced and not dirty; and it
  panics only when every buffer is referenced or dirty.
\<close>

theorem bget_one_copy:
  assumes "bcache_inv c"
  shows "(\<forall>i c'. bget_locked d n c = Ok (i, c') \<longrightarrow>
      bcache_inv c' \<and> bcache_lookup d n c' = Some i \<and> refcnt (bufs c' ! i) = refcnt (bufs c ! i) + 1 \<and>
      (\<forall>j < NBUF. j \<noteq> i \<longrightarrow> bufs c' ! j = bufs c ! j) \<and>
      (bcache_lookup d n c \<noteq> Some i \<longrightarrow> refcnt (bufs c ! i) = 0 \<and> \<not> has B_DIRTY (bufs c ! i))) \<and>
    (\<forall>m. bget_locked d n c = Panic m \<longrightarrow>
      (\<forall>i < NBUF. refcnt (bufs c ! i) \<noteq> 0 \<or> has B_DIRTY (bufs c ! i)))"
proof (intro conjI allI impI)
  fix i c' assume b: "bget_locked d n c = Ok (i, c')"
  note p = bget_locked_inv [OF assms b]
  then show "bcache_inv c'" "bcache_lookup d n c' = Some i" "refcnt (bufs c' ! i) = refcnt (bufs c ! i) + 1"
    by blast+
  show "bufs c' ! j = bufs c ! j" if "j < NBUF" "j \<noteq> i" for j using p that by blast
  assume "bcache_lookup d n c \<noteq> Some i"
  then have "bcache_victim c = Some i" using b by (auto simp: bget_locked_def split: option.splits)
  from bcache_victim_Some [OF this]
  show "refcnt (bufs c ! i) = 0" "\<not> has B_DIRTY (bufs c ! i)" by blast+
next
  fix m i assume "bget_locked d n c = Panic m" "i < NBUF"
  then have "bcache_victim c = None" "i \<in> set (rev (lru c))"
    using inv_lru [OF assms] by (auto simp: bget_locked_def split: option.splits)
  then show "refcnt (bufs c ! i) \<noteq> 0 \<or> has B_DIRTY (bufs c ! i)"
    unfolding bcache_victim_def find_None_iff by auto
qed

lemma bcache_inv_binit: "bcache_inv binit"
  by (auto simp: bcache_inv_def binit_def BCACHE_HASH_SIZE_def buf0_def)

lemma buf0_clean: "0 < NBUF \<and> refcnt (bufs binit ! 0) = 0 \<and> \<not> has B_DIRTY (bufs binit ! 0)"
  by (simp add: binit_def buf0_def NBUF_def)

theorem bget_one_copy_witness:
  "\<exists>i c'. bget_locked 1 7 binit = Ok (i, c') \<and> bcache_lookup 1 7 c' = Some i"
proof -
  have none: "bcache_lookup 1 7 binit = None"
    using BHASH_bound [of 1 7] by (simp add: bcache_lookup_def binit_def BCACHE_HASH_SIZE_def)
  have "bget_locked 1 7 binit \<noteq> Panic m" for m
    using bget_one_copy [OF bcache_inv_binit, of 1 7] buf0_clean by blast
  then have "\<exists>i c'. bget_locked 1 7 binit = Ok (i, c')"
    using none by (cases "bcache_victim binit") (auto simp: bget_locked_def)
  then show ?thesis using bget_one_copy [OF bcache_inv_binit, of 1 7] by blast
qed


lemma bget_binit:
  "\<exists>i c. bget_locked d n binit = Ok (i, c) \<and> bcache_inv c \<and> bcache_lookup d n c = Some i \<and>
     refcnt (bufs c ! i) = 1 \<and> i < NBUF \<and> (\<forall>j < NBUF. j \<noteq> i \<longrightarrow> bufs c ! j = buf0)"
proof -
  have none: "bcache_lookup d n binit = None"
    using BHASH_bound [of d n] by (simp add: bcache_lookup_def binit_def BCACHE_HASH_SIZE_def)
  have "0 \<in> set (rev (lru binit))" by (simp add: binit_def NBUF_def)
  then have "bcache_victim binit \<noteq> None"
    using buf0_clean unfolding bcache_victim_def find_None_iff by blast
  then obtain i c where ic: "bget_locked d n binit = Ok (i, c)"
    using none by (auto simp: bget_locked_def)
  have z: "j < NBUF \<Longrightarrow> bufs binit ! j = buf0" for j by (simp add: binit_def)
  note p = bget_locked_inv [OF bcache_inv_binit ic]
  have "refcnt (bufs c ! i) = 1" using p z [of i] by (simp add: buf0_def)
  then show ?thesis using ic p z by metis
qed


subsection \<open>One process at a time\<close>

text \<open>
  The state of the cache when only process \<open>me\<close> uses it, on the disk that device 1 names: a buffer is
  free or held by \<open>me\<close>, and a free clean buffer holds what the disk holds.
\<close>

definition buf_ok :: "nat \<Rightarrow> disk \<Rightarrow> buf \<Rightarrow> bool" where
  "buf_ok me d b \<longleftrightarrow>
     \<not> has B_ERROR b \<and> length (data b) = BSIZE \<and>
     (if has B_INHASH b
      then has B_VALID b \<and> dev b = 1 \<and> blockno b < disksize d \<and>
        (refcnt b = 0 \<and> \<not> locked (lock b) \<and> (has B_DIRTY b \<or> data b = blocks d (blockno b)) \<or>
         refcnt b = 1 \<and> holdingsleep me (lock b))
      else flags b = 0 \<and> refcnt b = 0 \<and> \<not> locked (lock b))"

definition io_inv :: "nat \<Rightarrow> bio \<Rightarrow> bool" where
  "io_inv me s \<longleftrightarrow> bcache_inv (bc s) \<and> length (bdevs s) = NDEV \<and> ops (bdevs s ! 1) \<and>
     \<not> is_part (bdevs s ! 1) \<and> (\<forall>n. length (blocks (disk s) n) = BSIZE) \<and>
     (\<forall>i < NBUF. buf_ok me (disk s) (getbuf i s))"

text \<open>What a reader of block \<open>n\<close> sees, and the buffers that can be recycled.\<close>

definition cview :: "bio \<Rightarrow> u32 \<Rightarrow> block" where
  "cview s n = (case bcache_lookup 1 n (bc s) of
      Some i \<Rightarrow> data (getbuf i s) | None \<Rightarrow> blocks (disk s) n)"

definition free_bufs :: "bio \<Rightarrow> nat set" where
  "free_bufs s = {i. i < NBUF \<and> refcnt (getbuf i s) = 0 \<and> \<not> has B_DIRTY (getbuf i s)}"

definition held :: "nat \<Rightarrow> u32 \<Rightarrow> bio \<Rightarrow> bool" where
  "held i n s \<longleftrightarrow> bcache_lookup 1 n (bc s) = Some i \<and> refcnt (getbuf i s) = 1"

definition others_same :: "nat \<Rightarrow> bio \<Rightarrow> bio \<Rightarrow> bool" where
  "others_same i s s' \<longleftrightarrow> (\<forall>j < NBUF. j \<noteq> i \<longrightarrow> getbuf j s' = getbuf j s)"

lemma getbuf_set:
  "j < NBUF \<Longrightarrow> length (bufs (bc s)) = NBUF \<Longrightarrow> getbuf j (setbuf i b s) = (if i = j then b else getbuf j s)"
  by (simp add: getbuf_def setbuf_def bufs_upd)

lemma setbuf_simps [simp]: "disk (setbuf i b s) = disk s" "bdevs (setbuf i b s) = bdevs s"
  by (simp_all add: setbuf_def)

lemma getbuf_disk [simp]: "getbuf i (s\<lparr>disk := d\<rparr>) = getbuf i s"
  by (simp add: getbuf_def)

lemma heldD:
  assumes "io_inv me s" "held i n s"
  shows "i < NBUF" "dev (getbuf i s) = 1" "blockno (getbuf i s) = n" "bit (flags (getbuf i s)) 4"
    "bit (flags (getbuf i s)) 1" "\<not> bit (flags (getbuf i s)) 3" "refcnt (getbuf i s) = 1"
    "holdingsleep me (lock (getbuf i s))" "n < disksize (disk s)" "length (data (getbuf i s)) = BSIZE"
    "cview s n = data (getbuf i s)"
proof -
  have "bcache_lookup 1 n (bc s) = Some i" and r: "refcnt (getbuf i s) = 1"
    using assms(2) by (auto simp: held_def)
  then have l: "i < NBUF" "bit (flags (getbuf i s)) 4" "dev (getbuf i s) = 1" "blockno (getbuf i s) = n"
    using bcache_lookup_iff [of "bc s" 1 n i] assms(1) by (auto simp: io_inv_def getbuf_def)
  then have "buf_ok me (disk s) (getbuf i s)" using assms(1) by (simp add: io_inv_def)
  with l r show "i < NBUF" "dev (getbuf i s) = 1" "blockno (getbuf i s) = n" "bit (flags (getbuf i s)) 4"
    "bit (flags (getbuf i s)) 1" "\<not> bit (flags (getbuf i s)) 3" "refcnt (getbuf i s) = 1"
    "holdingsleep me (lock (getbuf i s))" "n < disksize (disk s)" "length (data (getbuf i s)) = BSIZE"
    by (auto simp: buf_ok_def)
  show "cview s n = data (getbuf i s)" using assms(2) by (simp add: cview_def held_def)
qed

text \<open>Replacing a held buffer by one of the same identity.\<close>

lemma option_eq_iff_Some: "(\<And>k. x = Some k \<longleftrightarrow> y = Some k) \<Longrightarrow> x = y"
  by (cases x; cases y) auto

lemma lookup_upd:
  assumes "bcache_inv c" "i < NBUF" "same_id (f (bufs c ! i)) (bufs c ! i)"
    "has B_INHASH (f (bufs c ! i)) = has B_INHASH (bufs c ! i)"
  shows "bcache_lookup d n (upd i f c) = bcache_lookup d n c"
proof (rule option_eq_iff_Some)
  fix k
  show "bcache_lookup d n (upd i f c) = Some k \<longleftrightarrow> bcache_lookup d n c = Some k"
    unfolding bcache_lookup_iff [OF assms(1)] bcache_lookup_iff [OF bcache_inv_upd [of c i f, OF assms]]
    using assms(2-4) inv_len(1) [OF assms(1)]
    by (cases "k = i") (auto simp: bufs_upd same_id_def simp del: flag_bits)
qed

lemma setbuf_held:
  assumes inv: "io_inv me s" and h: "held i n s"
    and b: "dev b = 1" "blockno b = n" "bit (flags b) 4" "refcnt b = 1" "buf_ok me d' b"
    and d: "blocks d' = (blocks (disk s))(n := x)" "length x = BSIZE" "disksize d' = disksize (disk s)"
  shows "io_inv me ((setbuf i b s)\<lparr>disk := d'\<rparr>)" "held i n ((setbuf i b s)\<lparr>disk := d'\<rparr>)"
    "cview ((setbuf i b s)\<lparr>disk := d'\<rparr>) = (cview s)(n := data b)"
    "others_same i s ((setbuf i b s)\<lparr>disk := d'\<rparr>)"
proof -
  let ?s = "(setbuf i b s)\<lparr>disk := d'\<rparr>"
  note hd = heldD [OF inv h]
  have ci: "bcache_inv (bc s)" using inv by (simp add: io_inv_def)
  have bc: "bc ?s = upd i (\<lambda>_. b) (bc s)" by (simp add: setbuf_def)
  have same: "same_id b (bufs (bc s) ! i)" "has B_INHASH b = has B_INHASH (bufs (bc s) ! i)"
    using hd b by (simp_all add: same_id_def getbuf_def)
  have look: "bcache_lookup 1 m (bc ?s) = bcache_lookup 1 m (bc s)" for m
    unfolding bc by (rule lookup_upd [of _ _ "\<lambda>_. b", OF ci hd(1) same])
  have gb: "getbuf j ?s = (if i = j then b else getbuf j s)" if "j < NBUF" for j
    using that inv_len(1) [OF ci] by (simp add: getbuf_set)
  have ok: "buf_ok me d' (getbuf j ?s)" if j: "j < NBUF" for j
  proof (cases "j = i")
    case True
    then show ?thesis using gb [OF j] b(5) by simp
  next
    case False
    have ne: "blockno (getbuf j s) \<noteq> n" if "bit (flags (getbuf j s)) 4" "dev (getbuf j s) = 1"
    proof
      assume "blockno (getbuf j s) = n"
      with that hd(2-4) have "same_id (bufs (bc s) ! j) (bufs (bc s) ! i)"
        by (simp add: same_id_def getbuf_def)
      with inv_unique [OF ci j hd(1)] that(1) hd(4) False show False by (simp add: getbuf_def)
    qed
    have "buf_ok me (disk s) (getbuf j s)" using inv j by (simp add: io_inv_def)
    then have "buf_ok me d' (getbuf j s)" unfolding buf_ok_def d(1,3) using ne by auto
    then show ?thesis using gb [OF j] False by simp
  qed
  have "bcache_inv (bc ?s)" unfolding bc by (rule bcache_inv_upd [of _ _ "\<lambda>_. b", OF ci hd(1) same])
  then show "io_inv me ?s" using inv ok d by (simp add: io_inv_def)
  show "held i n ?s" using h look b(4) gb [OF hd(1)] by (simp add: held_def)
  show "others_same i s ?s" using gb by (auto simp: others_same_def)
  show "cview ?s = (cview s)(n := data b)"
  proof
    fix m
    show "cview ?s m = ((cview s)(n := data b)) m"
    proof (cases "bcache_lookup 1 m (bc s)")
      case None
      then have "m \<noteq> n" using h by (auto simp: held_def)
      then show ?thesis using None look d(1) by (simp add: cview_def)
    next
      case (Some k)
      then have k: "k < NBUF" "blockno (getbuf k s) = m"
        using bcache_lookup_iff [OF ci] by (auto simp: getbuf_def)
      have eq: "m = n \<longleftrightarrow> k = i" 
        using Some h hd(3) k(2) unfolding held_def by (metis option.inject)
      have "cview ?s m = data (getbuf k ?s)" unfolding cview_def look Some by simp
      also have "\<dots> = (if k = i then data b else data (getbuf k s))" using gb [OF k(1)] by simp
      also have "\<dots> = ((cview s)(n := data b)) m" using eq Some by (simp add: cview_def)
      finally show ?thesis .
    qed
  qed
qed

lemma others_trans:
  "others_same i s s' \<Longrightarrow> others_same i s' s'' \<Longrightarrow> others_same i s s''"
  by (simp add: others_same_def)

text \<open>Writing new contents into a held buffer, and \<open>bwrite\<close> of it.\<close>

lemma set_data_held:
  assumes inv: "io_inv me s" and h: "held i n s" and x: "length x = BSIZE"
  defines "s' \<equiv> setbuf i ((getbuf i s)\<lparr>data := x\<rparr>) s"
  shows "io_inv me s'" "held i n s'" "cview s' = (cview s)(n := x)" "others_same i s s'"
    "flags (getbuf i s') = flags (getbuf i s)" "getbuf i s' = (getbuf i s)\<lparr>data := x\<rparr>"
proof -
  let ?b = "(getbuf i s)\<lparr>data := x\<rparr>"
  note hd = heldD [OF inv h]
  have ok: "buf_ok me (disk s) ?b" using hd x by (simp add: buf_ok_def)
  have d: "blocks (disk s) = (blocks (disk s))(n := blocks (disk s) n)" "length (blocks (disk s) n) = BSIZE"
    using inv by (simp_all add: io_inv_def)
  have eq: "(setbuf i ?b s)\<lparr>disk := disk s\<rparr> = s'" by (simp add: s'_def setbuf_def)
  note sh = setbuf_held [OF inv h _ _ _ _ ok d refl, unfolded eq]
  show "io_inv me s'" "held i n s'" "cview s' = (cview s)(n := x)" "others_same i s s'"
    using sh hd by simp_all
  have "bcache_inv (bc s)" using inv by (simp add: io_inv_def)
  then show "flags (getbuf i s') = flags (getbuf i s)" "getbuf i s' = ?b"
    using inv_len hd(1) by (simp_all add: s'_def getbuf_set)
qed

lemma bwrite_held:
  assumes inv: "io_inv me s" and h: "held i n s"
  shows "\<exists>s'. bwrite me i s = Ok s' \<and> io_inv me s' \<and> held i n s' \<and> cview s' = cview s \<and>
    disk s' = disk_write n (cview s n) (disk s) \<and> others_same i s s' \<and>
    \<not> has B_DIRTY (getbuf i s') \<and> \<not> berror i s'"
proof -
  note hd = heldD [OF inv h]
  let ?b = "getbuf i s"
  let ?b' = "?b\<lparr>flags := (((flags ?b OR B_DIRTY) AND NOT B_DIRTY) OR B_VALID) AND NOT B_ERROR\<rparr>"
  let ?d = "disk_write n (data ?b) (disk s)"
  let ?s = "(setbuf i ?b' s)\<lparr>disk := ?d\<rparr>"
  have dev1: "unat (dev ?b) < NDEV" "ops (bdevs s ! unat (dev ?b))" "\<not> is_part (bdevs s ! unat (dev ?b))"
    using inv hd by (auto simp: io_inv_def NDEV_def)
  have todo: "(flags ?b OR B_DIRTY) AND (B_VALID OR B_DIRTY) \<noteq> B_VALID"
  proof
    assume "(flags ?b OR B_DIRTY) AND (B_VALID OR B_DIRTY) = B_VALID"
    then have "bit ((flags ?b OR B_DIRTY) AND (B_VALID OR B_DIRTY)) 2 = bit B_VALID 2" by simp
    then show False by (simp add: bit_and_iff bit_or_iff)
  qed
  have rw: "bdevrw me (bdevs s) (?b\<lparr>flags := flags ?b OR B_DIRTY\<rparr>) (disk s) =
      Ok (0, ?b\<lparr>flags := ((flags ?b OR B_DIRTY) AND NOT B_DIRTY) OR B_VALID\<rparr>, ?d)"
    using dev1 todo hd by (simp add: bdevrw_def memide_backend_rw_def Let_def bit_or_iff)
  have res: "bwrite me i s = Ok ?s"
    using hd(8) rw by (simp add: bwrite_def Let_def)
  have ok: "buf_ok me ?d ?b'"
    using hd by (simp add: buf_ok_def disk_write_def bit_and_iff bit_or_iff bit_not_iff)
  have d: "blocks ?d = (blocks (disk s))(n := data ?b)" "length (data ?b) = BSIZE" "disksize ?d = disksize (disk s)"
    using hd by (simp_all add: disk_write_def)
  note sh = setbuf_held [OF inv h _ _ _ _ ok d]
  have *: "io_inv me ?s" "held i n ?s" "cview ?s = (cview s)(n := data ?b)" "others_same i s ?s"
    using sh hd by (simp_all add: bit_and_iff bit_or_iff bit_not_iff)
  have v: "(cview s)(n := data ?b) = cview s" using hd(11) by (metis fun_upd_triv)
  have "getbuf i ?s = ?b'"
    using inv hd(1) inv_len(1) by (simp add: getbuf_set io_inv_def)
  then show ?thesis
    using * [unfolded v] res hd(11) by (intro exI [of _ ?s]) (simp add: berror_def bit_and_iff bit_or_iff bit_not_iff)
qed

text \<open>Taking a free buffer for block \<open>n\<close>, whether it already held the block or was recycled.\<close>

lemma take_buffer:
  assumes inv: "io_inv me s" and c: "bcache_inv c'" and i: "i < NBUF"
    and others: "\<forall>j < NBUF. j \<noteq> i \<longrightarrow> bufs c' ! j = getbuf j s"
    and b: "dev (bufs c' ! i) = 1" "blockno (bufs c' ! i) = n" "bit (flags (bufs c' ! i)) 4"
      "refcnt (bufs c' ! i) = 1" "buf_ok me (disk s) (bufs c' ! i)" "data (bufs c' ! i) = cview s n"
    and was: "refcnt (getbuf i s) = 0"
      "bcache_lookup 1 n (bc s) = Some i \<or> \<not> bit (flags (getbuf i s)) 2"
  shows "io_inv me (s\<lparr>bc := c'\<rparr>)" "held i n (s\<lparr>bc := c'\<rparr>)" "cview (s\<lparr>bc := c'\<rparr>) = cview s"
    "others_same i s (s\<lparr>bc := c'\<rparr>)"
proof -
  have ci: "bcache_inv (bc s)" using inv by (simp add: io_inv_def)
  have gb: "getbuf j (s\<lparr>bc := c'\<rparr>) = bufs c' ! j" for j by (simp add: getbuf_def)
  have ok: "buf_ok me (disk s) (bufs c' ! j)" if "j < NBUF" for j
    using b(5) others inv that by (cases "j = i") (simp_all add: io_inv_def)
  then show "io_inv me (s\<lparr>bc := c'\<rparr>)" using inv c gb by (simp add: io_inv_def)
  have look: "bcache_lookup 1 n c' = Some i" using bcache_lookup_iff [OF c] i b by simp
  then show "held i n (s\<lparr>bc := c'\<rparr>)" using gb b(4) by (simp add: held_def)
  show "others_same i s (s\<lparr>bc := c'\<rparr>)" using gb others by (simp add: others_same_def)
  show "cview (s\<lparr>bc := c'\<rparr>) = cview s"
  proof
    fix m
    show "cview (s\<lparr>bc := c'\<rparr>) m = cview s m"
    proof (cases "m = n")
      case True
      then show ?thesis using look gb b(6) by (simp add: cview_def)
    next
      case False
      have iff: "bcache_lookup 1 m c' = Some k \<longleftrightarrow> k \<noteq> i \<and> bcache_lookup 1 m (bc s) = Some k" for k
        unfolding bcache_lookup_iff [OF c] bcache_lookup_iff [OF ci]
        using others b(2) False by (cases "k = i") (auto simp: getbuf_def)
      show ?thesis
      proof (cases "bcache_lookup 1 m (bc s) = Some i")
        case True
        then have old: "blockno (getbuf i s) = m" "dev (getbuf i s) = 1" "bit (flags (getbuf i s)) 4"
          using bcache_lookup_iff [OF ci] by (auto simp: getbuf_def)
        have "bcache_lookup 1 n (bc s) \<noteq> Some i"
          using bcache_lookup_iff [OF ci, of 1 n i] old False by (auto simp: getbuf_def)
        then have "data (getbuf i s) = blocks (disk s) m"
          using was old inv i by (auto simp: io_inv_def buf_ok_def)
        moreover have "bcache_lookup 1 m c' \<noteq> Some k" for k
          unfolding iff [of k] True by auto
        then have "bcache_lookup 1 m c' = None" by (metis not_None_eq)
        ultimately show ?thesis using True by (simp add: cview_def)
      next
        case False
        then have "bcache_lookup 1 m c' = bcache_lookup 1 m (bc s)"
          by (intro option_eq_iff_Some) (auto simp: iff)
        moreover have "bufs c' ! k = getbuf k s" if "bcache_lookup 1 m (bc s) = Some k" for k
          using that False others bcache_lookup_iff [OF ci, of 1 m k] by auto
        ultimately show ?thesis
          by (cases "bcache_lookup 1 m (bc s)") (simp_all add: cview_def gb)
      qed
    qed
  qed
qed

lemma bread_hit:
  assumes inv: "io_inv me s" and l: "bcache_lookup 1 n (bc s) = Some i" and r: "refcnt (getbuf i s) = 0"
  shows "\<exists>s'. bread me 1 n s = Ok (i, s') \<and> io_inv me s' \<and> held i n s' \<and> cview s' = cview s \<and>
    disk s' = disk s \<and> others_same i s s' \<and> flags (getbuf i s') = flags (getbuf i s)"
proof -
  have ci: "bcache_inv (bc s)" using inv by (simp add: io_inv_def)
  have i: "i < NBUF" "bit (flags (getbuf i s)) 4" "dev (getbuf i s) = 1" "blockno (getbuf i s) = n"
    using bcache_lookup_iff [OF ci] l by (auto simp: getbuf_def)
  have ok: "buf_ok me (disk s) (getbuf i s)" using inv i by (simp add: io_inv_def)
  then have free: "\<not> locked (lock (getbuf i s))" "bit (flags (getbuf i s)) 1"
    using i(2) r by (auto simp: buf_ok_def)
  let ?f = "\<lambda>b. b\<lparr>refcnt := refcnt b + 1\<rparr>"
  let ?c1 = "upd i ?f (bc s)"
  let ?lk = "(lock (getbuf i s))\<lparr>locked := True, lkpid := me\<rparr>"
  let ?c2 = "upd i (\<lambda>b. b\<lparr>lock := ?lk\<rparr>) ?c1"
  have len: "length (bufs (bc s)) = NBUF" by (rule inv_len [OF ci])
  have b2: "bufs ?c2 ! j = (if j = i then (getbuf i s)\<lparr>refcnt := 1, lock := ?lk\<rparr> else getbuf j s)" if "j < NBUF" for j
    using that len r by (simp add: bufs_upd getbuf_def)
  have c2: "bcache_inv ?c2"
    by (rule bcache_inv_upd [OF bcache_inv_upd [OF ci i(1)] i(1)])
      (use i(1) len in \<open>simp_all add: same_id_def bufs_upd\<close>)
  have "bget me 1 n (bc s) = Ok (i, ?c2)"
    using l free i(1) len by (simp add: bget_def bget_locked_def acquiresleep_def bufs_upd getbuf_def)
  then have res: "bread me 1 n s = Ok (i, s\<lparr>bc := ?c2\<rparr>)"
    using free b2 [OF i(1)] by (simp add: bread_def Let_def getbuf_def)
  have "data (getbuf i s) = cview s n" using l by (simp add: cview_def)
  moreover have "buf_ok me (disk s) ((getbuf i s)\<lparr>refcnt := 1, lock := ?lk\<rparr>)"
    using ok i by (auto simp: buf_ok_def holdingsleep_def)
  ultimately have "io_inv me (s\<lparr>bc := ?c2\<rparr>)" "held i n (s\<lparr>bc := ?c2\<rparr>)" "cview (s\<lparr>bc := ?c2\<rparr>) = cview s"
    "others_same i s (s\<lparr>bc := ?c2\<rparr>)"
    using take_buffer [OF inv c2 i(1), of n] b2 i r l by simp_all
  then show ?thesis using res b2 [OF i(1)] by (intro exI [of _ "s\<lparr>bc := ?c2\<rparr>"]) (simp add: getbuf_def)
qed

lemma victim_exists:
  assumes "bcache_inv (bc s)" "free_bufs s \<noteq> {}"
  shows "\<exists>i. bcache_victim (bc s) = Some i"
proof -
  obtain k where "k < NBUF" "refcnt (getbuf k s) = 0" "\<not> has B_DIRTY (getbuf k s)"
    using assms(2) unfolding free_bufs_def by blast
  then have "k \<in> set (rev (lru (bc s)))" "refcnt (bufs (bc s) ! k) = 0 \<and> \<not> has B_DIRTY (bufs (bc s) ! k)"
    using inv_lru(2) [OF assms(1)] by (simp_all add: getbuf_def)
  then have "bcache_victim (bc s) \<noteq> None" unfolding bcache_victim_def find_None_iff by blast
  then show ?thesis by blast
qed

lemma bread_miss:
  assumes inv: "io_inv me s" and l: "bcache_lookup 1 n (bc s) = None" and fr: "free_bufs s \<noteq> {}"
    and n: "n < disksize (disk s)"
  shows "\<exists>i s'. bread me 1 n s = Ok (i, s') \<and> io_inv me s' \<and> held i n s' \<and> cview s' = cview s \<and>
    disk s' = disk s \<and> others_same i s s' \<and> i \<in> free_bufs s \<and> \<not> has B_DIRTY (getbuf i s')"
proof -
  have ci: "bcache_inv (bc s)" using inv by (simp add: io_inv_def)
  obtain i where v: "bcache_victim (bc s) = Some i" using victim_exists [OF ci fr] by blast
  note vs = bcache_victim_Some [OF v]
  have i: "i < NBUF" using vs(1) inv_lru(2) [OF ci] by simp
  have ok: "buf_ok me (disk s) (getbuf i s)" using inv i by (simp add: io_inv_def)
  then have free: "\<not> locked (lock (getbuf i s))" "refcnt (getbuf i s) = 0"
    using vs(2) by (auto simp: buf_ok_def getbuf_def split: if_splits)
  have len: "length (bufs (bc s)) = NBUF" by (rule inv_len [OF ci])
  let ?c1 = "bcache_recycle 1 n i (bc s)"
  let ?lk = "(lock (getbuf i s))\<lparr>locked := True, lkpid := me\<rparr>"
  let ?b2 = "(getbuf i s)\<lparr>dev := 1, blockno := n, flags := B_INHASH, refcnt := 1, lock := ?lk\<rparr>"
  let ?c2 = "upd i (\<lambda>b. b\<lparr>lock := ?lk\<rparr>) ?c1"
  let ?b3 = "?b2\<lparr>data := blocks (disk s) n, flags := (B_INHASH OR B_VALID) AND NOT B_ERROR\<rparr>"
  let ?c3 = "upd i (\<lambda>_. ?b3) ?c2"
  have c1: "bcache_inv ?c1" by (rule bcache_inv_recycle [OF ci l i])
  have len1: "length (bufs ?c1) = NBUF" by (rule inv_len [OF c1])
  have b1: "bufs ?c1 ! i = (getbuf i s)\<lparr>dev := 1, blockno := n, flags := B_INHASH, refcnt := 1\<rparr>"
    using recycle_bufs [OF i len] by (simp add: getbuf_def)
  have b2: "bufs ?c2 ! i = ?b2" using i len1 b1 by (simp add: bufs_upd)
  have g: "bget me 1 n (bc s) = Ok (i, ?c2)"
    using l v free b1 by (simp add: bget_def bget_locked_def acquiresleep_def)
  have dev1: "ops (bdevs s ! 1)" "\<not> is_part (bdevs s ! 1)" "unat (1 :: u32) < NDEV"
    using inv by (auto simp: io_inv_def NDEV_def)
  have todo: "B_INHASH AND (B_VALID OR B_DIRTY) \<noteq> B_VALID"
    by (simp add: B_INHASH_def B_VALID_def B_DIRTY_def)
  have rw: "bdevrw me (bdevs s) ?b2 (disk s) =
      Ok (0, ?b2\<lparr>data := blocks (disk s) n, flags := B_INHASH OR B_VALID\<rparr>, disk s)"
    using dev1 todo n by (simp add: bdevrw_def memide_backend_rw_def Let_def holdingsleep_def)
  have res: "bread me 1 n s = Ok (i, s\<lparr>bc := ?c3\<rparr>)"
    using g rw b2 by (simp add: bread_def Let_def getbuf_def setbuf_def)
  have b3: "bufs ?c3 ! j = (if j = i then ?b3 else getbuf j s)" if "j < NBUF" for j
    using that i len len1 recycle_bufs [OF that len] by (simp add: bufs_upd getbuf_def)
  have c3: "bcache_inv ?c3"
    by (rule bcache_inv_upd [OF bcache_inv_upd [OF c1 i] i])
      (use i len1 b1 b2 in \<open>simp_all add: same_id_def bit_and_iff bit_or_iff bit_not_iff\<close>)
  have "buf_ok me (disk s) ?b3"
    using inv n by (simp add: buf_ok_def io_inv_def holdingsleep_def bit_and_iff bit_or_iff bit_not_iff)
  moreover have "blocks (disk s) n = cview s n" using l by (simp add: cview_def)
  ultimately have *: "io_inv me (s\<lparr>bc := ?c3\<rparr>)" "held i n (s\<lparr>bc := ?c3\<rparr>)" "cview (s\<lparr>bc := ?c3\<rparr>) = cview s"
    "others_same i s (s\<lparr>bc := ?c3\<rparr>)"
    using take_buffer [OF inv c3 i, of n] b3 free vs(3) i
    by (simp_all add: getbuf_def bit_and_iff bit_or_iff bit_not_iff)
  have "i \<in> free_bufs s" using i free vs(3) by (simp add: free_bufs_def getbuf_def)
  then show ?thesis
    using res * b3 [OF i]
    by (intro exI [of _ i] exI [of _ "s\<lparr>bc := ?c3\<rparr>"]) (simp add: getbuf_def bit_and_iff bit_or_iff bit_not_iff)
qed

definition unheld :: "u32 \<Rightarrow> bio \<Rightarrow> bool" where
  "unheld n s \<longleftrightarrow> (\<forall>i. bcache_lookup 1 n (bc s) = Some i \<longrightarrow> refcnt (getbuf i s) = 0)"

definition dirty_blocks :: "bio \<Rightarrow> u32 set" where
  "dirty_blocks s = {n. \<exists>i. bcache_lookup 1 n (bc s) = Some i \<and> has B_DIRTY (getbuf i s)}"

text \<open>The contract of \<open>bread\<close>, \<open>bwrite\<close> and \<open>brelse\<close> for a lone process.\<close>

lemma bread_spec:
  assumes inv: "io_inv me s" and "unheld n s" "free_bufs s \<noteq> {}" "n < disksize (disk s)"
  shows "\<exists>i s'. bread me 1 n s = Ok (i, s') \<and> io_inv me s' \<and> held i n s' \<and> cview s' = cview s \<and>
    disk s' = disk s \<and> others_same i s s' \<and> refcnt (getbuf i s) = 0 \<and> i < NBUF \<and>
    (has B_DIRTY (getbuf i s') \<longrightarrow> has B_DIRTY (getbuf i s)) \<and>
    (has B_DIRTY (getbuf i s') \<longleftrightarrow> n \<in> dirty_blocks s) \<and> \<not> berror i s'"
proof (cases "bcache_lookup 1 n (bc s)")
  case (Some i)
  then have "refcnt (getbuf i s) = 0" using assms(2) by (simp add: unheld_def)
  from bread_hit [OF inv Some this] obtain s' where s': "bread me 1 n s = Ok (i, s')" "io_inv me s'"
    "held i n s'" "cview s' = cview s" "disk s' = disk s" "others_same i s s'"
    "flags (getbuf i s') = flags (getbuf i s)" by blast
  then show ?thesis
    using Some \<open>refcnt (getbuf i s) = 0\<close> heldD [OF s'(2,3)]
    by (intro exI [of _ i] exI [of _ s']) (simp add: dirty_blocks_def berror_def)
next
  case None
  from bread_miss [OF inv None assms(3,4)] obtain i s' where s': "bread me 1 n s = Ok (i, s')" "io_inv me s'"
    "held i n s'" "cview s' = cview s" "disk s' = disk s" "others_same i s s'"
    "i \<in> free_bufs s" "\<not> has B_DIRTY (getbuf i s')" by blast
  then show ?thesis
    using None heldD [OF s'(2,3)]
    by (intro exI [of _ i] exI [of _ s']) (simp add: dirty_blocks_def berror_def free_bufs_def)
qed

lemma brelse_spec:
  assumes inv: "io_inv me s" and h: "held i n s"
    and coh: "has B_DIRTY (getbuf i s) \<or> cview s n = blocks (disk s) n"
  shows "\<exists>s'. brelse me i s = Ok s' \<and> io_inv me s' \<and> cview s' = cview s \<and> disk s' = disk s \<and>
    others_same i s s' \<and> refcnt (getbuf i s') = 0 \<and> flags (getbuf i s') = flags (getbuf i s)"
proof -
  note hd = heldD [OF inv h]
  have ci: "bcache_inv (bc s)" using inv by (simp add: io_inv_def)
  have len: "length (bufs (bc s)) = NBUF" by (rule inv_len [OF ci])
  let ?f = "\<lambda>b. b\<lparr>lock := releasesleep (lock b), refcnt := refcnt b - 1\<rparr>"
  let ?c = "upd i ?f (bc s)"
  let ?c' = "?c\<lparr>lru := i # remove1 i (lru ?c)\<rparr>"
  let ?s = "s\<lparr>bc := ?c'\<rparr>"
  have b: "getbuf j ?s = (if j = i then ?f (getbuf i s) else getbuf j s)" if "j < NBUF" for j
    using that len by (simp add: getbuf_def bufs_upd)
  have "refcnt (bufs ?c ! i) = 0" using hd(1,7) len by (simp add: bufs_upd getbuf_def)
  then have res: "brelse me i s = Ok ?s" using hd(8) by (simp add: brelse_def Let_def)
  have same: "same_id (?f (bufs (bc s) ! i)) (bufs (bc s) ! i)"
    "has B_INHASH (?f (bufs (bc s) ! i)) = has B_INHASH (bufs (bc s) ! i)" by (simp_all add: same_id_def)
  have c: "bcache_inv ?c" by (rule bcache_inv_upd [of _ _ ?f, OF ci hd(1) same])
  then have c': "bcache_inv ?c'" by (rule bcache_inv_lru [OF _ hd(1)])
  have "bcache_lookup 1 m ?c' = bcache_lookup 1 m ?c" for m by (simp add: bcache_lookup_def)
  then have look: "bcache_lookup 1 m (bc ?s) = bcache_lookup 1 m (bc s)" for m
    using lookup_upd [of _ _ ?f, OF ci hd(1) same] by simp
  have "buf_ok me (disk s) (?f (getbuf i s))"
    using hd coh inv by (simp add: buf_ok_def io_inv_def releasesleep_def)
  then have "buf_ok me (disk s) (getbuf j ?s)" if "j < NBUF" for j
    using that b inv by (simp add: io_inv_def)
  then have "io_inv me ?s" using inv c' by (simp add: io_inv_def)
  moreover have "cview ?s = cview s"
  proof
    fix m
    have "data (getbuf k ?s) = data (getbuf k s)" if "bcache_lookup 1 m (bc s) = Some k" for k
      using b [of k] bcache_lookup_iff [OF ci, of 1 m k] that by simp
    then show "cview ?s m = cview s m"
      unfolding cview_def look [of m] by (cases "bcache_lookup 1 m (bc s)") simp_all
  qed
  ultimately show ?thesis
    using res b [OF hd(1)] b hd(7) by (intro exI [of _ ?s]) (auto simp: others_same_def)
qed

text \<open>A copy of one block over another through the cache, as the log makes them.\<close>

definition copy_data :: "nat \<Rightarrow> nat \<Rightarrow> bio \<Rightarrow> bio" where
  "copy_data src dst s = setbuf dst ((getbuf dst s)\<lparr>data := data (getbuf src s)\<rparr>) s"

lemma held_other:
  assumes "io_inv me s'" "held i n s" "others_same j s s'" "i \<noteq> j" "io_inv me s"
  shows "held i n s'"
proof -
  note hd = heldD [OF assms(5,2)]
  have "getbuf i s' = getbuf i s" using assms(3,4) hd(1) by (simp add: others_same_def)
  moreover from this have "bcache_lookup 1 n (bc s') = Some i"
    using bcache_lookup_iff [of "bc s'" 1 n i] assms(1) hd by (simp add: io_inv_def getbuf_def)
  ultimately show ?thesis using hd by (simp add: held_def)
qed

lemma unheld_other:
  assumes "io_inv me s" "io_inv me s'" "others_same i s s'" "held i m s'" "n \<noteq> m" "unheld n s"
  shows "unheld n s'"
  unfolding unheld_def
proof (intro allI impI)
  fix k assume k: "bcache_lookup 1 n (bc s') = Some k"
  have ci: "bcache_inv (bc s)" "bcache_inv (bc s')" using assms(1,2) by (simp_all add: io_inv_def)
  have kk: "k < NBUF" "bit (flags (getbuf k s')) 4" "dev (getbuf k s') = 1" "blockno (getbuf k s') = n"
    using bcache_lookup_iff [OF ci(2)] k by (auto simp: getbuf_def)
  have "k \<noteq> i" using heldD(3) [OF assms(2,4)] kk(4) assms(5) by auto
  then have eq: "getbuf k s' = getbuf k s" using assms(3) kk(1) by (simp add: others_same_def)
  then have "bcache_lookup 1 n (bc s) = Some k"
    using bcache_lookup_iff [OF ci(1)] kk by (simp add: getbuf_def)
  then show "refcnt (getbuf k s') = 0" using assms(6) eq by (simp add: unheld_def)
qed

lemma free_bufs_mono:
  assumes "\<forall>j < NBUF. j \<notin> A \<longrightarrow> getbuf j s' = getbuf j s"
    and "\<forall>j \<in> A. j < NBUF \<longrightarrow> j \<in> free_bufs s \<longrightarrow> j \<in> free_bufs s'"
  shows "free_bufs s \<subseteq> free_bufs s'"
  using assms by (auto simp: free_bufs_def)

definition quiet :: "nat \<Rightarrow> bio \<Rightarrow> bool" where
  "quiet me s \<longleftrightarrow> io_inv me s \<and> (\<forall>i < NBUF. refcnt (getbuf i s) = 0)"

lemma quiet_unheld: "quiet me s \<Longrightarrow> unheld n s"
  using bcache_lookup_iff [of "bc s" 1 n] by (auto simp: quiet_def unheld_def io_inv_def)

lemma clean_view:
  assumes "io_inv me s" "unheld n s" "n \<notin> dirty_blocks s"
  shows "cview s n = blocks (disk s) n"
proof (cases "bcache_lookup 1 n (bc s)")
  case None
  then show ?thesis by (simp add: cview_def)
next
  case (Some i)
  have ci: "bcache_inv (bc s)" using assms(1) by (simp add: io_inv_def)
  have i: "i < NBUF" "bit (flags (getbuf i s)) 4" "blockno (getbuf i s) = n"
    using bcache_lookup_iff [OF ci] Some by (auto simp: getbuf_def)
  have "refcnt (getbuf i s) = 0" "\<not> bit (flags (getbuf i s)) 2"
    using assms(2,3) Some by (auto simp: unheld_def dirty_blocks_def)
  moreover have "buf_ok me (disk s) (getbuf i s)" using assms(1) i(1) by (simp add: io_inv_def)
  ultimately show ?thesis using i Some by (auto simp: buf_ok_def cview_def)
qed

lemma bread_pair:
  assumes q: "quiet me s" and ab: "a \<noteq> b" "a < disksize (disk s)" "b < disksize (disk s)"
    and fr: "2 \<le> card (free_bufs s)"
  shows "\<exists>i s1 j s2. bread me 1 a s = Ok (i, s1) \<and> \<not> berror i s1 \<and> bread me 1 b s1 = Ok (j, s2) \<and> \<not> berror j s2 \<and>
    io_inv me s2 \<and> held i a s2 \<and> held j b s2 \<and> i \<noteq> j \<and> cview s2 = cview s \<and> disk s2 = disk s \<and>
    (\<forall>k < NBUF. k \<noteq> i \<longrightarrow> k \<noteq> j \<longrightarrow> getbuf k s2 = getbuf k s) \<and>
    (has B_DIRTY (getbuf i s2) \<longrightarrow> has B_DIRTY (getbuf i s)) \<and>
    (has B_DIRTY (getbuf j s2) \<longrightarrow> has B_DIRTY (getbuf j s)) \<and>
    (has B_DIRTY (getbuf i s2) \<or> cview s a = blocks (disk s) a) \<and>
    (has B_DIRTY (getbuf j s2) \<or> cview s b = blocks (disk s) b)"
proof -
  have inv: "io_inv me s" using q by (simp add: quiet_def)
  have ne: "free_bufs s \<noteq> {}" using fr by auto
  obtain i s1 where s1: "bread me 1 a s = Ok (i, s1)" "io_inv me s1" "held i a s1" "cview s1 = cview s"
    "disk s1 = disk s" "others_same i s s1" "has B_DIRTY (getbuf i s1) \<longrightarrow> has B_DIRTY (getbuf i s)" "\<not> berror i s1"
    "has B_DIRTY (getbuf i s1) \<longleftrightarrow> a \<in> dirty_blocks s"
    using bread_spec [OF inv quiet_unheld [OF q] ne ab(2)] by blast
  have un: "unheld b s1" by (rule unheld_other [OF inv s1(2,6,3) _ quiet_unheld [OF q]]) (use ab in simp)
  have "free_bufs s - {i} \<subseteq> free_bufs s1"
    using s1(6) by (auto simp: free_bufs_def others_same_def)
  moreover have "\<not> free_bufs s \<subseteq> {i}" using fr card_mono [of "{i}" "free_bufs s"] by auto
  ultimately have ne1: "free_bufs s1 \<noteq> {}" by blast
  obtain j s2 where s2: "bread me 1 b s1 = Ok (j, s2)" "io_inv me s2" "held j b s2" "cview s2 = cview s1"
    "disk s2 = disk s1" "others_same j s1 s2" "refcnt (getbuf j s1) = 0" "\<not> berror j s2"
    "has B_DIRTY (getbuf j s2) \<longrightarrow> has B_DIRTY (getbuf j s1)" "has B_DIRTY (getbuf j s2) \<longleftrightarrow> b \<in> dirty_blocks s1"
    using bread_spec [OF s1(2) un ne1] ab(3) s1(5) by (auto simp del: flag_bits)
  have ij: "i \<noteq> j" using heldD(7) [OF s1(2,3)] s2(7) by auto
  have hi: "held i a s2" by (rule held_other [OF s2(2) s1(3) s2(6) ij s1(2)])
  have gi: "getbuf i s2 = getbuf i s1" using s2(6) ij heldD(1) [OF s1(2,3)] by (simp add: others_same_def)
  have gj: "getbuf j s1 = getbuf j s" using s1(6) ij heldD(1) [OF s2(2,3)] by (simp add: others_same_def)
  have fr: "\<forall>k < NBUF. k \<noteq> i \<longrightarrow> k \<noteq> j \<longrightarrow> getbuf k s2 = getbuf k s"
    using s1(6) s2(6) by (simp add: others_same_def)
  have "has B_DIRTY (getbuf i s2) \<or> cview s a = blocks (disk s) a"
    using clean_view [OF inv quiet_unheld [OF q], of a] s1(9) gi by metis
  moreover have "has B_DIRTY (getbuf j s2) \<or> cview s b = blocks (disk s) b"
    using clean_view [OF s1(2) un] s2(10) s1(4,5) by metis
  ultimately show ?thesis
    using s1 s2 ij hi gi gj fr
    by (intro exI [of _ i] exI [of _ s1] exI [of _ j] exI [of _ s2]) (simp del: flag_bits)
qed

lemma copy_held:
  assumes inv: "io_inv me s" and hs: "held i a s" and hd: "held j b s" and ij: "i \<noteq> j"
  shows "\<exists>s'. bwrite me j (copy_data i j s) = Ok s' \<and> \<not> berror j s' \<and> io_inv me s' \<and> held i a s' \<and> held j b s' \<and>
    cview s' = (cview s)(b := cview s a) \<and> disk s' = disk_write b (cview s a) (disk s) \<and>
    others_same j s s' \<and> \<not> has B_DIRTY (getbuf j s')"
proof -
  let ?s = "copy_data i j s"
  have len: "length (data (getbuf i s)) = BSIZE" by (rule heldD [OF inv hs])
  note sd = set_data_held [OF inv hd len, folded copy_data_def]
  have va: "cview s a = data (getbuf i s)" by (rule heldD [OF inv hs])
  have dk: "disk ?s = disk s" by (simp add: copy_data_def)
  obtain s' where s': "bwrite me j ?s = Ok s'" "io_inv me s'" "held j b s'" "cview s' = cview ?s"
    "disk s' = disk_write b (cview ?s b) (disk ?s)" "others_same j ?s s'" "\<not> has B_DIRTY (getbuf j s')" "\<not> berror j s'"
    using bwrite_held [OF sd(1,2)] by blast
  have o: "others_same j s s'" by (rule others_trans [OF sd(4) s'(6)])
  have "held i a s'" by (rule held_other [OF s'(2) hs o ij inv])
  then show ?thesis using s' o sd(3) va dk by (intro exI [of _ s']) simp
qed

lemma brelse_pair:
  assumes inv: "io_inv me s" and h: "held i a s" "held j b s" "i \<noteq> j"
    and coh: "has B_DIRTY (getbuf i s) \<or> cview s a = blocks (disk s) a"
      "has B_DIRTY (getbuf j s) \<or> cview s b = blocks (disk s) b"
  shows "\<exists>s1 s2. brelse me i s = Ok s1 \<and> brelse me j s1 = Ok s2 \<and> io_inv me s2 \<and> cview s2 = cview s \<and> disk s2 = disk s \<and>
    (\<forall>k < NBUF. k \<noteq> i \<longrightarrow> k \<noteq> j \<longrightarrow> getbuf k s2 = getbuf k s) \<and>
    refcnt (getbuf i s2) = 0 \<and> refcnt (getbuf j s2) = 0 \<and>
    flags (getbuf i s2) = flags (getbuf i s) \<and> flags (getbuf j s2) = flags (getbuf j s)"
proof -
  obtain s1 where s1: "brelse me i s = Ok s1" "io_inv me s1" "cview s1 = cview s" "disk s1 = disk s"
    "others_same i s s1" "refcnt (getbuf i s1) = 0" "flags (getbuf i s1) = flags (getbuf i s)"
    using brelse_spec [OF inv h(1) coh(1)] by blast
  have hj: "held j b s1" by (rule held_other [OF s1(2) h(2) s1(5) _ inv]) (use h(3) in simp)
  have bi: "i < NBUF" "j < NBUF" using heldD(1) [OF inv h(1)] heldD(1) [OF inv h(2)] by auto
  have gj: "getbuf j s1 = getbuf j s" using s1(5) bi h(3) by (simp add: others_same_def)
  then have "has B_DIRTY (getbuf j s1) \<or> cview s1 b = blocks (disk s1) b" using coh(2) s1(3,4) by simp
  from brelse_spec [OF s1(2) hj this] obtain s2 where s2: "brelse me j s1 = Ok s2" "io_inv me s2"
    "cview s2 = cview s1" "disk s2 = disk s1" "others_same j s1 s2" "refcnt (getbuf j s2) = 0"
    "flags (getbuf j s2) = flags (getbuf j s1)" by blast
  have "getbuf i s2 = getbuf i s1" using s2(5) bi h(3) by (simp add: others_same_def)
  moreover have "\<forall>k < NBUF. k \<noteq> i \<longrightarrow> k \<noteq> j \<longrightarrow> getbuf k s2 = getbuf k s"
    using s1(5) s2(5) by (simp add: others_same_def)
  ultimately show ?thesis
    using s1 s2 gj by (intro exI [of _ s1] exI [of _ s2]) simp
qed

end
