(* ===== verification/Fs_Log.thy ===== *)
theory Fs_Log
  imports Bio
begin

text \<open>
  The write-ahead log of \<open>kernel/fs/log.c\<close> on top of the buffer cache: the header block and its
  byte layout, \<open>commit\<close> and its four phases, recovery, and the reservation discipline of
  \<open>begin_op\<close>, \<open>log_write\<close> and \<open>end_op\<close>. The theorems show that a transaction is atomic with respect
  to crashes between any two block writes, and that a system call that keeps to its reservation
  never overflows the log.
\<close>

subsection \<open>Little-endian words in a block\<close>

definition le32 :: "u32 \<Rightarrow> bytes" where
  "le32 x = map (\<lambda>k. ucast (drop_bit (8 * k) x)) [0..<4]"

definition get32 :: "nat \<Rightarrow> bytes \<Rightarrow> u32" where
  "get32 off bl = ucast (bl ! off) OR push_bit 8 (ucast (bl ! (off + 1))) OR
     push_bit 16 (ucast (bl ! (off + 2))) OR push_bit 24 (ucast (bl ! (off + 3)))"

definition put32 :: "nat \<Rightarrow> u32 \<Rightarrow> bytes \<Rightarrow> bytes" where
  "put32 off x bl = splice off (le32 x) bl"

subsection \<open>The log\<close>

definition MAXOPBLOCKS :: int where "MAXOPBLOCKS = 10"
definition LOGSIZE :: int where "LOGSIZE = 30"

record log =
  lstart :: u32
  lsize :: int
  outstanding :: int
  committing :: bool
  ldev :: u32
  lh_n :: int
  lh_block :: "u32 list"

definition log_bread_checked :: "nat \<Rightarrow> u32 \<Rightarrow> u32 \<Rightarrow> bio \<Rightarrow> (nat \<times> bio) kres" where
  "log_bread_checked me d n s =
     kbind (bread me d n s) (\<lambda>(i, s1). if berror i s1 then Panic ''log: bread io error'' else Ok (i, s1))"

definition log_bwrite_checked :: "nat \<Rightarrow> nat \<Rightarrow> bio \<Rightarrow> bio kres" where
  "log_bwrite_checked me i s =
     kbind (bwrite me i s) (\<lambda>s1. if berror i s1 then Panic ''log: bwrite io error'' else Ok s1)"

definition install_one :: "nat \<Rightarrow> log \<Rightarrow> nat \<Rightarrow> bio \<Rightarrow> bio kres" where
  "install_one me L tail s =
     kbind (log_bread_checked me (ldev L) (lstart L + of_nat tail + 1) s) (\<lambda>(lbuf, s1).
     kbind (log_bread_checked me (ldev L) (lh_block L ! tail) s1) (\<lambda>(dbuf, s2).
     kbind (log_bwrite_checked me dbuf (copy_data lbuf dbuf s2)) (\<lambda>s3.
     kbind (brelse me lbuf s3) (\<lambda>s4. brelse me dbuf s4))))"

definition install_trans :: "nat \<Rightarrow> log \<Rightarrow> bio \<Rightarrow> bio kres" where
  "install_trans me L = kfold (install_one me L) [0..<nat (lh_n L)]"

definition write_log_one :: "nat \<Rightarrow> log \<Rightarrow> nat \<Rightarrow> bio \<Rightarrow> bio kres" where
  "write_log_one me L tail s =
     kbind (log_bread_checked me (ldev L) (lstart L + of_nat tail + 1) s) (\<lambda>(to, s1).
     kbind (log_bread_checked me (ldev L) (lh_block L ! tail) s1) (\<lambda>(from, s2).
     kbind (log_bwrite_checked me to (copy_data from to s2)) (\<lambda>s3.
     kbind (brelse me from s3) (\<lambda>s4. brelse me to s4))))"

definition write_log :: "nat \<Rightarrow> log \<Rightarrow> bio \<Rightarrow> bio kres" where
  "write_log me L = kfold (write_log_one me L) [0..<nat (lh_n L)]"

text \<open>
  The header in its block: \<open>n\<close> and then the block numbers; \<open>write_head\<close> stores the first \<open>n\<close> of them.
  \<open>read_head\<close> trusts the \<open>n\<close> it finds; with \<open>n\<close> beyond the array it would write past the end of
  \<open>log.lh.block\<close>, which has no meaning in C and is an error of the model.
\<close>

definition store_head :: "log \<Rightarrow> bytes \<Rightarrow> bytes" where
  "store_head L bl =
     fold (\<lambda>i b. put32 (4 + 4 * i) (lh_block L ! i) b) [0..<nat (lh_n L)]
       (put32 0 (word_of_int (lh_n L)) bl)"

definition read_head :: "nat \<Rightarrow> log \<Rightarrow> bio \<Rightarrow> (log \<times> bio) kres" where
  "read_head me L s =
     kbind (log_bread_checked me (ldev L) (lstart L) s) (\<lambda>(i, s1).
     let bl = data (getbuf i s1); n = sint (get32 0 bl) in
     if n > LOGSIZE then Panic ''read_head: out of bounds''
     else kbind (brelse me i s1) (\<lambda>s2.
       Ok (L\<lparr>lh_n := n,
            lh_block := map (\<lambda>k. get32 (4 + 4 * k) bl) [0..<nat n] @ drop (nat n) (lh_block L)\<rparr>, s2)))"

definition write_head :: "nat \<Rightarrow> log \<Rightarrow> bio \<Rightarrow> bio kres" where
  "write_head me L s =
     kbind (log_bread_checked me (ldev L) (lstart L) s) (\<lambda>(i, s1).
     kbind (log_bwrite_checked me i (setbuf i ((getbuf i s1)\<lparr>data := store_head L (data (getbuf i s1))\<rparr>) s1))
       (\<lambda>s2. brelse me i s2))"

definition recover_from_log :: "nat \<Rightarrow> log \<Rightarrow> bio \<Rightarrow> (log \<times> bio) kres" where
  "recover_from_log me L s =
     kbind (read_head me L s) (\<lambda>(L1, s1).
     kbind (install_trans me L1 s1) (\<lambda>s2.
     let L2 = L1\<lparr>lh_n := 0\<rparr> in
     kbind (write_head me L2 s2) (\<lambda>s3. Ok (L2, s3))))"

text \<open>\<open>initlog\<close> with the log's place and size as \<open>readsb\<close> delivers them.\<close>

definition initlog :: "nat \<Rightarrow> u32 \<Rightarrow> u32 \<Rightarrow> int \<Rightarrow> log \<Rightarrow> bio \<Rightarrow> (log \<times> bio) kres" where
  "initlog me d logstart nlog L s =
     recover_from_log me (L\<lparr>lstart := logstart, lsize := nlog, ldev := d\<rparr>) s"

definition commit :: "nat \<Rightarrow> log \<Rightarrow> bio \<Rightarrow> (log \<times> bio) kres" where
  "commit me L s =
     (if lh_n L > 0 then
        kbind (write_log me L s) (\<lambda>s1.
        kbind (write_head me L s1) (\<lambda>s2.
        kbind (install_trans me L s2) (\<lambda>s3.
        let L' = L\<lparr>lh_n := 0\<rparr> in
        kbind (write_head me L' s3) (\<lambda>s4. Ok (L', s4)))))
      else Ok (L, s))"

text \<open>
  The three entry points. \<open>begin_op\<close> sleeps (\<open>Blocked\<close>) or reserves; \<open>end_op\<close> says whether the caller
  must commit; \<open>log_write\<close> records the block of a buffer and pins the buffer. The logging calls do
  nothing on other root file systems, the argument \<open>xv6fs\<close>.
\<close>

definition begin_op :: "bool \<Rightarrow> log \<Rightarrow> log kres" where
  "begin_op xv6fs L =
     (if \<not> xv6fs then Ok L
      else if committing L then Blocked
      else if lh_n L + (outstanding L + 1) * MAXOPBLOCKS > LOGSIZE then Blocked
      else Ok (L\<lparr>outstanding := outstanding L + 1\<rparr>))"

definition end_op_enter :: "bool \<Rightarrow> log \<Rightarrow> (bool \<times> log) kres" where
  "end_op_enter xv6fs L =
     (if \<not> xv6fs then Ok (False, L)
      else let L1 = L\<lparr>outstanding := outstanding L - 1\<rparr> in
        if committing L1 then Panic ''log.committing''
        else if outstanding L1 = 0 then Ok (True, L1\<lparr>committing := True\<rparr>)
        else Ok (False, L1))"

definition end_op_leave :: "log \<Rightarrow> log" where
  "end_op_leave L = L\<lparr>committing := False\<rparr>"

definition end_op :: "bool \<Rightarrow> nat \<Rightarrow> log \<Rightarrow> bio \<Rightarrow> (log \<times> bio) kres" where
  "end_op xv6fs me L s =
     kbind (end_op_enter xv6fs L) (\<lambda>(do_commit, L1).
     if do_commit then kbind (commit me L1 s) (\<lambda>(L2, s2). Ok (end_op_leave L2, s2))
     else Ok (L1, s))"

definition log_record :: "u32 \<Rightarrow> log \<Rightarrow> log kres" where
  "log_record b L =
     (if lh_n L \<ge> LOGSIZE \<or> lh_n L \<ge> lsize L - 1 then Panic ''too big a transaction''
      else if outstanding L < 1 then Panic ''log_write outside of trans''
      else let i = (case first_index (\<lambda>x. x = b) (take (nat (lh_n L)) (lh_block L)) of
                      Some i \<Rightarrow> i | None \<Rightarrow> nat (lh_n L));
               L1 = L\<lparr>lh_block := (lh_block L)[i := b]\<rparr>
           in Ok (if int i = lh_n L then L1\<lparr>lh_n := lh_n L + 1\<rparr> else L1))"

definition log_write :: "nat \<Rightarrow> log \<Rightarrow> bio \<Rightarrow> (log \<times> bio) kres" where
  "log_write i L s =
     kbind (log_record (blockno (getbuf i s)) L) (\<lambda>L1.
     Ok (L1, setbuf i ((getbuf i s)\<lparr>flags := flags (getbuf i s) OR B_DIRTY\<rparr>) s))"

subsection \<open>One copy through the cache\<close>

text \<open>The effect of copying block \<open>a\<close> over block \<open>b\<close> and writing it out.\<close>

definition copied_block :: "nat \<Rightarrow> u32 \<Rightarrow> u32 \<Rightarrow> bio \<Rightarrow> bio \<Rightarrow> bool" where
  "copied_block me a b s s' \<longleftrightarrow> quiet me s' \<and> cview s' = (cview s)(b := cview s a) \<and>
     disk s' = disk_write b (cview s a) (disk s) \<and> free_bufs s \<subseteq> free_bufs s'"

lemma copied_blockI:
  assumes q: "quiet me s" and ij: "i < NBUF" "j < NBUF"
    and inv: "io_inv me s'" and fr: "\<forall>k < NBUF. k \<noteq> i \<longrightarrow> k \<noteq> j \<longrightarrow> getbuf k s' = getbuf k s"
    and r: "refcnt (getbuf i s') = 0" "refcnt (getbuf j s') = 0"
    and cl: "has B_DIRTY (getbuf i s') \<longrightarrow> has B_DIRTY (getbuf i s)" "has B_DIRTY (getbuf j s') \<longrightarrow> has B_DIRTY (getbuf j s)"
    and v: "cview s' = (cview s)(b := cview s a)" "disk s' = disk_write b (cview s a) (disk s)"
  shows "copied_block me a b s s'"
proof -
  have "refcnt (getbuf k s') = 0" if "k < NBUF" for k
    using that fr r q by (cases "k = i \<or> k = j") (auto simp: quiet_def)
  then have "quiet me s'" using inv by (simp add: quiet_def)
  moreover have "free_bufs s \<subseteq> free_bufs s'"
    by (rule free_bufs_mono [of "{i, j}"]) (use fr r cl ij in \<open>auto simp: free_bufs_def\<close>)
  ultimately show ?thesis using v by (simp add: copied_block_def)
qed

lemma install_one_spec:
  assumes q: "quiet me s" and d: "ldev L = 1" and fr: "2 \<le> card (free_bufs s)"
    and ab: "a = lstart L + of_nat tail + 1" "b = lh_block L ! tail" "a \<noteq> b"
      "a < disksize (disk s)" "b < disksize (disk s)"
  shows "\<exists>s'. install_one me L tail s = Ok s' \<and> copied_block me a b s s'"
proof -
  obtain i s1 j s2 where r: "bread me 1 a s = Ok (i, s1)" "\<not> berror i s1" "bread me 1 b s1 = Ok (j, s2)"
    "\<not> berror j s2" "io_inv me s2" "held i a s2" "held j b s2" "i \<noteq> j" "cview s2 = cview s" "disk s2 = disk s"
    "\<forall>k < NBUF. k \<noteq> i \<longrightarrow> k \<noteq> j \<longrightarrow> getbuf k s2 = getbuf k s"
    "has B_DIRTY (getbuf i s2) \<longrightarrow> has B_DIRTY (getbuf i s)"
    "has B_DIRTY (getbuf i s2) \<or> cview s a = blocks (disk s) a"
    using bread_pair [OF q ab(3-5) fr] by blast
  obtain s3 where w: "bwrite me j (copy_data i j s2) = Ok s3" "\<not> berror j s3" "io_inv me s3" "held i a s3"
    "held j b s3" "cview s3 = (cview s)(b := cview s a)" "disk s3 = disk_write b (cview s a) (disk s)"
    "others_same j s2 s3" "\<not> has B_DIRTY (getbuf j s3)"
    using copy_held [OF r(5-8)] r(9,10) by auto
  have n: "i < NBUF" "j < NBUF" using heldD(1) [OF r(5,6)] heldD(1) [OF r(5,7)] by auto
  have gi: "getbuf i s3 = getbuf i s2" using w(8) n r(8) by (simp add: others_same_def)
  have coh: "has B_DIRTY (getbuf i s3) \<or> cview s3 a = blocks (disk s3) a"
    "has B_DIRTY (getbuf j s3) \<or> cview s3 b = blocks (disk s3) b"
    using r(13) gi w(6,7) ab(3) by (auto simp: disk_write_def)
  obtain s4 s5 where e: "brelse me i s3 = Ok s4" "brelse me j s4 = Ok s5" "io_inv me s5" "cview s5 = cview s3"
    "disk s5 = disk s3" "\<forall>k < NBUF. k \<noteq> i \<longrightarrow> k \<noteq> j \<longrightarrow> getbuf k s5 = getbuf k s3"
    "refcnt (getbuf i s5) = 0" "refcnt (getbuf j s5) = 0" "flags (getbuf i s5) = flags (getbuf i s3)"
    "flags (getbuf j s5) = flags (getbuf j s3)"
    using brelse_pair [OF w(3-5) r(8) coh] by blast
  have "install_one me L tail s = Ok s5"
    using r w(1,2) e d unfolding ab(1,2) [symmetric]
    by (simp add: install_one_def log_bread_checked_def log_bwrite_checked_def flip: ab(1,2))
  moreover have "copied_block me a b s s5"
    by (rule copied_blockI [OF q n e(3)]) (use r w e gi in \<open>auto simp: others_same_def\<close>)
  ultimately show ?thesis by blast
qed

lemma write_log_one_spec:
  assumes q: "quiet me s" and d: "ldev L = 1" and fr: "2 \<le> card (free_bufs s)"
    and ab: "a = lstart L + of_nat tail + 1" "b = lh_block L ! tail" "a \<noteq> b"
      "a < disksize (disk s)" "b < disksize (disk s)"
  shows "\<exists>s'. write_log_one me L tail s = Ok s' \<and> copied_block me b a s s'"
proof -
  obtain i s1 j s2 where r: "bread me 1 a s = Ok (i, s1)" "\<not> berror i s1" "bread me 1 b s1 = Ok (j, s2)"
    "\<not> berror j s2" "io_inv me s2" "held i a s2" "held j b s2" "i \<noteq> j" "cview s2 = cview s" "disk s2 = disk s"
    "\<forall>k < NBUF. k \<noteq> i \<longrightarrow> k \<noteq> j \<longrightarrow> getbuf k s2 = getbuf k s"
    "has B_DIRTY (getbuf j s2) \<longrightarrow> has B_DIRTY (getbuf j s)"
    "has B_DIRTY (getbuf j s2) \<or> cview s b = blocks (disk s) b"
    using bread_pair [OF q ab(3-5) fr] by blast
  obtain s3 where w: "bwrite me i (copy_data j i s2) = Ok s3" "\<not> berror i s3" "io_inv me s3" "held j b s3"
    "held i a s3" "cview s3 = (cview s)(a := cview s b)" "disk s3 = disk_write a (cview s b) (disk s)"
    "others_same i s2 s3" "\<not> has B_DIRTY (getbuf i s3)"
    using copy_held [OF r(5,7,6)] r(8,9,10) by auto
  have n: "i < NBUF" "j < NBUF" using heldD(1) [OF r(5,6)] heldD(1) [OF r(5,7)] by auto
  have gj: "getbuf j s3 = getbuf j s2" using w(8) n r(8) by (simp add: others_same_def)
  have coh: "has B_DIRTY (getbuf j s3) \<or> cview s3 b = blocks (disk s3) b"
    "has B_DIRTY (getbuf i s3) \<or> cview s3 a = blocks (disk s3) a"
    using r(13) gj w(6,7) ab(3) by (auto simp: disk_write_def)
  obtain s4 s5 where e: "brelse me j s3 = Ok s4" "brelse me i s4 = Ok s5" "io_inv me s5" "cview s5 = cview s3"
    "disk s5 = disk s3" "\<forall>k < NBUF. k \<noteq> j \<longrightarrow> k \<noteq> i \<longrightarrow> getbuf k s5 = getbuf k s3"
    "refcnt (getbuf j s5) = 0" "refcnt (getbuf i s5) = 0" "flags (getbuf j s5) = flags (getbuf j s3)"
    "flags (getbuf i s5) = flags (getbuf i s3)"
    using brelse_pair [OF w(3-5) r(8) [symmetric] coh] by blast
  have "write_log_one me L tail s = Ok s5"
    using r w(1,2) e d
    by (simp add: write_log_one_def log_bread_checked_def log_bwrite_checked_def flip: ab(1,2))
  moreover have "copied_block me b a s s5"
    by (rule copied_blockI [OF q n e(3)]) (use r w e gj in \<open>auto simp: others_same_def\<close>)
  ultimately show ?thesis by blast
qed

subsection \<open>Sequences of block writes\<close>

definition apply_writes :: "(u32 \<times> block) list \<Rightarrow> (u32 \<Rightarrow> block) \<Rightarrow> u32 \<Rightarrow> block" where
  "apply_writes ws f = fold (\<lambda>(n, b) g. g(n := b)) ws f"

lemma apply_writes_simps [simp]:
  "apply_writes [] f = f" "apply_writes (w # ws) f = apply_writes ws (f(fst w := snd w))"
  "apply_writes (ws @ ws') f = apply_writes ws' (apply_writes ws f)"
  by (auto simp: apply_writes_def split: prod.splits)

lemma apply_writes_notin: "b \<notin> fst ` set ws \<Longrightarrow> apply_writes ws f b = f b"
  by (induction ws arbitrary: f) auto

lemma apply_writes_eq:
  assumes "\<And>v. (b, v) \<in> set ws \<Longrightarrow> v = x" "b \<in> fst ` set ws \<or> f b = x"
  shows "apply_writes ws f b = x"
  using assms
proof (induction ws arbitrary: f)
  case Nil
  then show ?case by simp
next
  case (Cons w ws)
  have 1: "\<And>v. (b, v) \<in> set ws \<Longrightarrow> v = x" using Cons.prems(1) by simp
  have 2: "fst w = b \<Longrightarrow> snd w = x" using Cons.prems(1) [of "snd w"] by (metis list.set_intros(1) prod.collapse)
  have 3: "b \<in> fst ` set ws \<or> (f(fst w := snd w)) b = x" using Cons.prems(2) 2 by auto
  show ?case using Cons.IH [of "f(fst w := snd w)", OF 1 3] by (simp only: apply_writes_simps)
qed

definition ran :: "nat \<Rightarrow> (u32 \<times> block) list \<Rightarrow> bio \<Rightarrow> bio \<Rightarrow> bool" where
  "ran me ws s s' \<longleftrightarrow> quiet me s' \<and> cview s' = apply_writes ws (cview s) \<and>
     blocks (disk s') = apply_writes ws (blocks (disk s)) \<and> writes (disk s') = writes (disk s) @ ws \<and>
     disksize (disk s') = disksize (disk s) \<and> card (free_bufs s) \<le> card (free_bufs s')"

lemma ran_refl: "quiet me s \<Longrightarrow> ran me [] s s"
  by (simp add: ran_def)

lemma ran_trans: "ran me ws s s' \<Longrightarrow> ran me ws' s' s'' \<Longrightarrow> ran me (ws @ ws') s s''"
  by (auto simp: ran_def)

lemma copied_block_ran:
  assumes "copied_block me a b s s'"
  shows "ran me [(b, cview s a)] s s'"
proof -
  have "finite (free_bufs s')" by (simp add: free_bufs_def)
  then show ?thesis
    using assms card_mono [of "free_bufs s'" "free_bufs s"]
    by (simp add: ran_def copied_block_def disk_write_def)
qed

subsection \<open>The geometry of the log\<close>

definition in_log :: "log \<Rightarrow> u32 \<Rightarrow> bool" where
  "in_log L n \<longleftrightarrow> unat (lstart L) \<le> unat n \<and> int (unat n) < int (unat (lstart L)) + lsize L"

definition logblk :: "log \<Rightarrow> nat \<Rightarrow> u32" where
  "logblk L k = lstart L + of_nat k + 1"

definition wf_log :: "u32 \<Rightarrow> log \<Rightarrow> bool" where
  "wf_log sz L \<longleftrightarrow> ldev L = 1 \<and> int (unat (lstart L)) + lsize L \<le> int (unat sz) \<and>
     0 \<le> lh_n L \<and> lh_n L \<le> 30 \<and> lh_n L < lsize L \<and> length (lh_block L) = 30 \<and>
     (\<forall>k < nat (lh_n L). \<not> in_log L (lh_block L ! k) \<and> lh_block L ! k < sz)"

lemma logblk_props:
  assumes "wf_log sz L" "int k + 1 < lsize L"
  shows "unat (logblk L k) = unat (lstart L) + k + 1" "in_log L (logblk L k)" "logblk L k < sz"
    "logblk L k \<noteq> lstart L"
proof -
  note [simp del] = of_nat_unat
  have b: "int (unat (lstart L)) + lsize L \<le> int (unat sz)" "unat sz < 2 ^ 32"
    using assms(1) unat_bound [of sz] by (auto simp: wf_log_def)
  then have kb: "unat (lstart L) + k + 1 < unat sz" using assms(2) by linarith
  have eq: "logblk L k = lstart L + of_nat (k + 1)" by (simp add: logblk_def)
  have "k + 1 < 2 ^ 32" using kb b(2) by linarith
  then have u: "unat (of_nat (k + 1) :: u32) = k + 1" by (intro unat_of_nat_len) simp
  have "unat (lstart L + of_nat (k + 1)) = unat (lstart L) + unat (of_nat (k + 1) :: u32)"
    unfolding u by (subst unat_add_no_wrap) (use kb b(2) u in simp_all)
  then show e: "unat (logblk L k) = unat (lstart L) + k + 1"
    unfolding eq u by simp
  then show "in_log L (logblk L k)" "logblk L k < sz" "logblk L k \<noteq> lstart L"
    using kb assms(2) by (auto simp: in_log_def word_less_nat_alt)
qed

lemma logblk_inj:
  assumes "wf_log sz L" "int j + 1 < lsize L" "int k + 1 < lsize L" "logblk L j = logblk L k"
  shows "j = k"
  using logblk_props(1) [OF assms(1,2), unfolded assms(4)] logblk_props(1) [OF assms(1,3)] by simp

lemma in_log_start: "0 < lsize L \<Longrightarrow> in_log L (lstart L)"
  by (simp add: in_log_def)

lemma wf_log_size: "wf_log sz L \<Longrightarrow> 0 < lsize L" "wf_log sz L \<Longrightarrow> k < nat (lh_n L) \<Longrightarrow> int k + 1 < lsize L"
  by (auto simp: wf_log_def)

lemma wf_log_start: "wf_log sz L \<Longrightarrow> in_log L (lstart L)" "wf_log sz L \<Longrightarrow> lstart L < sz"
  by (simp_all add: in_log_def wf_log_def word_less_nat_alt del: of_nat_unat)

subsection \<open>The phases of a commit\<close>

lemma write_log_fold:
  assumes q: "quiet me s" and wf: "wf_log (disksize (disk s)) L" and fr: "2 \<le> card (free_bufs s)"
    and m: "m \<le> nat (lh_n L)"
  shows "\<exists>s'. kfold (write_log_one me L) [0..<m] s = Ok s' \<and>
    ran me (map (\<lambda>k. (logblk L k, cview s (lh_block L ! k))) [0..<m]) s s'"
  using m
proof (induction m)
  case 0
  then show ?case using ran_refl [OF q] by simp
next
  case (Suc m)
  then obtain s1 where s1: "kfold (write_log_one me L) [0..<m] s = Ok s1"
    "ran me (map (\<lambda>k. (logblk L k, cview s (lh_block L ! k))) [0..<m]) s s1" by auto
  have m: "m < nat (lh_n L)" "int m + 1 < lsize L" using Suc.prems wf_log_size(2) [OF wf] by auto
  note lp = logblk_props [OF wf m(2)]
  have home: "\<not> in_log L (lh_block L ! m)" "lh_block L ! m < disksize (disk s)"
    using wf m by (auto simp: wf_log_def)
  have d1: "disksize (disk s1) = disksize (disk s)" "quiet me s1" "2 \<le> card (free_bufs s1)"
    using s1(2) fr by (auto simp: ran_def)
  have "\<exists>s'. write_log_one me L m s1 = Ok s' \<and> copied_block me (lh_block L ! m) (logblk L m) s1 s'"
    by (rule write_log_one_spec [OF d1(2)])
      (use wf home lp d1 in \<open>auto simp: logblk_def wf_log_def\<close>)
  then obtain s2 where s2: "write_log_one me L m s1 = Ok s2"
    "copied_block me (lh_block L ! m) (logblk L m) s1 s2" by blast
  have "lh_block L ! m \<notin> fst ` set (map (\<lambda>k. (logblk L k, cview s (lh_block L ! k))) [0..<m])"
  proof
    assume "lh_block L ! m \<in> fst ` set (map (\<lambda>k. (logblk L k, cview s (lh_block L ! k))) [0..<m])"
    then obtain k where "k < m" "lh_block L ! m = logblk L k" by auto
    with logblk_props(2) [OF wf, of k] home(1) m(2) show False by simp
  qed
  then have v: "cview s1 (lh_block L ! m) = cview s (lh_block L ! m)"
    using s1(2) apply_writes_notin by (simp add: ran_def)
  from ran_trans [OF s1(2) copied_block_ran [OF s2(2)]] show ?case
    using s1(1) s2(1) v by (auto simp: kfold_append)
qed

lemma install_fold:
  assumes q: "quiet me s" and wf: "wf_log (disksize (disk s)) L" and fr: "2 \<le> card (free_bufs s)"
    and m: "m \<le> nat (lh_n L)"
  shows "\<exists>s'. kfold (install_one me L) [0..<m] s = Ok s' \<and>
    ran me (map (\<lambda>k. (lh_block L ! k, cview s (logblk L k))) [0..<m]) s s'"
  using m
proof (induction m)
  case 0
  then show ?case using ran_refl [OF q] by simp
next
  case (Suc m)
  then obtain s1 where s1: "kfold (install_one me L) [0..<m] s = Ok s1"
    "ran me (map (\<lambda>k. (lh_block L ! k, cview s (logblk L k))) [0..<m]) s s1" by auto
  have m: "m < nat (lh_n L)" "int m + 1 < lsize L" using Suc.prems wf_log_size(2) [OF wf] by auto
  note lp = logblk_props [OF wf m(2)]
  have home: "\<not> in_log L (lh_block L ! k) \<and> lh_block L ! k < disksize (disk s)" if "k \<le> m" for k
    using wf m that by (auto simp: wf_log_def)
  have d1: "disksize (disk s1) = disksize (disk s)" "quiet me s1" "2 \<le> card (free_bufs s1)"
    using s1(2) fr by (auto simp: ran_def)
  have "\<exists>s'. install_one me L m s1 = Ok s' \<and> copied_block me (logblk L m) (lh_block L ! m) s1 s'"
    by (rule install_one_spec [OF d1(2)])
      (use wf home [of m] lp d1 in \<open>auto simp: logblk_def wf_log_def\<close>)
  then obtain s2 where s2: "install_one me L m s1 = Ok s2"
    "copied_block me (logblk L m) (lh_block L ! m) s1 s2" by blast
  have "logblk L m \<notin> fst ` set (map (\<lambda>k. (lh_block L ! k, cview s (logblk L k))) [0..<m])"
    using home lp(2) by force
  then have v: "cview s1 (logblk L m) = cview s (logblk L m)"
    using s1(2) apply_writes_notin by (simp add: ran_def)
  from ran_trans [OF s1(2) copied_block_ran [OF s2(2)]] show ?case
    using s1(1) s2(1) v by (auto simp: kfold_append)
qed

text \<open>The header block, written and read back.\<close>

lemma length_le32 [simp]: "length (le32 x) = 4"
  by (simp add: le32_def)

lemma join_bytes:
  "(ucast (ucast x :: u8) OR push_bit 8 (ucast (ucast (drop_bit 8 x) :: u8)) OR
    push_bit 16 (ucast (ucast (drop_bit 16 x) :: u8)) OR
    push_bit 24 (ucast (ucast (drop_bit 24 x) :: u8)) :: u32) = x" (is "?l = x")
proof (rule word_eq_bitI)
  fix n :: nat assume "n < LENGTH(32)"
  then consider "n < 8" | "8 \<le> n" "n < 16" | "16 \<le> n" "n < 24" | "24 \<le> n" "n < 32" by fastforce
  then show "bit ?l n = bit x n" by cases (auto simp: bit_simps less_diff_conv2)
qed

lemma load_store_same:
  assumes "off + 4 \<le> length bl"
  shows "get32 off (put32 off x bl) = x"
proof -
  have n: "put32 off x bl ! (off + k) = ucast (drop_bit (8 * k) x)" if "k < 4" for k
    using assms that by (simp add: put32_def nth_splice le32_def)
  have "get32 off (put32 off x bl) = ucast (ucast x :: u8) OR push_bit 8 (ucast (ucast (drop_bit 8 x) :: u8)) OR
      push_bit 16 (ucast (ucast (drop_bit 16 x) :: u8)) OR push_bit 24 (ucast (ucast (drop_bit 24 x) :: u8))"
    using n [of 0] n [of 1] n [of 2] n [of 3] by (simp add: get32_def)
  also have "\<dots> = x" by (rule join_bytes)
  finally show ?thesis .
qed

lemma load_store_other:
  assumes "off + 4 \<le> length bl" "off' + 4 \<le> length bl" "off' + 4 \<le> off \<or> off + 4 \<le> off'"
  shows "get32 off' (put32 off x bl) = get32 off' bl"
proof -
  have "put32 off x bl ! (off' + k) = bl ! (off' + k)" if "k < 4" for k
    using assms that by (auto simp: put32_def nth_splice)
  from this [of 0] this [of 1] this [of 2] this [of 3] show ?thesis by (simp add: get32_def)
qed

lemma length_put32: "off + 4 \<le> length bl \<Longrightarrow> length (put32 off x bl) = length bl"
  by (simp add: put32_def)

lemma store_entries:
  assumes "length bl = 512" "m \<le> 30"
  shows "length (fold (\<lambda>i b. put32 (4 + 4 * i) (xs ! i) b) [0..<m] bl) = 512 \<and>
    get32 0 (fold (\<lambda>i b. put32 (4 + 4 * i) (xs ! i) b) [0..<m] bl) = get32 0 bl \<and>
    (\<forall>k < m. get32 (4 + 4 * k) (fold (\<lambda>i b. put32 (4 + 4 * i) (xs ! i) b) [0..<m] bl) = xs ! k)"
  using assms(2)
proof (induction m)
  case 0
  then show ?case using assms by simp
next
  case (Suc m)
  let ?b = "fold (\<lambda>i b. put32 (4 + 4 * i) (xs ! i) b) [0..<m] bl"
  have ih: "length ?b = 512" "get32 0 ?b = get32 0 bl" "\<forall>k < m. get32 (4 + 4 * k) ?b = xs ! k"
    using Suc by auto
  have fits: "4 + 4 * m + 4 \<le> length ?b" using ih(1) Suc.prems by simp
  have "get32 (4 + 4 * k) (put32 (4 + 4 * m) (xs ! m) ?b) = xs ! k" if "k < Suc m" for k
  proof (cases "k = m")
    case True
    then show ?thesis using load_store_same [OF fits] by simp
  next
    case False
    with that have "4 + 4 * k + 4 \<le> 4 + 4 * m" by simp
    then show ?thesis using load_store_other [OF fits, of "4 + 4 * k"] fits ih(3) that False by simp
  qed
  moreover have "get32 0 (put32 (4 + 4 * m) (xs ! m) ?b) = get32 0 bl"
    using load_store_other [OF fits, of 0] fits ih(2) by simp
  ultimately show ?case using length_put32 [OF fits] ih(1) by simp
qed

lemma store_head_load:
  assumes "length bl = 512" "0 \<le> lh_n L" "lh_n L \<le> 30"
  shows "length (store_head L bl) = 512" "sint (get32 0 (store_head L bl)) = lh_n L"
    "k < nat (lh_n L) \<Longrightarrow> get32 (4 + 4 * k) (store_head L bl) = lh_block L ! k"
proof -
  have "length (put32 0 (word_of_int (lh_n L)) bl) = 512" using assms by (simp add: length_put32)
  note se = store_entries [OF this, of "nat (lh_n L)" "lh_block L", folded store_head_def]
  show "length (store_head L bl) = 512" "k < nat (lh_n L) \<Longrightarrow> get32 (4 + 4 * k) (store_head L bl) = lh_block L ! k"
    using se assms by auto
  have "get32 0 (store_head L bl) = word_of_int (lh_n L)"
    using se assms load_store_same [of 0 bl] by simp
  moreover have "unat (word_of_int (lh_n L) :: u32) = nat (lh_n L)"
    by (rule word_of_int_nonneg) (use assms in auto)
  ultimately show "sint (get32 0 (store_head L bl)) = lh_n L"
    using assms by (simp add: sint_u32 del: of_nat_unat)
qed

lemma write_head_spec:
  assumes q: "quiet me s" and wf: "wf_log (disksize (disk s)) L" and fr: "2 \<le> card (free_bufs s)"
  shows "\<exists>s'. write_head me L s = Ok s' \<and> ran me [(lstart L, store_head L (cview s (lstart L)))] s s'"
proof -
  let ?a = "lstart L" and ?x = "store_head L (cview s (lstart L))"
  have inv: "io_inv me s" using q by (simp add: quiet_def)
  have ne: "free_bufs s \<noteq> {}" using fr by auto
  have a: "?a < disksize (disk s)" "ldev L = 1" "0 \<le> lh_n L" "lh_n L \<le> 30"
    using wf wf_log_start(2) [OF wf] by (auto simp: wf_log_def)
  obtain i s1 where s1: "bread me 1 ?a s = Ok (i, s1)" "io_inv me s1" "held i ?a s1" "cview s1 = cview s"
    "disk s1 = disk s" "others_same i s s1" "has B_DIRTY (getbuf i s1) \<longrightarrow> has B_DIRTY (getbuf i s)" "\<not> berror i s1"
    using bread_spec [OF inv quiet_unheld [OF q] ne a(1)] by blast
  note hd = heldD [OF s1(2,3)]
  have dat: "data (getbuf i s1) = cview s ?a" using hd(11) s1(4) by simp
  have len: "length ?x = BSIZE"
    using store_head_load(1) [of "cview s ?a" L] a hd(10) dat by (simp add: BSIZE_def)
  note sd = set_data_held [OF s1(2,3) len]
  let ?s2 = "setbuf i ((getbuf i s1)\<lparr>data := ?x\<rparr>) s1"
  obtain s3 where s3: "bwrite me i ?s2 = Ok s3" "io_inv me s3" "held i ?a s3" "cview s3 = cview ?s2"
    "disk s3 = disk_write ?a (cview ?s2 ?a) (disk ?s2)" "others_same i ?s2 s3" "\<not> has B_DIRTY (getbuf i s3)"
    "\<not> berror i s3" using bwrite_held [OF sd(1,2)] by blast
  have d3: "disk s3 = disk_write ?a ?x (disk s)" "cview s3 = (cview s)(?a := ?x)"
    using s3(4,5) sd(3) s1(4,5) by simp_all
  have coh: "has B_DIRTY (getbuf i s3) \<or> cview s3 ?a = blocks (disk s3) ?a"
    using d3 by (simp add: disk_write_def)
  obtain s4 where s4: "brelse me i s3 = Ok s4" "io_inv me s4" "cview s4 = cview s3" "disk s4 = disk s3"
    "others_same i s3 s4" "refcnt (getbuf i s4) = 0" "flags (getbuf i s4) = flags (getbuf i s3)"
    using brelse_spec [OF s3(2,3) coh] by blast
  have o: "\<forall>k < NBUF. k \<noteq> i \<longrightarrow> getbuf k s4 = getbuf k s"
    using s1(6) sd(4) s3(6) s4(5) by (simp add: others_same_def)
  have "refcnt (getbuf k s4) = 0" if "k < NBUF" for k
    using that o s4(6) q by (cases "k = i") (auto simp: quiet_def)
  then have q4: "quiet me s4" using s4(2) by (simp add: quiet_def)
  have "free_bufs s \<subseteq> free_bufs s4"
    by (rule free_bufs_mono [of "{i}"]) (use o s4(6,7) s3(7) in \<open>auto simp: free_bufs_def\<close>)
  then have "card (free_bufs s) \<le> card (free_bufs s4)"
    by (intro card_mono) (simp_all add: free_bufs_def)
  then have "ran me [(?a, ?x)] s s4"
    using q4 d3 s4(3,4) by (simp add: ran_def disk_write_def)
  moreover have "write_head me L s = Ok s4"
    using s1(1,8) s3(1,8) s4(1) a(2) dat
    by (simp add: write_head_def log_bread_checked_def log_bwrite_checked_def)
  ultimately show ?thesis by blast
qed

text \<open>All block writes of a commit, in order, from the view \<open>V\<close> of the blocks.\<close>

definition log_writes :: "log \<Rightarrow> (u32 \<Rightarrow> block) \<Rightarrow> (u32 \<times> block) list" where
  "log_writes L V = map (\<lambda>k. (logblk L k, V (lh_block L ! k))) [0..<nat (lh_n L)]"

definition home_writes :: "log \<Rightarrow> (u32 \<Rightarrow> block) \<Rightarrow> (u32 \<times> block) list" where
  "home_writes L V = map (\<lambda>k. (lh_block L ! k, V (lh_block L ! k))) [0..<nat (lh_n L)]"

definition commit_writes :: "log \<Rightarrow> (u32 \<Rightarrow> block) \<Rightarrow> (u32 \<times> block) list" where
  "commit_writes L V = log_writes L V @ [(lstart L, store_head L (V (lstart L)))] @
     home_writes L V @ [(lstart L, store_head (L\<lparr>lh_n := 0\<rparr>) (store_head L (V (lstart L))))]"

lemma log_writes_view:
  assumes wf: "wf_log sz L"
  shows "k < nat (lh_n L) \<Longrightarrow> apply_writes (log_writes L V) f (logblk L k) = V (lh_block L ! k)"
    and "\<not> in_log L b \<or> b = lstart L \<Longrightarrow> apply_writes (log_writes L V) f b = f b"
proof -
  note n = wf_log_size(2) [OF wf]
  show "apply_writes (log_writes L V) f (logblk L k) = V (lh_block L ! k)" if k: "k < nat (lh_n L)"
  proof (rule apply_writes_eq)
    show "v = V (lh_block L ! k)" if v: "(logblk L k, v) \<in> set (log_writes L V)" for v
    proof -
      from v obtain j where j: "j < nat (lh_n L)" "logblk L k = logblk L j" "v = V (lh_block L ! j)"
        by (auto simp: log_writes_def)
      then have "j = k" using logblk_inj [OF wf n n, of j k] k by simp
      with j show ?thesis by simp
    qed
    show "logblk L k \<in> fst ` set (log_writes L V) \<or> f (logblk L k) = V (lh_block L ! k)"
      using k by (force simp: log_writes_def)
  qed
  show "apply_writes (log_writes L V) f b = f b" if b: "\<not> in_log L b \<or> b = lstart L"
  proof (rule apply_writes_notin)
    show "b \<notin> fst ` set (log_writes L V)"
    proof
      assume "b \<in> fst ` set (log_writes L V)"
      then obtain j where "j < nat (lh_n L)" "b = logblk L j" by (auto simp: log_writes_def)
      with logblk_props(2,4) [OF wf n, of j] b show False by auto
    qed
  qed
qed

lemma home_writes_view:
  assumes wf: "wf_log sz L"
  shows "b \<in> set (take (nat (lh_n L)) (lh_block L)) \<Longrightarrow> apply_writes (home_writes L V) f b = V b"
    and "b \<notin> set (take (nat (lh_n L)) (lh_block L)) \<Longrightarrow> apply_writes (home_writes L V) f b = f b"
    and "in_log L b \<Longrightarrow> apply_writes (home_writes L V) f b = f b"
proof -
  have len: "nat (lh_n L) \<le> length (lh_block L)" using wf by (auto simp: wf_log_def)
  have dom: "fst ` set (home_writes L V) = set (take (nat (lh_n L)) (lh_block L))"
    using len by (force simp: home_writes_def set_conv_nth)
  show "apply_writes (home_writes L V) f b = V b" if "b \<in> set (take (nat (lh_n L)) (lh_block L))"
    by (rule apply_writes_eq) (use that dom in \<open>auto simp: home_writes_def\<close>)
  show *: "apply_writes (home_writes L V) f b = f b" if "b \<notin> set (take (nat (lh_n L)) (lh_block L))"
    by (rule apply_writes_notin) (use that dom in simp)
  show "apply_writes (home_writes L V) f b = f b" if "in_log L b"
    using wf that len by (intro *) (auto simp: wf_log_def in_set_conv_nth)
qed

lemma commit_spec:
  assumes q: "quiet me s" and wf: "wf_log (disksize (disk s)) L" and fr: "2 \<le> card (free_bufs s)"
    and n: "0 < lh_n L"
  shows "\<exists>s'. commit me L s = Ok (L\<lparr>lh_n := 0\<rparr>, s') \<and> ran me (commit_writes L (cview s)) s s'"
proof -
  let ?V = "cview s" and ?H = "store_head L (cview s (lstart L))"
  obtain s1 where s1: "write_log me L s = Ok s1" "ran me (log_writes L ?V) s s1"
    using write_log_fold [OF q wf fr order_refl] unfolding write_log_def log_writes_def by blast
  have wf1: "wf_log (disksize (disk s1)) L" "quiet me s1" "2 \<le> card (free_bufs s1)"
    using s1(2) wf fr by (auto simp: ran_def)
  have v1: "cview s1 = apply_writes (log_writes L ?V) ?V" using s1(2) by (simp add: ran_def)
  have h1: "cview s1 (lstart L) = ?V (lstart L)" unfolding v1 by (rule log_writes_view [OF wf]) simp
  obtain s2 where s2: "write_head me L s1 = Ok s2" "ran me [(lstart L, ?H)] s1 s2"
    using write_head_spec [OF wf1(2,1,3)] h1 by auto
  have wf2: "wf_log (disksize (disk s2)) L" "quiet me s2" "2 \<le> card (free_bufs s2)"
    using s2(2) wf1 by (auto simp: ran_def)
  have v2: "cview s2 = (cview s1)(lstart L := ?H)" using s2(2) by (simp add: ran_def)
  have l2: "cview s2 (logblk L k) = ?V (lh_block L ! k)" if "k < nat (lh_n L)" for k
  proof -
    show ?thesis
      using log_writes_view(1) [OF wf that] logblk_props(4) [OF wf wf_log_size(2) [OF wf that]] by (simp add: v1 v2)
  qed
  have "map (\<lambda>k. (lh_block L ! k, cview s2 (logblk L k))) [0..<nat (lh_n L)] = home_writes L ?V"
    using l2 by (simp add: home_writes_def)
  then obtain s3 where s3: "install_trans me L s2 = Ok s3" "ran me (home_writes L ?V) s2 s3"
    using install_fold [OF wf2(2,1,3) order_refl] by (auto simp: install_trans_def)
  have "wf_log (disksize (disk s3)) (L\<lparr>lh_n := 0\<rparr>)" "quiet me s3" "2 \<le> card (free_bufs s3)"
    using s3(2) wf2 by (auto simp: ran_def wf_log_def)
  moreover have "cview s3 (lstart L) = ?H"
    using s3(2) home_writes_view(3) [OF wf wf_log_start(1) [OF wf]] v2 by (simp add: ran_def)
  ultimately obtain s4 where s4: "write_head me (L\<lparr>lh_n := 0\<rparr>) s3 = Ok s4"
    "ran me [(lstart L, store_head (L\<lparr>lh_n := 0\<rparr>) ?H)] s3 s4"
    using write_head_spec [of me s3 "L\<lparr>lh_n := 0\<rparr>"] by auto
  have "ran me (commit_writes L ?V) s s4"
    using ran_trans [OF s1(2) ran_trans [OF s2(2) ran_trans [OF s3(2) s4(2)]]]
    by (simp add: commit_writes_def)
  moreover have "commit me L s = Ok (L\<lparr>lh_n := 0\<rparr>, s4)"
    using n s1(1) s2(1) s3(1) s4(1) by (simp add: commit_def Let_def)
  ultimately show ?thesis by blast
qed

subsection \<open>Recovery\<close>

text \<open>The machine after a crash that left the blocks \<open>D\<close> on the disk.\<close>

definition reboot :: "(u32 \<Rightarrow> block) \<Rightarrow> bio \<Rightarrow> bio" where
  "reboot D s = \<lparr>bc = binit, disk = \<lparr>blocks = D, writes = [], disksize = disksize (disk s)\<rparr>, bdevs = bdevs s\<rparr>"

lemma reboot_quiet:
  assumes "length (bdevs s) = NDEV" "ops (bdevs s ! 1)" "\<not> is_part (bdevs s ! 1)" "\<forall>n. length (D n) = BSIZE"
  shows "quiet me (reboot D s)" "cview (reboot D s) = D" "2 \<le> card (free_bufs (reboot D s))"
    "blocks (disk (reboot D s)) = D" "disksize (disk (reboot D s)) = disksize (disk s)"
proof -
  have b: "getbuf i (reboot D s) = buf0" if "i < NBUF" for i
    using that by (simp add: getbuf_def reboot_def binit_def)
  have "buf_ok me d buf0" for d by (simp add: buf_ok_def buf0_def initsleeplock_def)
  then show "quiet me (reboot D s)"
    using b assms bcache_inv_binit
    by (auto simp: quiet_def io_inv_def) (auto simp: reboot_def buf0_def)
  have "bcache_lookup 1 n binit = None" for n
    using BHASH_bound [of 1 n] by (simp add: bcache_lookup_def binit_def BCACHE_HASH_SIZE_def)
  then show "cview (reboot D s) = D" by (rule_tac ext) (simp add: cview_def reboot_def)
  have "free_bufs (reboot D s) = {..<NBUF}" using b by (auto simp: free_bufs_def buf0_def)
  then show "2 \<le> card (free_bufs (reboot D s))" by (simp add: NBUF_def)
qed (simp_all add: reboot_def)

text \<open>The header a disk carries: the count and the block numbers it names.\<close>

definition head_n :: "block \<Rightarrow> int" where
  "head_n H = sint (get32 0 H)"

definition head_block :: "block \<Rightarrow> nat \<Rightarrow> u32" where
  "head_block H k = get32 (4 + 4 * k) H"

definition wf_head :: "u32 \<Rightarrow> log \<Rightarrow> block \<Rightarrow> bool" where
  "wf_head sz L H \<longleftrightarrow> ldev L = 1 \<and> int (unat (lstart L)) + lsize L \<le> int (unat sz) \<and> length (lh_block L) = 30 \<and>
     0 \<le> head_n H \<and> head_n H \<le> 30 \<and> head_n H < lsize L \<and>
     (\<forall>k < nat (head_n H). \<not> in_log L (head_block H k) \<and> head_block H k < sz)"

lemma read_head_spec:
  assumes q: "quiet me s" and wf: "wf_head (disksize (disk s)) L (cview s (lstart L))"
    and fr: "2 \<le> card (free_bufs s)"
  shows "\<exists>L' s'. read_head me L s = Ok (L', s') \<and> ran me [] s s' \<and> wf_log (disksize (disk s)) L' \<and>
    lstart L' = lstart L \<and> lh_n L' = head_n (cview s (lstart L)) \<and>
    (\<forall>k < nat (lh_n L'). lh_block L' ! k = head_block (cview s (lstart L)) k)"
proof -
  let ?a = "lstart L" and ?H = "cview s (lstart L)"
  have inv: "io_inv me s" using q by (simp add: quiet_def)
  have ne: "free_bufs s \<noteq> {}" using fr by auto
  have a: "?a < disksize (disk s)" "ldev L = 1"
    using wf by (simp_all add: wf_head_def word_less_nat_alt del: of_nat_unat)
  obtain i s1 where s1: "bread me 1 ?a s = Ok (i, s1)" "io_inv me s1" "held i ?a s1" "cview s1 = cview s"
    "disk s1 = disk s" "others_same i s s1" "has B_DIRTY (getbuf i s1) \<longrightarrow> has B_DIRTY (getbuf i s)" "\<not> berror i s1"
    "has B_DIRTY (getbuf i s1) \<longleftrightarrow> ?a \<in> dirty_blocks s"
    using bread_spec [OF inv quiet_unheld [OF q] ne a(1)] by blast
  have dat: "data (getbuf i s1) = ?H" using heldD(11) [OF s1(2,3)] s1(4) by simp
  have coh: "has B_DIRTY (getbuf i s1) \<or> cview s1 ?a = blocks (disk s1) ?a"
    using clean_view [OF inv quiet_unheld [OF q], of ?a] s1(4,5,9) by metis
  obtain s2 where s2: "brelse me i s1 = Ok s2" "io_inv me s2" "cview s2 = cview s1" "disk s2 = disk s1"
    "others_same i s1 s2" "refcnt (getbuf i s2) = 0" "flags (getbuf i s2) = flags (getbuf i s1)"
    using brelse_spec [OF s1(2,3) coh] by blast
  have o: "\<forall>k < NBUF. k \<noteq> i \<longrightarrow> getbuf k s2 = getbuf k s" using s1(6) s2(5) by (simp add: others_same_def)
  have "refcnt (getbuf k s2) = 0" if "k < NBUF" for k
    using that o s2(6) q by (cases "k = i") (auto simp: quiet_def)
  then have q2: "quiet me s2" using s2(2) by (simp add: quiet_def)
  have "free_bufs s \<subseteq> free_bufs s2"
    by (rule free_bufs_mono [of "{i}"]) (use o s2(6,7) s1(7) in \<open>auto simp: free_bufs_def\<close>)
  then have "card (free_bufs s) \<le> card (free_bufs s2)" by (intro card_mono) (simp_all add: free_bufs_def)
  then have r: "ran me [] s s2" using q2 s2 s1 by (simp add: ran_def)
  let ?L = "L\<lparr>lh_n := head_n ?H, lh_block := map (\<lambda>k. get32 (4 + 4 * k) ?H) [0..<nat (head_n ?H)] @
      drop (nat (head_n ?H)) (lh_block L)\<rparr>"
  have "read_head me L s = Ok (?L, s2)"
    using s1(1,8) s2(1) a(2) dat wf
    by (simp add: read_head_def log_bread_checked_def Let_def head_n_def wf_head_def LOGSIZE_def)
  moreover have "wf_log (disksize (disk s)) ?L"
    using wf by (auto simp: wf_head_def wf_log_def head_block_def in_log_def nth_append)
  ultimately show ?thesis using r by (auto simp: head_block_def nth_append)
qed

lemma recover_spec:
  assumes q: "quiet me s" and wf: "wf_head (disksize (disk s)) L (cview s (lstart L))"
    and fr: "2 \<le> card (free_bufs s)"
  shows "\<exists>L' s' x. recover_from_log me L s = Ok (L', s') \<and> lh_n L' = 0 \<and>
    ran me (map (\<lambda>k. (head_block (cview s (lstart L)) k, cview s (logblk L k))) [0..<nat (head_n (cview s (lstart L)))] @
      [(lstart L, x)]) s s'"
proof -
  let ?H = "cview s (lstart L)"
  obtain L1 s1 where s1: "read_head me L s = Ok (L1, s1)" "ran me [] s s1" "wf_log (disksize (disk s)) L1"
    "lstart L1 = lstart L" "lh_n L1 = head_n ?H" "\<forall>k < nat (lh_n L1). lh_block L1 ! k = head_block ?H k"
    using read_head_spec [OF assms] by blast
  have st: "quiet me s1" "wf_log (disksize (disk s1)) L1" "2 \<le> card (free_bufs s1)" "cview s1 = cview s"
    using s1(2,3) fr by (auto simp: ran_def)
  have lb: "logblk L1 k = logblk L k" for k using s1(4) by (simp add: logblk_def)
  have ws: "map (\<lambda>k. (lh_block L1 ! k, cview s1 (logblk L1 k))) [0..<nat (lh_n L1)] =
      map (\<lambda>k. (head_block ?H k, cview s (logblk L k))) [0..<nat (head_n ?H)]"
    using s1(5,6) st(4) lb by simp
  obtain s2 where s2: "install_trans me L1 s1 = Ok s2"
    "ran me (map (\<lambda>k. (head_block ?H k, cview s (logblk L k))) [0..<nat (head_n ?H)]) s1 s2"
    using install_fold [OF st(1-3) order_refl] unfolding ws install_trans_def by blast
  have st2: "quiet me s2" "wf_log (disksize (disk s2)) (L1\<lparr>lh_n := 0\<rparr>)" "2 \<le> card (free_bufs s2)"
    using s2(2) st by (auto simp: ran_def wf_log_def)
  obtain s3 where s3: "write_head me (L1\<lparr>lh_n := 0\<rparr>) s2 = Ok s3"
    "ran me [(lstart L, store_head (L1\<lparr>lh_n := 0\<rparr>) (cview s2 (lstart L)))] s2 s3"
    using write_head_spec [OF st2] s1(4) by auto
  have "recover_from_log me L s = Ok (L1\<lparr>lh_n := 0\<rparr>, s3)"
    using s1(1) s2(1) s3(1) by (simp add: recover_from_log_def Let_def)
  moreover have "ran me (map (\<lambda>k. (head_block ?H k, cview s (logblk L k))) [0..<nat (head_n ?H)] @
      [(lstart L, store_head (L1\<lparr>lh_n := 0\<rparr>) (cview s2 (lstart L)))]) s s3"
    using ran_trans [OF s1(2) ran_trans [OF s2(2) s3(2)]] by simp
  ultimately show ?thesis by fastforce
qed

text \<open>What recovery makes of a disk \<open>D\<close> outside the log.\<close>

lemma recover_home:
  assumes q: "quiet me s" and D: "\<forall>n. length (D n) = BSIZE"
    and wf: "wf_head (disksize (disk s)) L (D (lstart L))"
  shows "\<exists>L' r. recover_from_log me L (reboot D s) = Ok (L', r) \<and> lh_n L' = 0 \<and>
    (\<forall>b. \<not> in_log L b \<longrightarrow> blocks (disk r) b =
      apply_writes (map (\<lambda>k. (head_block (D (lstart L)) k, D (logblk L k))) [0..<nat (head_n (D (lstart L)))]) D b)"
proof -
  have "length (bdevs s) = NDEV" "ops (bdevs s ! 1)" "\<not> is_part (bdevs s ! 1)"
    using q by (auto simp: quiet_def io_inv_def)
  note rb = reboot_quiet [OF this D]
  obtain L' r x where r: "recover_from_log me L (reboot D s) = Ok (L', r)" "lh_n L' = 0"
    "ran me (map (\<lambda>k. (head_block (D (lstart L)) k, D (logblk L k))) [0..<nat (head_n (D (lstart L)))] @
      [(lstart L, x)]) (reboot D s) r"
    using recover_spec [where me = me and L = L, OF rb(1) _ rb(3)] wf rb(2,5) by auto
  have "blocks (disk r) b =
      apply_writes (map (\<lambda>k. (head_block (D (lstart L)) k, D (logblk L k))) [0..<nat (head_n (D (lstart L)))]) D b"
    if "\<not> in_log L b" for b
    using r(3) rb(4) that in_log_start [of L] wf by (auto simp: ran_def wf_head_def)
  with r show ?thesis by blast
qed

lemma cview_length: "io_inv me s \<Longrightarrow> length (cview s n) = BSIZE"
  using bcache_lookup_iff [of "bc s" 1 n]
  by (cases "bcache_lookup 1 n (bc s)") (auto simp: cview_def io_inv_def buf_ok_def)

lemma apply_writes_length:
  "\<forall>n. length (f n) = m \<Longrightarrow> \<forall>w \<in> set ws. length (snd w) = m \<Longrightarrow> length (apply_writes ws f n) = m"
  by (induction ws arbitrary: f) auto

lemma commit_writes_length:
  assumes "io_inv me s" "wf_log sz L"
  shows "\<forall>w \<in> set (commit_writes L (cview s)). length (snd w) = BSIZE"
proof -
  have l: "length (cview s n) = BSIZE" for n by (rule cview_length [OF assms(1)])
  have h: "length (store_head L (cview s (lstart L))) = BSIZE"
    using store_head_load(1) [of "cview s (lstart L)" L] l assms(2) by (simp add: BSIZE_def wf_log_def)
  then have "length (store_head (L\<lparr>lh_n := 0\<rparr>) (store_head L (cview s (lstart L)))) = BSIZE"
    using store_head_load(1) [of "store_head L (cview s (lstart L))" "L\<lparr>lh_n := 0\<rparr>"] by (simp add: BSIZE_def)
  with l h show ?thesis by (auto simp: commit_writes_def log_writes_def home_writes_def)
qed

text \<open>The disk at the three kinds of crash points: before, between and after the header writes.\<close>

lemma notin_take: "b \<notin> fst ` set ws \<Longrightarrow> b \<notin> fst ` set (take p ws)"
  by (meson image_mono set_take_subset subsetD)

lemma log_writes_dom:
  assumes "wf_log sz L" "b \<in> fst ` set (log_writes L V)"
  shows "in_log L b" "b \<noteq> lstart L"
proof -
  obtain k where k: "k < nat (lh_n L)" "b = logblk L k" using assms(2) by (auto simp: log_writes_def)
  from logblk_props(2,4) [OF assms(1) wf_log_size(2) [OF assms(1) k(1)]] k(2) show "in_log L b" "b \<noteq> lstart L" by auto
qed

lemma home_writes_dom:
  assumes "wf_log sz L" "b \<in> fst ` set (home_writes L V)"
  shows "\<not> in_log L b" "b \<in> set (take (nat (lh_n L)) (lh_block L))"
proof -
  obtain k where k: "k < nat (lh_n L)" "b = lh_block L ! k" using assms(2) by (auto simp: home_writes_def)
  moreover have "nat (lh_n L) \<le> length (lh_block L)" using assms(1) by (auto simp: wf_log_def)
  ultimately show "\<not> in_log L b" "b \<in> set (take (nat (lh_n L)) (lh_block L))"
    using assms(1) by (auto simp: wf_log_def in_set_conv_nth)
qed

lemma crash_before:
  assumes "wf_log sz L" "D = apply_writes (take p (log_writes L V)) D0"
  shows "D (lstart L) = D0 (lstart L)" "\<not> in_log L b \<Longrightarrow> D b = D0 b"
  unfolding assms(2)
  by (rule apply_writes_notin, rule notin_take, use log_writes_dom [OF assms(1)] in blast)+

lemma crash_between:
  assumes wf: "wf_log sz L" and D: "D = apply_writes (take p (home_writes L V))
      ((apply_writes (log_writes L V) D0)(lstart L := H))"
    and cl: "\<forall>b. \<not> in_log L b \<longrightarrow> b \<notin> set (take (nat (lh_n L)) (lh_block L)) \<longrightarrow> V b = D0 b"
  shows "D (lstart L) = H" "k < nat (lh_n L) \<Longrightarrow> D (logblk L k) = V (lh_block L ! k)"
    "\<not> in_log L b \<Longrightarrow> apply_writes (home_writes L V) D b = V b"
proof -
  have keep: "D b = ((apply_writes (log_writes L V) D0)(lstart L := H)) b"
    if "in_log L b \<or> b \<notin> set (take (nat (lh_n L)) (lh_block L))" for b
    unfolding D by (rule apply_writes_notin, rule notin_take) (use home_writes_dom [OF wf] that in blast)
  show "D (lstart L) = H" using keep wf_log_start(1) [OF wf] by simp
  show "D (logblk L k) = V (lh_block L ! k)" if k: "k < nat (lh_n L)"
  proof -
    show ?thesis
      using keep logblk_props(2,4) [OF wf wf_log_size(2) [OF wf k]] log_writes_view(1) [OF wf k] by simp
  qed
  show "apply_writes (home_writes L V) D b = V b" if b: "\<not> in_log L b"
  proof (cases "b \<in> set (take (nat (lh_n L)) (lh_block L))")
    case True
    then show ?thesis by (rule home_writes_view(1) [OF wf])
  next
    case False
    then have "apply_writes (home_writes L V) D b = D b" by (rule home_writes_view(2) [OF wf])
    also have "\<dots> = apply_writes (log_writes L V) D0 b" using keep False b wf_log_start(1) [OF wf] by auto
    also have "\<dots> = D0 b" using log_writes_view(2) [OF wf] b by blast
    finally show ?thesis using cl b False by simp
  qed
qed

lemma crash_after:
  assumes wf: "wf_log sz L" and D: "D = apply_writes (commit_writes L V) D0"
    and cl: "\<forall>b. \<not> in_log L b \<longrightarrow> b \<notin> set (take (nat (lh_n L)) (lh_block L)) \<longrightarrow> V b = D0 b"
  shows "D (lstart L) = store_head (L\<lparr>lh_n := 0\<rparr>) (store_head L (V (lstart L)))" "\<not> in_log L b \<Longrightarrow> D b = V b"
proof -
  let ?E = "(apply_writes (log_writes L V) D0)(lstart L := store_head L (V (lstart L)))"
  have d: "D = (apply_writes (home_writes L V) ?E)(lstart L := store_head (L\<lparr>lh_n := 0\<rparr>) (store_head L (V (lstart L))))"
    unfolding D by (simp add: commit_writes_def)
  then show "D (lstart L) = store_head (L\<lparr>lh_n := 0\<rparr>) (store_head L (V (lstart L)))" by simp
  show "D b = V b" if b: "\<not> in_log L b"
    using crash_between(3) [OF wf _ cl b, of ?E 0] d b wf_log_start(1) [OF wf] by auto
qed

text \<open>
  When a transaction is ready to commit: no buffer in use, a clean header, and every cached change
  outside the log recorded in the transaction.
\<close>

definition committable :: "nat \<Rightarrow> log \<Rightarrow> bio \<Rightarrow> bool" where
  "committable me L s \<longleftrightarrow> quiet me s \<and> wf_log (disksize (disk s)) L \<and> 2 \<le> card (free_bufs s) \<and>
     0 < lh_n L \<and> head_n (blocks (disk s) (lstart L)) = 0 \<and>
     (\<forall>b. \<not> in_log L b \<longrightarrow> b \<notin> set (take (nat (lh_n L)) (lh_block L)) \<longrightarrow>
        cview s b = blocks (disk s) b)"

lemma recover_to:
  assumes q: "quiet me s" and D: "\<forall>n. length (D n) = BSIZE" and geo: "wf_log (disksize (disk s)) L"
    and lz: "length (lh_block Lz) = 30"
    and n: "head_n (D (lstart L)) = 0 \<and> ws = [] \<or>
      head_n (D (lstart L)) = lh_n L \<and> (\<forall>k < nat (lh_n L). head_block (D (lstart L)) k = lh_block L ! k) \<and>
      ws = map (\<lambda>k. (lh_block L ! k, D (logblk L k))) [0..<nat (lh_n L)]"
  shows "\<exists>L' r. initlog me 1 (lstart L) (lsize L) Lz (reboot D s) = Ok (L', r) \<and> lh_n L' = 0 \<and>
    (\<forall>b. \<not> in_log L b \<longrightarrow> blocks (disk r) b = apply_writes ws D b)"
proof -
  let ?L = "Lz\<lparr>lstart := lstart L, lsize := lsize L, ldev := 1\<rparr>"
  have il: "in_log ?L = in_log L" "logblk ?L = logblk L" by (auto simp: in_log_def logblk_def fun_eq_iff)
  have "wf_head (disksize (disk s)) ?L (D (lstart ?L))"
    using n geo lz by (auto simp: wf_head_def wf_log_def il)
  note rh = recover_home [OF q D this, unfolded il]
  have "map (\<lambda>k. (head_block (D (lstart ?L)) k, D (logblk L k))) [0..<nat (head_n (D (lstart ?L)))] = ws"
    using n by auto
  with rh show ?thesis by (simp add: initlog_def)
qed

lemma crash_recovers:
  assumes c: "committable me L s" and p: "p \<le> length (commit_writes L (cview s))"
    and lz: "length (lh_block Lz) = 30"
  shows "\<exists>L' r. initlog me 1 (lstart L) (lsize L) Lz
      (reboot (apply_writes (take p (commit_writes L (cview s))) (blocks (disk s))) s) = Ok (L', r) \<and> lh_n L' = 0 \<and>
    ((\<forall>b. \<not> in_log L b \<longrightarrow> blocks (disk r) b = blocks (disk s) b) \<or>
     (\<forall>b. \<not> in_log L b \<longrightarrow> blocks (disk r) b = cview s b))"
proof -
  let ?V = "cview s" and ?D0 = "blocks (disk s)" and ?n = "nat (lh_n L)"
  define D where "D = apply_writes (take p (commit_writes L ?V)) ?D0"
  have q: "quiet me s" "io_inv me s" and wf: "wf_log (disksize (disk s)) L"
    and h0: "head_n (?D0 (lstart L)) = 0"
    and cl: "\<forall>b. \<not> in_log L b \<longrightarrow> b \<notin> set (take ?n (lh_block L)) \<longrightarrow> ?V b = ?D0 b"
    using c by (auto simp: committable_def quiet_def)
  have len: "\<forall>n. length (D n) = BSIZE"
    unfolding D_def using commit_writes_length [OF q(2) wf] q(2)
    by (auto intro!: apply_writes_length dest: in_set_takeD simp: io_inv_def)
  have lens: "length (log_writes L ?V) = ?n" "length (home_writes L ?V) = ?n"
    by (simp_all add: log_writes_def home_writes_def)
  let ?H = "store_head L (?V (lstart L))"
  have "length (?V (lstart L)) = 512" using cview_length [OF q(2)] by (simp add: BSIZE_def)
  moreover have "0 \<le> lh_n L" "lh_n L \<le> 30" using wf by (auto simp: wf_log_def)
  ultimately have hl: "length ?H = 512" "head_n ?H = lh_n L" "\<forall>k < ?n. head_block ?H k = lh_block L ! k"
    using store_head_load [of "?V (lstart L)" L] by (auto simp: head_n_def head_block_def)
  consider "p \<le> ?n" | "?n < p" "p \<le> 2 * ?n + 1" | "p = 2 * ?n + 2"
    using p lens by (fastforce simp: commit_writes_def)
  then show ?thesis
  proof cases
    case 1
    then have d: "D = apply_writes (take p (log_writes L ?V)) ?D0"
      unfolding D_def by (simp add: commit_writes_def lens)
    note cb = crash_before [OF wf d]
    have "head_n (D (lstart L)) = 0 \<and> [] = []" using cb(1) h0 by simp
    from recover_to [OF q(1) len wf lz disjI1 [OF this]] cb(2) show ?thesis
      unfolding D_def [symmetric] by (metis apply_writes_simps(1))
  next
    case 2
    define m where "m = p - ?n - 1"
    have m: "p = ?n + 1 + m" "m \<le> ?n" using 2 by (simp_all add: m_def)
    then have d: "D = apply_writes (take m (home_writes L ?V)) ((apply_writes (log_writes L ?V) ?D0)(lstart L := ?H))"
      unfolding D_def by (simp add: commit_writes_def lens)
    note cb = crash_between [OF wf d cl]
    have ws: "map (\<lambda>k. (lh_block L ! k, D (logblk L k))) [0..<?n] = home_writes L ?V"
      using cb(2) by (simp add: home_writes_def)
    have "head_n (D (lstart L)) = lh_n L \<and> (\<forall>k < ?n. head_block (D (lstart L)) k = lh_block L ! k) \<and>
        home_writes L ?V = map (\<lambda>k. (lh_block L ! k, D (logblk L k))) [0..<?n]"
      using cb(1) hl ws by simp
    from recover_to [OF q(1) len wf lz disjI2 [OF this]] cb(3) show ?thesis
      unfolding D_def [symmetric] by metis
  next
    case 3
    then have d: "D = apply_writes (commit_writes L ?V) ?D0"
      unfolding D_def by (simp add: commit_writes_def lens)
    note ca = crash_after [OF wf d cl]
    have "head_n (D (lstart L)) = 0 \<and> [] = []"
      using ca(1) store_head_load(2) [of ?H "L\<lparr>lh_n := 0\<rparr>"] hl(1) by (simp add: head_n_def)
    from recover_to [OF q(1) len wf lz disjI1 [OF this]] ca(2) show ?thesis
      unfolding D_def [symmetric] by (metis apply_writes_simps(1))
  qed
qed

text \<open>
  Claim C1. A commit is atomic. It always completes, clears the in-memory header and leaves every
  block outside the log on the disk as the cache had it. And wherever in its sequence of block
  writes the machine stops, \<open>initlog\<close> on the disk left behind completes, and every block outside the
  log is as it was before the commit, or every block outside the log is as after it.
\<close>

theorem commit_atomic:
  assumes "committable me L s" "length (lh_block Lz) = 30"
  shows "\<exists>L' s' ws. commit me L s = Ok (L', s') \<and> lh_n L' = 0 \<and> writes (disk s') = writes (disk s) @ ws \<and>
    (\<forall>b. \<not> in_log L b \<longrightarrow> blocks (disk s') b = cview s b) \<and>
    (\<forall>p \<le> length ws. \<exists>L'' r.
      initlog me 1 (lstart L) (lsize L) Lz (reboot (apply_writes (take p ws) (blocks (disk s))) s) = Ok (L'', r) \<and>
      ((\<forall>b. \<not> in_log L b \<longrightarrow> blocks (disk r) b = blocks (disk s) b) \<or>
       (\<forall>b. \<not> in_log L b \<longrightarrow> blocks (disk r) b = cview s b)))"
proof -
  have c: "quiet me s" "wf_log (disksize (disk s)) L" "2 \<le> card (free_bufs s)" "0 < lh_n L"
    and cl: "\<forall>b. \<not> in_log L b \<longrightarrow> b \<notin> set (take (nat (lh_n L)) (lh_block L)) \<longrightarrow> cview s b = blocks (disk s) b"
    using assms(1) by (auto simp: committable_def)
  obtain s' where s': "commit me L s = Ok (L\<lparr>lh_n := 0\<rparr>, s')" "ran me (commit_writes L (cview s)) s s'"
    using commit_spec [OF c] by blast
  have home: "\<forall>b. \<not> in_log L b \<longrightarrow> blocks (disk s') b = cview s b"
    using crash_after(2) [OF c(2) refl cl] s'(2) by (auto simp: ran_def)
  have "lh_n (L\<lparr>lh_n := 0\<rparr>) = 0" "writes (disk s') = writes (disk s) @ commit_writes L (cview s)"
    using s'(2) by (simp_all add: ran_def)
  moreover have "\<forall>p \<le> length (commit_writes L (cview s)). \<exists>L'' r.
      initlog me 1 (lstart L) (lsize L) Lz
        (reboot (apply_writes (take p (commit_writes L (cview s))) (blocks (disk s))) s) = Ok (L'', r) \<and>
      ((\<forall>b. \<not> in_log L b \<longrightarrow> blocks (disk r) b = blocks (disk s) b) \<or>
       (\<forall>b. \<not> in_log L b \<longrightarrow> blocks (disk r) b = cview s b))"
    using crash_recovers [OF assms(1) _ assms(2)] by blast
  ultimately show ?thesis using s'(1) home by blast
qed

text \<open>Changing a block through the cache and logging it.\<close>

lemma log_write_spec:
  assumes inv: "io_inv me s" and h: "held i n s" and r: "log_record n L = Ok L1"
  shows "\<exists>s'. log_write i L s = Ok (L1, s') \<and> io_inv me s' \<and> held i n s' \<and> cview s' = cview s \<and>
    disk s' = disk s \<and> others_same i s s' \<and> has B_DIRTY (getbuf i s')"
proof -
  note hd = heldD [OF inv h]
  let ?b = "(getbuf i s)\<lparr>flags := flags (getbuf i s) OR B_DIRTY\<rparr>"
  let ?s = "setbuf i ?b s"
  have ok: "buf_ok me (disk s) ?b" using hd by (simp add: buf_ok_def bit_or_iff)
  have d: "blocks (disk s) = (blocks (disk s))(n := blocks (disk s) n)" "length (blocks (disk s) n) = BSIZE"
    using inv by (simp_all add: io_inv_def)
  have eq: "(setbuf i ?b s)\<lparr>disk := disk s\<rparr> = ?s" by (simp add: setbuf_def)
  note sh = setbuf_held [OF inv h _ _ _ _ ok d refl, unfolded eq]
  have "io_inv me ?s" "held i n ?s" "cview ?s = (cview s)(n := data (getbuf i s))" "others_same i s ?s"
    using sh hd by (simp_all add: bit_or_iff)
  moreover have "(cview s)(n := data (getbuf i s)) = cview s" using hd(11) by (metis fun_upd_triv)
  moreover have "has B_DIRTY (getbuf i ?s)"
    using inv hd(1) inv_len(1) [of "bc s"] by (simp add: getbuf_set io_inv_def bit_or_iff)
  moreover have "log_write i L s = Ok (L1, ?s)" using r hd(3) by (simp add: log_write_def)
  ultimately show ?thesis by (intro exI [of _ ?s]) simp
qed

lemma logged_update:
  assumes q: "quiet me s" and n: "n < disksize (disk s)" "length x = BSIZE" and fr: "3 \<le> card (free_bufs s)"
    and r: "log_record n L = Ok L1"
  shows "\<exists>i s1 s2 s3. bread me 1 n s = Ok (i, s1) \<and>
    log_write i L (setbuf i ((getbuf i s1)\<lparr>data := x\<rparr>) s1) = Ok (L1, s2) \<and> brelse me i s2 = Ok s3 \<and>
    quiet me s3 \<and> cview s3 = (cview s)(n := x) \<and> disk s3 = disk s \<and> card (free_bufs s) - 1 \<le> card (free_bufs s3)"
proof -
  have inv: "io_inv me s" using q by (simp add: quiet_def)
  have ne: "free_bufs s \<noteq> {}" using fr by auto
  obtain i s1 where s1: "bread me 1 n s = Ok (i, s1)" "io_inv me s1" "held i n s1" "cview s1 = cview s"
    "disk s1 = disk s" "others_same i s s1"
    using bread_spec [OF inv quiet_unheld [OF q] ne n(1)] by blast
  note sd = set_data_held [OF s1(2,3) n(2)]
  let ?s = "setbuf i ((getbuf i s1)\<lparr>data := x\<rparr>) s1"
  obtain s2 where s2: "log_write i L ?s = Ok (L1, s2)" "io_inv me s2" "held i n s2" "cview s2 = cview ?s"
    "disk s2 = disk ?s" "others_same i ?s s2" "has B_DIRTY (getbuf i s2)"
    using log_write_spec [OF sd(1,2) r] by blast
  obtain s3 where s3: "brelse me i s2 = Ok s3" "io_inv me s3" "cview s3 = cview s2" "disk s3 = disk s2"
    "others_same i s2 s3" "refcnt (getbuf i s3) = 0"
    using brelse_spec [OF s2(2,3) disjI1 [OF s2(7)]] by blast
  have o: "\<forall>k < NBUF. k \<noteq> i \<longrightarrow> getbuf k s3 = getbuf k s"
    using s1(6) sd(4) s2(6) s3(5) by (simp add: others_same_def)
  have "refcnt (getbuf k s3) = 0" if "k < NBUF" for k
    using that o s3(6) q by (cases "k = i") (auto simp: quiet_def)
  then have "quiet me s3" using s3(2) by (simp add: quiet_def)
  moreover have "free_bufs s - {i} \<subseteq> free_bufs s3" using o by (auto simp: free_bufs_def)
  then have "card (free_bufs s - {i}) \<le> card (free_bufs s3)" by (intro card_mono) (simp_all add: free_bufs_def)
  then have "card (free_bufs s) - 1 \<le> card (free_bufs s3)"
    using card_Diff1_le [of "free_bufs s" i] by (metis (no_types) Diff_insert0 card_Diff_singleton diff_le_self le_trans Diff_empty)
  ultimately show ?thesis
    using s1(1,5) s2 s3 sd(3) s1(4)
    by (intro exI [of _ i] exI [of _ s1] exI [of _ s2] exI [of _ s3]) simp
qed

text \<open>A disk of 100 zero blocks, with a transaction that changes block 50.\<close>

definition machine0 :: bio where
  "machine0 = \<lparr>bc = binit, disk = \<lparr>blocks = (\<lambda>_. replicate 512 0), writes = [], disksize = 100\<rparr>,
     bdevs = snd (bdev_register 1 True bdevinit)\<rparr>"

definition log0 :: log where
  "log0 = \<lparr>lstart = 2, lsize = 30, outstanding = 1, committing = False, ldev = 1, lh_n = 0,
           lh_block = replicate 30 0\<rparr>"

lemma machine0_quiet:
  "quiet 1 machine0" "3 \<le> card (free_bufs machine0)" "cview machine0 = (\<lambda>_. replicate 512 0)"
proof -
  let ?D = "\<lambda>_ :: u32. replicate 512 (0 :: u8)"
  have t: "length (bdevs machine0) = NDEV" "ops (bdevs machine0 ! 1)" "\<not> is_part (bdevs machine0 ! 1)"
    by (simp_all add: machine0_def bdev_register_def bdevinit_def NDEV_def)
  have d: "\<forall>n. length (?D n) = BSIZE" by (simp add: BSIZE_def)
  have r: "reboot ?D machine0 = machine0" by (simp add: reboot_def machine0_def)
  note rb = reboot_quiet [OF t d, unfolded r]
  show "quiet 1 machine0" "cview machine0 = ?D" by (rule rb)+
  have "free_bufs machine0 = {..<NBUF}"
    by (auto simp: free_bufs_def getbuf_def machine0_def binit_def buf0_def)
  then show "3 \<le> card (free_bufs machine0)" by (simp add: NBUF_def)
qed

definition log1 :: log where
  "log1 = log0\<lparr>lh_n := 1, lh_block := 50 # replicate 29 0\<rparr>"

lemma log_record0: "log_record 50 log0 = Ok log1"
  by (simp add: log_record_def log0_def log1_def LOGSIZE_def Let_def numeral_eq_Suc)

theorem commit_atomic_witness:
  "\<exists>L s L' s'. committable 1 L s \<and> commit 1 L s = Ok (L', s') \<and>
     blocks (disk s) 50 = replicate 512 0 \<and> blocks (disk s') 50 = replicate 512 7"
proof -
  have "50 < disksize (disk machine0)" "length (replicate 512 (7 :: u8)) = BSIZE"
    by (simp_all add: machine0_def BSIZE_def)
  from logged_update [OF machine0_quiet(1) this machine0_quiet(2) log_record0]
  obtain s where s: "quiet 1 s" "cview s = (cview machine0)(50 := replicate 512 7)" "disk s = disk machine0"
    "card (free_bufs machine0) - 1 \<le> card (free_bufs s)" by blast
  have b: "blocks (disk s) = (\<lambda>_. replicate 512 0)" "disksize (disk s) = 100"
    using s(3) by (simp_all add: machine0_def)
  have n: "lh_n log1 = 1" "lstart log1 = 2" "lh_block log1 = 50 # replicate 29 0" "ldev log1 = 1" "lsize log1 = 30"
    by (simp_all add: log1_def log0_def)
  have h: "head_n (replicate 512 0) = 0" by (simp add: head_n_def get32_def)
  have "2 \<le> card (free_bufs s)" using s(4) machine0_quiet(2) by simp
  then have c: "committable 1 log1 s"
    using s(1,2) b n h machine0_quiet(3) by (simp add: committable_def wf_log_def in_log_def)
  have "length (lh_block log0) = 30" by (simp add: log0_def)
  from commit_atomic [OF c this] obtain L' s' where "commit 1 log1 s = Ok (L', s')"
    "\<forall>b. \<not> in_log log1 b \<longrightarrow> blocks (disk s') b = cview s b" by blast
  moreover have "\<not> in_log log1 50" by (simp add: in_log_def n)
  ultimately show ?thesis using c b(1) s(2) by (metis fun_upd_same)
qed

subsection \<open>Reservations\<close>

text \<open>
  System calls in a transaction, each with the number of blocks it may still log. The steps are the
  entry points; a call that keeps to \<open>MAXOPBLOCKS\<close> never calls \<open>log_write\<close> with an empty budget.
\<close>

record txn =
  tlog :: log
  budgets :: "int list"

inductive txn_step :: "txn \<Rightarrow> txn \<Rightarrow> bool" where
  begins: "begin_op True (tlog t) = Ok L \<Longrightarrow>
    txn_step t \<lparr>tlog = L, budgets = MAXOPBLOCKS # budgets t\<rparr>"
| logs: "budgets t = xs @ b # ys \<Longrightarrow> 0 < b \<Longrightarrow> log_record n (tlog t) = Ok L \<Longrightarrow>
    txn_step t \<lparr>tlog = L, budgets = xs @ (b - 1) # ys\<rparr>"
| ends: "budgets t = xs @ b # ys \<Longrightarrow> end_op_enter True (tlog t) = Ok (False, L) \<Longrightarrow>
    txn_step t \<lparr>tlog = L, budgets = xs @ ys\<rparr>"
| last_ends: "budgets t = xs @ b # ys \<Longrightarrow> end_op_enter True (tlog t) = Ok (True, L) \<Longrightarrow>
    txn_step t \<lparr>tlog = L, budgets = xs @ ys\<rparr>"
| commits: "committing (tlog t) \<Longrightarrow>
    txn_step t (t\<lparr>tlog := end_op_leave ((tlog t)\<lparr>lh_n := 0\<rparr>)\<rparr>)"

inductive_cases txn_stepE: "txn_step t u"

definition fresh_log :: "int \<Rightarrow> log" where
  "fresh_log sz = \<lparr>lstart = 2, lsize = sz, outstanding = 0, committing = False, ldev = 1, lh_n = 0,
     lh_block = replicate 30 0\<rparr>"

definition txn_inv :: "int \<Rightarrow> txn \<Rightarrow> bool" where
  "txn_inv sz t \<longleftrightarrow> lsize (tlog t) = sz \<and> outstanding (tlog t) = int (length (budgets t)) \<and> 0 \<le> lh_n (tlog t) \<and>
     length (lh_block (tlog t)) = 30 \<and> (\<forall>b \<in> set (budgets t). 0 \<le> b \<and> b \<le> MAXOPBLOCKS) \<and>
     lh_n (tlog t) + sum_list (budgets t) \<le> LOGSIZE \<and>
     distinct (take (nat (lh_n (tlog t))) (lh_block (tlog t)))"

lemma sum_list_bound: "\<forall>b \<in> set bs. b \<le> (m :: int) \<Longrightarrow> sum_list bs \<le> int (length bs) * m"
  by (induction bs) (auto simp: algebra_simps)

lemma sum_list_nonneg_int: "\<forall>b \<in> set bs. 0 \<le> (b :: int) \<Longrightarrow> 0 \<le> sum_list bs"
  by (induction bs) auto

lemma log_record_Ok:
  assumes "log_record n L = Ok L'" "0 \<le> lh_n L" "length (lh_block L) = 30"
    "distinct (take (nat (lh_n L)) (lh_block L))"
  shows "lsize L' = lsize L" "outstanding L' = outstanding L" "committing L' = committing L"
    "length (lh_block L') = 30" "lh_n L \<le> lh_n L'" "lh_n L' \<le> lh_n L + 1"
    "distinct (take (nat (lh_n L')) (lh_block L'))"
    "set (take (nat (lh_n L')) (lh_block L')) = insert n (set (take (nat (lh_n L)) (lh_block L)))"
    "n \<notin> set (take (nat (lh_n L)) (lh_block L)) \<Longrightarrow> lh_n L' = lh_n L + 1"
proof -
  let ?m = "nat (lh_n L)" and ?bs = "lh_block L"
  have m: "?m < 30" using assms(1,2) by (auto simp: log_record_def LOGSIZE_def split: if_splits)
  have cases: "L' = L \<and> n \<in> set (take ?m ?bs) \<or>
      L' = L\<lparr>lh_block := ?bs[?m := n], lh_n := lh_n L + 1\<rparr> \<and> n \<notin> set (take ?m ?bs)"
  proof (cases "first_index (\<lambda>x. x = n) (take ?m ?bs)")
    case None
    then have "n \<notin> set (take ?m ?bs)" by auto
    then show ?thesis
      using assms(1,2) unfolding log_record_def None by (auto simp: Let_def split: if_splits)
  next
    case (Some i)
    then have i: "i < ?m" "?bs ! i = n" using first_index_SomeD [OF Some] m assms(3) by auto
    then have "?bs[i := n] = ?bs" by auto
    moreover have "n \<in> set (take ?m ?bs)" using i m assms(3) by (auto simp: in_set_conv_nth intro!: exI [of _ i])
    ultimately show ?thesis
      using assms(1,2) i unfolding log_record_def Some by (auto simp: Let_def split: if_splits)
  qed
  moreover have "nat (lh_n L + 1) = Suc ?m" using assms(2) by simp
  moreover have "take (Suc ?m) (?bs[?m := n]) = take ?m ?bs @ [n]"
    using m assms(3) by (simp add: take_Suc_conv_app_nth)
  ultimately show "lsize L' = lsize L" "outstanding L' = outstanding L" "committing L' = committing L"
    "length (lh_block L') = 30" "lh_n L \<le> lh_n L'" "lh_n L' \<le> lh_n L + 1"
    "distinct (take (nat (lh_n L')) (lh_block L'))"
    "set (take (nat (lh_n L')) (lh_block L')) = insert n (set (take ?m ?bs))"
    "n \<notin> set (take ?m ?bs) \<Longrightarrow> lh_n L' = lh_n L + 1"
    using assms by auto
qed

lemma txn_inv_step:
  assumes "txn_step t u" "txn_inv sz t"
  shows "txn_inv sz u"
  using assms(1)
proof cases
  case (begins L)
  then have L: "L = (tlog t)\<lparr>outstanding := outstanding (tlog t) + 1\<rparr>"
    "lh_n (tlog t) + (outstanding (tlog t) + 1) * 10 \<le> 30"
    by (auto simp: begin_op_def MAXOPBLOCKS_def LOGSIZE_def split: if_splits)
  have "sum_list (budgets t) \<le> outstanding (tlog t) * 10"
    using sum_list_bound [of "budgets t" 10] assms(2) by (auto simp: txn_inv_def MAXOPBLOCKS_def)
  then show ?thesis
    using begins(1) L assms(2) by (auto simp: txn_inv_def MAXOPBLOCKS_def LOGSIZE_def algebra_simps)
next
  case (logs xs b ys n L)
  have "0 \<le> lh_n (tlog t)" "length (lh_block (tlog t)) = 30"
    "distinct (take (nat (lh_n (tlog t))) (lh_block (tlog t)))" using assms(2) by (auto simp: txn_inv_def)
  note lr = log_record_Ok [OF logs(4) this]
  show ?thesis using logs(1-3) lr assms(2) by (auto simp: txn_inv_def)
next
  case (ends xs b ys L)
  then have "L = (tlog t)\<lparr>outstanding := outstanding (tlog t) - 1\<rparr>"
    by (auto simp: end_op_enter_def Let_def split: if_splits)
  then show ?thesis using ends assms(2) by (auto simp: txn_inv_def)
next
  case (last_ends xs b ys L)
  then have "L = (tlog t)\<lparr>outstanding := outstanding (tlog t) - 1, committing := True\<rparr>"
    by (auto simp: end_op_enter_def Let_def split: if_splits)
  then show ?thesis using last_ends assms(2) by (auto simp: txn_inv_def)
next
  case commits
  then show ?thesis using assms(2) by (auto simp: txn_inv_def end_op_leave_def LOGSIZE_def)
qed

definition txn0 :: "int \<Rightarrow> txn" where
  "txn0 sz = \<lparr>tlog = fresh_log sz, budgets = []\<rparr>"

lemma txn_inv_reach: "txn_step\<^sup>*\<^sup>* (txn0 sz) t \<Longrightarrow> txn_inv sz t"
proof (induction rule: rtranclp_induct)
  case base
  show ?case by (simp add: txn_inv_def txn0_def fresh_log_def LOGSIZE_def)
next
  case (step t u)
  then show ?case using txn_inv_step by blast
qed


text \<open>Three system calls at work, and any number of blocks below the limit logged between them.\<close>

lemma three_ops:
  "txn_step\<^sup>*\<^sup>* (txn0 sz) \<lparr>tlog = (fresh_log sz)\<lparr>outstanding := 3\<rparr>, budgets = [10, 10, 10]\<rparr>"
proof -
  let ?t = "\<lambda>k bs. \<lparr>tlog = (fresh_log sz)\<lparr>outstanding := k\<rparr>, budgets = bs\<rparr>"
  have st: "txn_step (?t k bs) (?t (k + 1) (10 # bs))" if "0 \<le> k" "k \<le> 2" for k bs
    using txn_step.begins [of "?t k bs" "(fresh_log sz)\<lparr>outstanding := k + 1\<rparr>"] that
    by (simp add: begin_op_def fresh_log_def MAXOPBLOCKS_def LOGSIZE_def)
  have "txn0 sz = ?t 0 []" by (simp add: txn0_def fresh_log_def)
  with st [of 0 "[]"] st [of 1 "[10]"] st [of 2 "[10, 10]"] show ?thesis
    by (simp add: converse_rtranclp_into_rtranclp)
qed

lemma fill_log:
  assumes "j \<le> 29" "30 \<le> sz"
  shows "\<exists>t. txn_step\<^sup>*\<^sup>* (txn0 sz) t \<and> lh_n (tlog t) = int j \<and> sum_list (budgets t) = 30 - int j \<and>
    set (take j (lh_block (tlog t))) = of_nat ` {..<j}"
  using assms(1)
proof (induction j)
  case 0
  show ?case using three_ops [of sz] by (intro exI, intro conjI, assumption) (simp_all add: fresh_log_def)
next
  case (Suc j)
  then obtain t where t: "txn_step\<^sup>*\<^sup>* (txn0 sz) t" "lh_n (tlog t) = int j" "sum_list (budgets t) = 30 - int j"
    "set (take j (lh_block (tlog t))) = of_nat ` {..<j}" by auto
  have inv: "txn_inv sz t" by (rule txn_inv_reach [OF t(1)])
  have "\<exists>b \<in> set (budgets t). 0 < b"
  proof (rule ccontr)
    assume "\<not> (\<exists>b \<in> set (budgets t). 0 < b)"
    then have "sum_list (budgets t) \<le> 0" using sum_list_bound [of "budgets t" 0] by (simp add: not_less)
    then show False using t(3) Suc.prems by simp
  qed
  then obtain xs b ys where b: "budgets t = xs @ b # ys" "0 < b" by (meson split_list)
  have "lh_n (tlog t) < 29" using t(2) Suc.prems by simp
  then obtain L where L: "log_record (of_nat j) (tlog t) = Ok L"
    using inv b assms(2) by (auto simp: log_record_def txn_inv_def LOGSIZE_def Let_def)
  have "0 \<le> lh_n (tlog t)" "length (lh_block (tlog t)) = 30"
    "distinct (take (nat (lh_n (tlog t))) (lh_block (tlog t)))" using inv by (auto simp: txn_inv_def)
  note lr = log_record_Ok [OF L this]
  have "of_nat j \<notin> (of_nat ` {..<j} :: u32 set)"
  proof
    assume "of_nat j \<in> (of_nat ` {..<j} :: u32 set)"
    then obtain i where "i < j" "(of_nat j :: u32) = of_nat i" by auto
    moreover have "unat (of_nat j :: u32) = j" "unat (of_nat i :: u32) = i"
      using \<open>i < j\<close> Suc.prems by (auto intro!: unat_of_nat_len)
    ultimately show False by simp
  qed
  then have n: "lh_n L = int (Suc j)" using lr(9) t(2,4) by simp
  have "txn_step t \<lparr>tlog = L, budgets = xs @ (b - 1) # ys\<rparr>" by (rule txn_step.logs [OF b L])
  with t(1) have "txn_step\<^sup>*\<^sup>* (txn0 sz) \<lparr>tlog = L, budgets = xs @ (b - 1) # ys\<rparr>" by simp
  moreover have "nat (lh_n L) = Suc j" unfolding n by (rule nat_int)
  then have "set (take (Suc j) (lh_block L)) = of_nat ` {..<Suc j}"
    using lr(8) t(2,4) by (simp add: lessThan_Suc)
  moreover have "sum_list (xs @ (b - 1) # ys) = 30 - int (Suc j)" using t(3) b(1) by simp
  ultimately show ?case using n by (intro exI conjI) (assumption | simp)+
qed


text \<open>
  Claim C35. With the 30 blocks that \<open>mkfs\<close> gives the log, one of which is the header, the reservation
  is one block too generous: three system calls that each keep to \<open>MAXOPBLOCKS\<close> reach a state in
  which a call with budget left makes \<open>log_write\<close> panic.
\<close>

theorem log_write_panics_at_mkfs_size:
  "\<exists>t b. txn_step\<^sup>*\<^sup>* (txn0 30) t \<and> b \<in> set (budgets t) \<and> 0 < b \<and>
     log_record n (tlog t) = Panic ''too big a transaction''"
proof -
  obtain t where t: "txn_step\<^sup>*\<^sup>* (txn0 30) t" "lh_n (tlog t) = 29" "sum_list (budgets t) = 1"
    using fill_log [of 29 30] by auto
  have "txn_inv 30 t" by (rule txn_inv_reach [OF t(1)])
  then have "log_record n (tlog t) = Panic ''too big a transaction''"
    using t(2) by (simp add: log_record_def txn_inv_def)
  moreover have "\<exists>b \<in> set (budgets t). 0 < b"
    using sum_list_bound [of "budgets t" 0] t(3) by force
  ultimately show ?thesis using t(1) by blast
qed

end
