(* ===== verification/Vma.thy ===== *)
theory Vma
  imports Prelude "HOL-Library.Monad_Syntax"
begin

text \<open>
  The address-space descriptors of \<open>kernel/vm/vma.c\<close> and \<open>include/vma.h\<close>: a growable array of
  virtual ranges, kept sorted and disjoint, with insertion, removal, lookup, growth and shrinking.
  The array pointer is the list of its slots (a null pointer is the empty list); slots from
  \<open>vma_count\<close> on hold garbage. A pointer to a range is the index of its slot. The allocator is an
  argument \<open>km\<close>: the request size in bytes to the slots handed out, or \<open>None\<close> when it fails. A result
  \<open>None\<close> of a routine means that it never returns (the capacity loop can diverge).
\<close>

definition VMA_READ :: u32 where "VMA_READ = 0x0001"
definition VMA_WRITE :: u32 where "VMA_WRITE = 0x0002"
definition VMA_ZEROFILL :: u32 where "VMA_ZEROFILL = 0x0020"

record vaddr_range =
  va_start :: u32
  va_end :: u32
  vflags :: u32
  vinode :: "nat option"
  file_offset :: u32

record address_space =
  pgdir :: "nat option"
  owns_pgdir :: bool
  transitional :: bool
  vmas :: "vaddr_range list"
  vma_count :: u32
  vma_cap :: u32
  vm_size :: u32
  rss :: u32

type_synonym vma_alloc = "u32 \<Rightarrow> vaddr_range list option"

definition sizeof_vaddr_range :: u32 where "sizeof_vaddr_range = 20"

subsection \<open>The array of ranges\<close>

partial_function (option) grow_cap :: "u32 \<Rightarrow> u32 \<Rightarrow> u32 option" where
  "grow_cap newcap need = (if newcap < need then grow_cap (push_bit 1 newcap) need else Some newcap)"

definition vma_ensure_capacity ::
  "vma_alloc \<Rightarrow> address_space \<Rightarrow> u32 \<Rightarrow> (int \<times> address_space) option" where
  "vma_ensure_capacity km as need =
     (if need \<le> vma_cap as then Some (0, as)
      else Option.bind (grow_cap (if vma_cap as = 0 then 4 else vma_cap as) need) (\<lambda>newcap.
        case km (newcap * sizeof_vaddr_range) of
          None \<Rightarrow> Some (- 1, as)
        | Some newv \<Rightarrow>
            Some (0, as\<lparr>vmas := splice 0 (take (unat (vma_count as)) (vmas as)) newv, vma_cap := newcap\<rparr>)))"

text \<open>The scan of \<open>vma_insert\<close>: the position of the new range, or \<open>None\<close> when it meets an old one.\<close>

fun insert_pos :: "vaddr_range \<Rightarrow> vaddr_range list \<Rightarrow> nat option" where
  "insert_pos v [] = Some 0"
| "insert_pos v (r # rs) =
     (if va_end v \<le> va_start r then Some 0
      else if \<not> va_start v \<ge> va_end r then None
      else map_option Suc (insert_pos v rs))"

fun shift_up :: "nat \<Rightarrow> nat \<Rightarrow> 'a list \<Rightarrow> 'a list" where
  "shift_up pos i xs = (if i > pos then shift_up pos (i - 1) (xs[i := xs ! (i - 1)]) else xs)"

declare shift_up.simps [simp del]

function shift_down :: "nat \<Rightarrow> nat \<Rightarrow> 'a list \<Rightarrow> 'a list" where
  "shift_down i n xs = (if i + 1 < n then shift_down (i + 1) n (xs[i := xs ! (i + 1)]) else xs)"
  by pat_completeness auto
termination by (relation "measure (\<lambda>(i, n, xs). n - i)") auto

declare shift_down.simps [simp del]

definition ranges :: "address_space \<Rightarrow> vaddr_range list" where
  "ranges as = take (unat (vma_count as)) (vmas as)"

definition vma_insert ::
  "vma_alloc \<Rightarrow> address_space option \<Rightarrow> vaddr_range option \<Rightarrow> (int \<times> address_space option) option" where
  "vma_insert km asp vp =
     (case (asp, vp) of
        (Some as, Some v) \<Rightarrow>
          if va_start v \<ge> va_end v then Some (- 1, asp)
          else (case insert_pos v (ranges as) of
            None \<Rightarrow> Some (- 1, asp)
          | Some pos \<Rightarrow>
              Option.bind (vma_ensure_capacity km as (vma_count as + 1)) (\<lambda>(r, as1).
                if r < 0 then Some (- 1, Some as1)
                else Some (0, Some (as1\<lparr>
                  vmas := (shift_up pos (unat (vma_count as1)) (vmas as1))[pos := v],
                  vma_count := vma_count as1 + 1, transitional := False\<rparr>))))
      | _ \<Rightarrow> Some (- 1, asp))"

definition vma_remove :: "address_space option \<Rightarrow> nat option \<Rightarrow> address_space option" where
  "vma_remove asp ip =
     (case (asp, ip) of
        (Some as, Some i) \<Rightarrow>
          if vma_count as = 0 \<or> \<not> i < unat (vma_count as) then asp
          else Some (as\<lparr>vmas := shift_down i (unat (vma_count as)) (vmas as),
                        vma_count := vma_count as - 1\<rparr>)
      | _ \<Rightarrow> asp)"

definition vma_find :: "address_space option \<Rightarrow> u32 \<Rightarrow> nat option" where
  "vma_find asp va =
     (case asp of None \<Rightarrow> None
      | Some as \<Rightarrow> first_index (\<lambda>r. va \<ge> va_start r \<and> va < va_end r) (ranges as))"

subsection \<open>Growing and shrinking\<close>

text \<open>The range that ends the array is extended in place when it has the wanted attributes.\<close>

definition extends_last :: "address_space \<Rightarrow> u32 \<Rightarrow> u32 \<Rightarrow> bool" where
  "extends_last as old fl \<longleftrightarrow>
     vma_count as > 0 \<and>
     (let r = vmas as ! unat (vma_count as - 1) in
       va_end r = old \<and> vflags r = fl \<and> vinode r = None \<and> file_offset r = 0)"

definition set_last_end :: "address_space \<Rightarrow> u32 \<Rightarrow> address_space" where
  "set_last_end as e =
     (let i = unat (vma_count as - 1) in as\<lparr>vmas := (vmas as)[i := (vmas as ! i)\<lparr>va_end := e\<rparr>]\<rparr>)"

definition anon_range :: "u32 \<Rightarrow> u32 \<Rightarrow> u32 \<Rightarrow> vaddr_range" where
  "anon_range s e fl = \<lparr>va_start = s, va_end = e, vflags = fl, vinode = None, file_offset = 0\<rparr>"

definition vma_expand ::
  "vma_alloc \<Rightarrow> address_space option \<Rightarrow> u32 \<Rightarrow> (int \<times> address_space option) option" where
  "vma_expand km asp new_size =
     (case asp of None \<Rightarrow> Some (- 1, asp)
      | Some as \<Rightarrow>
          if new_size < vm_size as then Some (- 1, asp)
          else if new_size = vm_size as then Some (0, asp)
          else if extends_last as (vm_size as) (VMA_READ OR VMA_WRITE) then
            Some (0, Some ((set_last_end as new_size)\<lparr>vm_size := new_size, transitional := False\<rparr>))
          else
            Option.bind (vma_insert km asp (Some (anon_range (vm_size as) new_size (VMA_READ OR VMA_WRITE))))
              (\<lambda>(r, asp1). if r < 0 then Some (- 1, asp1)
                else Some (0, map_option (\<lambda>as1. as1\<lparr>vm_size := new_size,
                  transitional := (if vma_count as1 > 0 then False else transitional as1)\<rparr>) asp1)))"

definition vma_reserve_zerofill ::
  "vma_alloc \<Rightarrow> address_space option \<Rightarrow> u32 \<Rightarrow> u32 \<Rightarrow> (int \<times> address_space option) option" where
  "vma_reserve_zerofill km asp s e =
     (case asp of None \<Rightarrow> Some (- 1, asp)
      | Some as \<Rightarrow>
          if s \<ge> e then Some (- 1, asp)
          else if s \<noteq> vm_size as then Some (- 1, asp)
          else if extends_last as s (VMA_READ OR VMA_WRITE OR VMA_ZEROFILL) then
            Some (0, Some ((set_last_end as e)\<lparr>vm_size := e, transitional := False\<rparr>))
          else
            Option.bind (vma_insert km asp (Some (anon_range s e (VMA_READ OR VMA_WRITE OR VMA_ZEROFILL))))
              (\<lambda>(r, asp1). if r < 0 then Some (- 1, asp1)
                else Some (0, map_option (\<lambda>as1. as1\<lparr>vm_size := e\<rparr>) asp1)))"

lemma vma_remove_smaller:
  assumes "vma_remove (Some as) (Some (unat (vma_count as - 1))) = Some as1" "vma_count as > 0"
  shows "unat (vma_count as1) < unat (vma_count as)"
proof -
  have "unat (vma_count as - 1) < unat (vma_count as)"
    using assms(2) by (simp add: word_gt_0 unat_minus_one unat_gt_0)
  then show ?thesis using assms by (auto simp: vma_remove_def word_gt_0)
qed

text \<open>The loop of \<open>vma_shrink\<close>: drop the last range, or cut it, or stop.\<close>

function shrink_loop :: "address_space \<Rightarrow> u32 \<Rightarrow> address_space" where
  "shrink_loop as new_size =
     (if vma_count as > 0 then
        let i = unat (vma_count as - 1); r = vmas as ! i in
        if va_start r \<ge> new_size then
          (case vma_remove (Some as) (Some i) of Some as1 \<Rightarrow> shrink_loop as1 new_size | None \<Rightarrow> as)
        else if va_end r > new_size then set_last_end as new_size
        else as
      else as)"
  by pat_completeness auto
termination
  by (relation "measure (\<lambda>(as, n). unat (vma_count as))") (simp, use vma_remove_smaller in simp)

declare shrink_loop.simps [simp del]

definition vma_shrink :: "address_space option \<Rightarrow> u32 \<Rightarrow> int \<times> address_space option" where
  "vma_shrink asp new_size =
     (case asp of None \<Rightarrow> (- 1, asp)
      | Some as \<Rightarrow>
          if new_size > vm_size as then (- 1, asp)
          else if new_size = vm_size as then (0, asp)
          else (0, Some ((shrink_loop as new_size)\<lparr>vm_size := new_size\<rparr>)))"

subsection \<open>Creation and duplication\<close>

definition zeroed_as :: address_space where
  "zeroed_as = \<lparr>pgdir = None, owns_pgdir = False, transitional = False, vmas = [], vma_count = 0,
     vma_cap = 0, vm_size = 0, rss = 0\<rparr>"

definition address_space_alloc :: "bool \<Rightarrow> address_space option" where
  "address_space_alloc got = (if got then Some zeroed_as else None)"

text \<open>\<open>setupkvm_as\<close> installs a fresh page directory or fails; its answer is the argument \<open>kvm\<close>.\<close>

definition address_space_create :: "bool \<Rightarrow> nat option \<Rightarrow> address_space option" where
  "address_space_create got kvm =
     (case address_space_alloc got of None \<Rightarrow> None
      | Some as \<Rightarrow> (case kvm of None \<Rightarrow> None
          | Some pd \<Rightarrow> Some (as\<lparr>pgdir := Some pd, owns_pgdir := True, transitional := False\<rparr>)))"

datatype release = Free_vmas | Freevm nat | Free_as

text \<open>
  The duplicate for \<open>fork\<close>, with the objects it gives back when it fails half-way. What \<open>copyuvm_as\<close>
  answers is the argument \<open>cpd\<close>.
\<close>

definition address_space_dup_cow ::
  "vma_alloc \<Rightarrow> bool \<Rightarrow> nat option \<Rightarrow> address_space option \<Rightarrow> (address_space option \<times> release list) option" where
  "address_space_dup_cow km got cpd srcp =
     (case srcp of None \<Rightarrow> Some (None, [])
      | Some src \<Rightarrow>
     (case address_space_alloc got of None \<Rightarrow> Some (None, [])
      | Some dst \<Rightarrow>
     (case cpd of None \<Rightarrow> Some (None, [Free_as])
      | Some pd \<Rightarrow>
          let dst1 = dst\<lparr>pgdir := Some pd, owns_pgdir := True, transitional := transitional src\<rparr>;
              fin = (\<lambda>d. d\<lparr>vm_size := vm_size src, rss := rss src,
                transitional := (if vma_count d > 0 then False else transitional d)\<rparr>)
          in if vma_count src > 0 then
               Option.bind (vma_ensure_capacity km dst1 (vma_count src)) (\<lambda>(r, dst2).
                 if r < 0 then Some (None, [Freevm pd, Free_as])
                 else Some (Some (fin (dst2\<lparr>vmas := splice 0 (ranges src) (vmas dst2),
                                            vma_count := vma_count src\<rparr>)), []))
             else Some (Some (fin dst1), []))))"

definition address_space_destroy :: "address_space option \<Rightarrow> release list" where
  "address_space_destroy asp =
     (case asp of None \<Rightarrow> []
      | Some as \<Rightarrow> (if vmas as \<noteq> [] then [Free_vmas] else []) @
          (case pgdir as of Some pd \<Rightarrow> if owns_pgdir as then [Freevm pd] else [] | None \<Rightarrow> []) @ [Free_as])"

definition address_space_release :: "address_space option \<Rightarrow> release list" where
  "address_space_release asp = address_space_destroy asp"

definition address_space_pgdir :: "address_space option \<Rightarrow> nat option" where
  "address_space_pgdir asp = Option.bind asp pgdir"

subsection \<open>The capacity loop\<close>

lemma grow_cap_stop: "\<not> c < need \<Longrightarrow> grow_cap c need = Some c"
  by (subst grow_cap.simps) simp

lemma grow_cap_double: "c < need \<Longrightarrow> grow_cap c need = grow_cap (push_bit 1 c) need"
  by (subst grow_cap.simps) simp

lemma pow2_less: "a \<le> 31 \<Longrightarrow> (2 :: u32) ^ a < need \<longleftrightarrow> 2 ^ a < unat need"
  by (simp add: word_less_nat_alt unat_exp)

lemma grow_cap_returns:
  assumes "a \<le> 31" "unat need \<le> 2 ^ 31"
  shows "\<exists>b. a \<le> b \<and> b \<le> 31 \<and> grow_cap (2 ^ a) need = Some (2 ^ b) \<and> unat need \<le> 2 ^ b \<and>
    (a < b \<longrightarrow> 2 ^ (b - 1) < unat need)"
  using assms
proof (induction "31 - a" arbitrary: a)
  case 0
  then have "a = 31" by simp
  then show ?case using 0 by (intro exI [of _ 31]) (simp add: grow_cap_stop word_less_nat_alt)
next
  case (Suc d)
  show ?case
  proof (cases "2 ^ a < unat need")
    case False
    then show ?thesis using Suc.prems
      by (intro exI [of _ a]) (simp add: grow_cap_stop pow2_less)
  next
    case True
    have d: "push_bit 1 ((2 :: u32) ^ a) = 2 ^ (a + 1)" by (simp add: push_bit_eq_mult)
    have "grow_cap (2 ^ a) need = grow_cap (2 ^ (a + 1)) need"
      using grow_cap_double [of "2 ^ a" need] True Suc.prems unfolding d by (simp add: pow2_less)
    moreover have "d = 31 - (a + 1)" "a + 1 \<le> 31" using Suc by auto
    then obtain b where "a + 1 \<le> b" "b \<le> 31" "grow_cap (2 ^ (a + 1)) need = Some (2 ^ b)"
      "unat need \<le> 2 ^ b" "a + 1 < b \<longrightarrow> 2 ^ (b - 1) < unat need"
      using Suc.hyps(1) Suc.prems(2) by blast
    moreover have "a + 1 = b \<longrightarrow> 2 ^ (b - 1) < unat need" using True by auto
    ultimately show ?thesis by (intro exI [of _ b]) auto
  qed
qed

lemma grow_cap_result:
  assumes "grow_cap c need = Some y"
  shows "need \<le> y \<and> (\<exists>k. y = push_bit k c)"
proof (rule grow_cap.raw_induct [OF _ assms, where P = "\<lambda>c need y. need \<le> y \<and> (\<exists>k. y = push_bit k c)"])
  fix grow c need and y :: u32
  assume ih: "\<And>c need y. grow c need = Some y \<Longrightarrow> need \<le> y \<and> (\<exists>k. y = push_bit k c)"
    and eq: "(if c < need then grow (push_bit 1 c) need else Some c) = Some y"
  show "need \<le> y \<and> (\<exists>k. y = push_bit k c)"
  proof (cases "c < need")
    case True
    then have "grow (push_bit 1 c) need = Some y" using eq by simp
    from ih [OF this] obtain k where "need \<le> y" "y = push_bit k (push_bit 1 c)" by blast
    then show ?thesis by (auto simp: push_bit_push_bit intro: exI [of _ "k + 1"])
  next
    case False
    then show ?thesis using eq by (auto intro: exI [of _ 0])
  qed
qed

lemma grow_cap_diverges:
  assumes "2 ^ 31 < unat need"
  shows "grow_cap (2 ^ a) need = None"
proof (cases "grow_cap (2 ^ a) need")
  case (Some y)
  from grow_cap_result [OF this] obtain k where y: "need \<le> y" "y = 2 ^ (a + k)"
    by (auto simp: push_bit_eq_mult power_add)
  have "unat y \<le> 2 ^ 31"
  proof (cases "a + k < 32")
    case True
    then have "(2 :: nat) ^ (a + k) \<le> 2 ^ 31" by (intro power_increasing) auto
    then show ?thesis unfolding y(2) using True by (simp add: unat_exp)
  next
    case False
    then have "y = 0" unfolding y(2) by simp
    then show ?thesis by simp
  qed
  then show ?thesis using y(1) assms by (simp add: word_le_nat_alt)
qed

subsection \<open>Sorted disjoint ranges\<close>

definition covers :: "vaddr_range \<Rightarrow> u32 \<Rightarrow> bool" where
  "covers r va \<longleftrightarrow> va_start r \<le> va \<and> va < va_end r"

definition attr :: "vaddr_range \<Rightarrow> u32 \<times> nat option \<times> u32" where
  "attr r = (vflags r, vinode r, file_offset r)"

definition rs_ok :: "vaddr_range list \<Rightarrow> bool" where
  "rs_ok rs \<longleftrightarrow> sorted_wrt (\<lambda>a b. va_end a \<le> va_start b) rs \<and> (\<forall>r \<in> set rs. va_start r < va_end r)"

text \<open>The partial map from addresses to attributes that an array of ranges stands for.\<close>

fun lookup :: "vaddr_range list \<Rightarrow> u32 \<rightharpoonup> u32 \<times> nat option \<times> u32" where
  "lookup [] va = None"
| "lookup (r # rs) va = (if covers r va then Some (attr r) else lookup rs va)"

definition amap :: "address_space \<Rightarrow> u32 \<rightharpoonup> u32 \<times> nat option \<times> u32" where
  "amap as va = map_option (\<lambda>i. attr (vmas as ! i)) (vma_find (Some as) va)"

lemma lookup_append: "lookup (xs @ ys) va = (case lookup xs va of None \<Rightarrow> lookup ys va | Some a \<Rightarrow> Some a)"
  by (induction xs) auto

lemma lookup_None: "lookup rs va = None \<longleftrightarrow> (\<forall>r \<in> set rs. \<not> covers r va)"
  by (induction rs) auto

lemma first_index_lookup:
  "map_option (\<lambda>i. attr (rs ! i)) (first_index (\<lambda>r. va_start r \<le> va \<and> va < va_end r) rs) = lookup rs va"
  by (induction rs) (auto simp: covers_def option.map_comp comp_def)

lemma amap_lookup:
  assumes "unat (vma_count as) \<le> length (vmas as)"
  shows "amap as = lookup (ranges as)"
proof
  fix va
  let ?P = "\<lambda>r. va_start r \<le> va \<and> va < va_end r"
  have "map_option (\<lambda>i. attr (vmas as ! i)) (first_index ?P (ranges as)) =
      map_option (\<lambda>i. attr (ranges as ! i)) (first_index ?P (ranges as))"
  proof (cases "first_index ?P (ranges as)")
    case (Some i)
    then have "i < unat (vma_count as)" using first_index_SomeD [OF Some] by (simp add: ranges_def)
    then show ?thesis unfolding Some by (simp add: ranges_def)
  qed (simp only: option.map)
  then show "amap as va = lookup (ranges as) va"
    by (simp add: amap_def vma_find_def first_index_lookup)
qed

lemma rs_ok_Cons: "rs_ok (r # rs) \<longleftrightarrow>
    va_start r < va_end r \<and> (\<forall>q \<in> set rs. va_end r \<le> va_start q) \<and> rs_ok rs"
  by (auto simp: rs_ok_def)

lemma rs_ok_snoc: "rs_ok (rs @ [r]) \<longleftrightarrow>
    rs_ok rs \<and> va_start r < va_end r \<and> (\<forall>q \<in> set rs. va_end q \<le> va_start r)"
  by (auto simp: rs_ok_def sorted_wrt_append)

lemma rs_ok_Nil [simp]: "rs_ok []" by (simp add: rs_ok_def)

lemma insert_pos_Some:
  assumes "rs_ok rs" "va_start v < va_end v" "insert_pos v rs = Some p"
  shows "p \<le> length rs \<and> rs_ok (take p rs @ v # drop p rs) \<and> (\<forall>r \<in> set rs. va_end r \<le> va_start v \<or> va_end v \<le> va_start r)"
  using assms
proof (induction rs arbitrary: p)
  case Nil
  then show ?case by (simp add: rs_ok_def)
next
  case (Cons r rs)
  show ?case
  proof (cases "va_end v \<le> va_start r")
    case True
    with Cons.prems have "p = 0" by simp
    moreover have "\<forall>q \<in> set rs. va_end v \<le> va_start q"
      using Cons.prems(1) True unfolding rs_ok_Cons by (meson order.strict_implies_order order.trans)
    ultimately show ?thesis using Cons.prems True by (simp add: rs_ok_Cons)
  next
    case False
    with Cons.prems(3) obtain k where k: "va_end r \<le> va_start v" "insert_pos v rs = Some k" "p = Suc k"
      by (auto split: if_splits)
    have "rs_ok rs" using Cons.prems(1) by (simp add: rs_ok_Cons)
    note ih = Cons.IH [OF this Cons.prems(2) k(2)]
    show ?thesis using ih k Cons.prems(1)
      by (auto simp: rs_ok_Cons dest: in_set_takeD in_set_dropD)
  qed
qed

lemma insert_pos_None:
  assumes "rs_ok rs" "va_start v < va_end v" "insert_pos v rs = None"
  shows "\<exists>va. covers v va \<and> lookup rs va \<noteq> None"
  using assms
proof (induction rs)
  case Nil
  then show ?case by simp
next
  case (Cons r rs)
  show ?case
  proof (cases "va_end r \<le> va_start v")
    case True
    then have "insert_pos v rs = None" using Cons.prems(3) by (auto split: if_splits)
    then obtain va where "covers v va" "lookup rs va \<noteq> None"
      using Cons.IH Cons.prems unfolding rs_ok_Cons by blast
    then show ?thesis by (intro exI [of _ va]) (simp add: attr_def)
  next
    case False
    then have "\<not> va_end v \<le> va_start r" using Cons.prems(3) by (auto split: if_splits)
    then have "covers v (max (va_start v) (va_start r))" "covers r (max (va_start v) (va_start r))"
      using False Cons.prems by (auto simp: covers_def rs_ok_Cons max_def)
    then show ?thesis by (intro exI [of _ "max (va_start v) (va_start r)"]) (simp add: attr_def)
  qed
qed

lemma lookup_insert:
  assumes "rs_ok rs" "\<forall>r \<in> set rs. va_end r \<le> va_start v \<or> va_end v \<le> va_start r"
  shows "lookup (take p rs @ v # drop p rs) va = (if covers v va then Some (attr v) else lookup rs va)"
proof (cases "covers v va")
  case True
  have "lookup (take p rs) va = None"
    unfolding lookup_None using assms(2) True
    by (fastforce simp: covers_def dest!: in_set_takeD)
  then show ?thesis using True by (simp add: lookup_append)
next
  case False
  have "lookup rs va = lookup (take p rs @ drop p rs) va" by simp
  then show ?thesis using False unfolding lookup_append by (cases "lookup (take p rs) va") simp_all
qed

subsection \<open>Moving the slots\<close>

lemma length_shift_up [simp]: "length (shift_up pos i xs) = length xs"
  by (induction i arbitrary: xs) (subst shift_up.simps, simp)+

lemma nth_shift_up:
  "i < length xs \<Longrightarrow> j < length xs \<Longrightarrow>
   shift_up pos i xs ! j = (if pos < j \<and> j \<le> i then xs ! (j - 1) else xs ! j)"
proof (induction i arbitrary: xs)
  case 0
  then show ?case by (subst shift_up.simps) simp
next
  case (Suc i)
  show ?case
  proof (cases "pos < Suc i")
    case True
    let ?ys = "xs[Suc i := xs ! i]"
    have "shift_up pos (Suc i) xs ! j = shift_up pos i ?ys ! j" by (subst shift_up.simps) (simp add: True)
    also have "\<dots> = (if pos < j \<and> j \<le> i then ?ys ! (j - 1) else ?ys ! j)" using Suc by simp
    finally show ?thesis using Suc.prems True by (auto simp: nth_list_update)
  next
    case False
    then show ?thesis by (subst shift_up.simps) auto
  qed
qed

lemma length_shift_down [simp]: "length (shift_down i n xs) = length xs"
  by (induction i n xs rule: shift_down.induct) (subst shift_down.simps, simp)

lemma nth_shift_down:
  "n \<le> length xs \<Longrightarrow> j < length xs \<Longrightarrow>
   shift_down i n xs ! j = (if i \<le> j \<and> j + 1 < n then xs ! (j + 1) else xs ! j)"
proof (induction i n xs rule: shift_down.induct)
  case (1 i n xs)
  show ?case
  proof (cases "i + 1 < n")
    case True
    let ?ys = "xs[i := xs ! (i + 1)]"
    have "shift_down i n xs ! j = shift_down (i + 1) n ?ys ! j" using True shift_down.simps [of i n xs] by simp
    also have "\<dots> = (if i + 1 \<le> j \<and> j + 1 < n then ?ys ! (j + 1) else ?ys ! j)" using 1 True by simp
    finally show ?thesis using 1(2,3) True by (auto simp: nth_list_update)
  next
    case False
    then have "shift_down i n xs = xs" using shift_down.simps [of i n xs] by simp
    then show ?thesis using False by auto
  qed
qed

lemma take_insert_slot:
  assumes "pos \<le> n" "n < length xs"
  shows "take (Suc n) ((shift_up pos n xs)[pos := v]) = take pos (take n xs) @ v # drop pos (take n xs)"
    (is "?l = ?r")
proof (rule nth_equalityI)
  show "length ?l = length ?r" using assms by simp
  fix j assume "j < length ?l"
  then have j: "j \<le> n" using assms by simp
  consider "j < pos" | "j = pos" | "pos < j" by linarith
  then show "?l ! j = ?r ! j"
    using assms j by cases (auto simp: nth_append nth_list_update nth_shift_up nth_Cons' min_def)
qed

lemma take_shift_down_last: "n \<le> length xs \<Longrightarrow> take (n - 1) (shift_down (n - 1) n xs) = take (n - 1) xs"
  by (rule nth_equalityI) (auto simp: nth_shift_down)

subsection \<open>The invariant\<close>

text \<open>
  The capacity is 0 or a power of two that the memory can hold, the array has that many slots, and the
  ranges are sorted, disjoint and non-empty.
\<close>

definition cap_ok :: "u32 \<Rightarrow> bool" where
  "cap_ok c \<longleftrightarrow> c = 0 \<or> (\<exists>a. 2 \<le> a \<and> a \<le> 24 \<and> c = 2 ^ a)"

definition as_ok :: "address_space \<Rightarrow> bool" where
  "as_ok as \<longleftrightarrow> vma_count as \<le> vma_cap as \<and> unat (vma_cap as) \<le> length (vmas as) \<and>
     cap_ok (vma_cap as) \<and> rs_ok (ranges as)"

text \<open>
  What the code relies on in \<open>kmalloc\<close>: a successful request gets at least the bytes it asked for, and
  no request larger than physical memory (\<open>PHYSTOP\<close>) succeeds.
\<close>

definition km_ok :: "vma_alloc \<Rightarrow> bool" where
  "km_ok km \<longleftrightarrow> (\<forall>n xs. km n = Some xs \<longrightarrow> unat n \<le> 20 * length xs \<and> unat n \<le> 0x20000000)"

lemma cap_ok_bound: "cap_ok c \<Longrightarrow> unat c \<le> 2 ^ 24"
proof -
  assume "cap_ok c"
  moreover have "(2 :: nat) ^ a \<le> 2 ^ 24" if "a \<le> 24" for a using that by (rule power_increasing) simp
  ultimately show ?thesis by (auto simp: cap_ok_def unat_exp)
qed

lemma as_ok_lens:
  assumes "as_ok as"
  shows "unat (vma_count as) \<le> unat (vma_cap as)" "unat (vma_cap as) \<le> length (vmas as)"
    "unat (vma_count as) \<le> length (vmas as)" "unat (vma_count as) \<le> 2 ^ 24"
    "length (ranges as) = unat (vma_count as)"
  using assms cap_ok_bound [of "vma_cap as"]
  by (auto simp: as_ok_def word_le_nat_alt ranges_def)

lemma amap_ok: "as_ok as \<Longrightarrow> amap as = lookup (ranges as)"
  by (rule amap_lookup) (rule as_ok_lens)

lemma grow_fits:
  assumes "km_ok km" "b \<le> 25" "km (2 ^ b * sizeof_vaddr_range) = Some newv"
  shows "b \<le> 24" "2 ^ b \<le> length newv"
proof -
  have le: "(2 :: nat) ^ b \<le> 2 ^ 25" using assms(2) by (rule power_increasing) simp
  have "unat ((2 :: u32) ^ b * 20) = (2 ^ b * 20) mod 2 ^ 32"
    using assms(2) by (simp add: unat_word_ariths unat_exp)
  also have "\<dots> = 2 ^ b * 20" by (rule mod_less) (use le in simp)
  finally have u: "2 ^ b * 20 \<le> 20 * length newv" "2 ^ b * 20 \<le> (0x20000000 :: nat)"
    using assms(1,3) unfolding km_ok_def sizeof_vaddr_range_def by metis+
  show "2 ^ b \<le> length newv" using u(1) by simp
  show "b \<le> 24" using u(2) assms(2) by (cases "b = 25") auto
qed

lemma ensure_capacity:
  assumes ok: "as_ok as" and km: "km_ok km" and need: "unat need \<le> 2 ^ 24 + 1"
  shows "(vma_ensure_capacity km as need = Some (- 1, as) \<and> (\<exists>n. km n = None)) \<or>
    (\<exists>vs c. vma_ensure_capacity km as need = Some (0, as\<lparr>vmas := vs, vma_cap := c\<rparr>) \<and> cap_ok c \<and>
      need \<le> c \<and> unat c \<le> length vs \<and> take (unat (vma_count as)) vs = ranges as \<and> vma_cap as \<le> c)"
proof (cases "need \<le> vma_cap as")
  case True
  then show ?thesis using ok
    by (intro disjI2 exI [of _ "vmas as"] exI [of _ "vma_cap as"])
      (simp add: vma_ensure_capacity_def as_ok_def ranges_def)
next
  case False
  obtain a where a: "2 \<le> a" "a \<le> 24" "(if vma_cap as = 0 then 4 else vma_cap as) = 2 ^ a" "vma_cap as \<le> 2 ^ a"
  proof (cases "vma_cap as = 0")
    case True
    then show ?thesis using that [of 2] by simp
  next
    case False
    then show ?thesis using ok that by (auto simp: as_ok_def cap_ok_def)
  qed
  from grow_cap_returns [of a need] a(2) need obtain b where
    b: "a \<le> b" "grow_cap (2 ^ a) need = Some (2 ^ b)" "unat need \<le> 2 ^ b" "a < b \<longrightarrow> 2 ^ (b - 1) < unat need" "b \<le> 31"
    by auto
  have b25: "b \<le> 25"
  proof (rule ccontr)
    assume "\<not> b \<le> 25"
    then have "(2 :: nat) ^ 25 \<le> 2 ^ (b - 1)" by (intro power_increasing) auto
    then show False using b(4) need a(2) \<open>\<not> b \<le> 25\<close> by simp
  qed
  have cnt: "unat (vma_count as) \<le> unat (vma_cap as)" using as_ok_lens [OF ok] by simp
  show ?thesis
  proof (cases "km (2 ^ b * sizeof_vaddr_range)")
    case None
    then show ?thesis using False a(3) b(2) by (auto simp: vma_ensure_capacity_def)
  next
    case (Some newv)
    note fits = grow_fits [OF km b25 Some]
    have le: "vma_cap as \<le> 2 ^ b"
    proof -
      have "(2 :: nat) ^ a \<le> 2 ^ b" using b(1) by (rule power_increasing) simp
      then show ?thesis using a(2,4) b25 by (simp add: word_le_nat_alt unat_exp del: power_increasing_iff)
    qed
    then have "unat (vma_count as) \<le> length newv"
      using cnt fits b25 by (simp add: word_le_nat_alt unat_exp)
    then have "take (unat (vma_count as)) (splice 0 (ranges as) newv) = ranges as"
      "length (splice 0 (ranges as) newv) = length newv"
      using as_ok_lens [OF ok] by (auto simp: splice_def ranges_def)
    moreover have "cap_ok (2 ^ b)" unfolding cap_ok_def by (intro disjI2 exI [of _ b]) (use fits(1) a(1) b(1) in simp)
    moreover have "need \<le> 2 ^ b" "unat ((2 :: u32) ^ b) \<le> length newv"
      using b(3) b25 fits by (auto simp: word_le_nat_alt unat_exp)
    ultimately show ?thesis using False a(3) b(2) Some le
      by (intro disjI2 exI [of _ "splice 0 (ranges as) newv"] exI [of _ "2 ^ b"])
        (simp add: vma_ensure_capacity_def ranges_def)
  qed
qed

subsection \<open>What the operations do to the map\<close>

definition bind_range :: "vaddr_range \<Rightarrow> (u32 \<rightharpoonup> u32 \<times> nat option \<times> u32) \<Rightarrow> (u32 \<rightharpoonup> u32 \<times> nat option \<times> u32)" where
  "bind_range v m va = (if covers v va then Some (attr v) else m va)"

lemma vma_insert_Some:
  "vma_insert km (Some as) (Some v) =
    (if va_end v \<le> va_start v then Some (- 1, Some as)
     else case insert_pos v (ranges as) of
       None \<Rightarrow> Some (- 1, Some as)
     | Some pos \<Rightarrow> Option.bind (vma_ensure_capacity km as (vma_count as + 1)) (\<lambda>(r, as1).
         if r < 0 then Some (- 1, Some as1)
         else Some (0, Some (as1\<lparr>vmas := (shift_up pos (unat (vma_count as1)) (vmas as1))[pos := v],
           vma_count := vma_count as1 + 1, transitional := False\<rparr>))))"
  by (simp add: vma_insert_def)

lemma vma_insert_spec:
  assumes ok: "as_ok as" and km: "km_ok km"
  shows "(\<exists>as'. vma_insert km (Some as) (Some v) = Some (0, Some as') \<and> as_ok as' \<and>
      amap as' = bind_range v (amap as) \<and> (\<forall>va. covers v va \<longrightarrow> amap as va = None) \<and>
      va_start v < va_end v \<and> vma_count as' > 0 \<and> vm_size as' = vm_size as \<and>
      set (ranges as') = insert v (set (ranges as))) \<or>
    (vma_insert km (Some as) (Some v) = Some (- 1, Some as) \<and>
      (va_end v \<le> va_start v \<or> (\<exists>va. covers v va \<and> amap as va \<noteq> None) \<or> (\<exists>n. km n = None)))"
proof (cases "va_end v \<le> va_start v")
  case True
  then show ?thesis by (simp add: vma_insert_Some)
next
  case False
  then have v: "va_start v < va_end v" by simp
  have rs: "rs_ok (ranges as)" using ok by (simp add: as_ok_def)
  note lens = as_ok_lens [OF ok]
  show ?thesis
  proof (cases "insert_pos v (ranges as)")
    case None
    then show ?thesis using insert_pos_None [OF rs v] False amap_ok [OF ok] by (simp add: vma_insert_Some)
  next
    case (Some pos)
    note p = insert_pos_Some [OF rs v Some]
    have cnt: "unat (vma_count as + 1) = unat (vma_count as) + 1"
      using lens(4) by (subst unat_add_no_wrap) auto
    from ensure_capacity [OF ok km, of "vma_count as + 1"] lens(4) cnt
    consider "vma_ensure_capacity km as (vma_count as + 1) = Some (- 1, as)" "\<exists>n. km n = None"
      | vs c where "vma_ensure_capacity km as (vma_count as + 1) = Some (0, as\<lparr>vmas := vs, vma_cap := c\<rparr>)"
          "cap_ok c" "vma_count as + 1 \<le> c" "unat c \<le> length vs"
          "take (unat (vma_count as)) vs = ranges as" by auto
    then show ?thesis
    proof cases
      case 1
      then show ?thesis using False Some by (simp add: vma_insert_Some)
    next
      case 2
      define as' where "as' = as\<lparr>vmas := (shift_up pos (unat (vma_count as)) vs)[pos := v], vma_cap := c,
        vma_count := vma_count as + 1, transitional := False\<rparr>"
      have res: "vma_insert km (Some as) (Some v) = Some (0, Some as')"
        using False Some 2(1) by (simp add: vma_insert_Some as'_def)
      have len: "unat (vma_count as) < length vs"
        using 2(3,4) cnt by (simp add: word_le_nat_alt)
      have new: "ranges as' = take pos (ranges as) @ v # drop pos (ranges as)"
        using take_insert_slot [of pos "unat (vma_count as)" vs v] len p lens(5) 2(5)
        by (simp add: ranges_def as'_def cnt)
      have ok': "as_ok as'"
        using p 2(2-4) unfolding as_ok_def new by (simp add: as'_def)
      have m: "amap as' = bind_range v (amap as)"
        unfolding amap_ok [OF ok'] amap_ok [OF ok] new
        by (rule ext) (use lookup_insert [OF rs] p in \<open>simp add: bind_range_def\<close>)
      have free: "\<forall>va. covers v va \<longrightarrow> amap as va = None"
        unfolding amap_ok [OF ok] lookup_None using p by (fastforce simp: covers_def)
      have "set (ranges as') = insert v (set (take pos (ranges as)) \<union> set (drop pos (ranges as)))"
        unfolding new by simp
      then have "set (ranges as') = insert v (set (ranges as))"
        by (metis append_take_drop_id set_append)
      moreover have "vma_count as' > 0" using cnt by (simp add: as'_def word_gt_0 unat_inj)
      ultimately show ?thesis using res ok' m free v by (auto simp: as'_def)
    qed
  qed
qed

lemma ranges_last:
  assumes "as_ok as" "vma_count as > 0"
  shows "ranges as = take (unat (vma_count as - 1)) (vmas as) @ [vmas as ! unat (vma_count as - 1)]"
    "unat (vma_count as) = Suc (unat (vma_count as - 1))"
proof -
  show c: "unat (vma_count as) = Suc (unat (vma_count as - 1))"
    using assms(2) by (simp add: word_gt_0 unat_minus_one unat_gt_0)
  then have "unat (vma_count as - 1) < length (vmas as)" using as_ok_lens(3) [OF assms(1)] by simp
  then show "ranges as = take (unat (vma_count as - 1)) (vmas as) @ [vmas as ! unat (vma_count as - 1)]"
    unfolding ranges_def c by (rule take_Suc_conv_app_nth)
qed

lemma set_last_end:
  assumes ok: "as_ok as" and c: "vma_count as > 0"
    and e: "va_start (vmas as ! unat (vma_count as - 1)) < e"
  shows "as_ok (set_last_end as e)"
    "ranges (set_last_end as e) = butlast (ranges as) @ [(last (ranges as))\<lparr>va_end := e\<rparr>]"
proof -
  note r = ranges_last [OF ok c]
  have len: "unat (vma_count as - 1) < length (vmas as)" using as_ok_lens(3) [OF ok] r(2) by simp
  have eq: "ranges (set_last_end as e) =
      take (unat (vma_count as - 1)) (vmas as) @ [(vmas as ! unat (vma_count as - 1))\<lparr>va_end := e\<rparr>]"
    using len by (simp add: ranges_def set_last_end_def Let_def r(2) take_Suc_conv_app_nth)
  then show "ranges (set_last_end as e) = butlast (ranges as) @ [(last (ranges as))\<lparr>va_end := e\<rparr>]"
    unfolding r(1) by simp
  show "as_ok (set_last_end as e)"
    using ok e unfolding as_ok_def eq r(1) by (simp add: set_last_end_def Let_def rs_ok_snoc)
qed

lemma shrink_loop_spec:
  assumes "as_ok as"
  shows "as_ok (shrink_loop as n) \<and> lookup (ranges (shrink_loop as n)) = lookup (ranges as) |` {va. va < n} \<and>
    (\<forall>r \<in> set (ranges (shrink_loop as n)). va_end r \<le> n)"
  using assms
proof (induction as n rule: shrink_loop.induct)
  case (1 as n)
  show ?case
  proof (cases "vma_count as > 0")
    case False
    then have "vma_count as = 0" by (simp add: word_gt_0)
    then have "ranges as = []" by (simp add: ranges_def)
    then show ?thesis using False 1(2) shrink_loop.simps [of as n] by (auto simp: restrict_map_def)
  next
    case c: True
    define i where "i = unat (vma_count as - 1)"
    define r where "r = vmas as ! i"
    define rs where "rs = take i (vmas as)"
    note last = ranges_last [OF 1(2) c, folded i_def, folded r_def rs_def]
    have rs: "rs_ok (rs @ [r])" using 1(2) by (simp add: as_ok_def last(1))
    note parts = rs [unfolded rs_ok_snoc]
    show ?thesis
    proof (cases "n \<le> va_start r")
      case True
      define as1 where "as1 = as\<lparr>vmas := shift_down i (unat (vma_count as)) (vmas as), vma_count := vma_count as - 1\<rparr>"
      have rm: "vma_remove (Some as) (Some i) = Some as1"
        using c last(2) by (auto simp: vma_remove_def as1_def)
      have rs1: "ranges as1 = rs"
        using take_shift_down_last [of "unat (vma_count as)" "vmas as"] as_ok_lens(3) [OF 1(2)] last(2)
        by (simp add: ranges_def as1_def rs_def i_def)
      have "unat (vma_count as - 1) \<le> unat (vma_cap as)" using as_ok_lens(1) [OF 1(2)] last(2) i_def by simp
      then have ok1: "as_ok as1"
        using 1(2) parts unfolding as_ok_def rs1 by (simp add: as1_def word_le_nat_alt)
      have step: "shrink_loop as n = shrink_loop as1 n"
        using shrink_loop.simps [of as n] c True rm by (simp add: Let_def i_def r_def)
      have "lookup (rs @ [r]) |` {va. va < n} = lookup rs |` {va. va < n}"
        using True by (auto simp: restrict_map_def lookup_append covers_def fun_eq_iff split: option.split)
      then show ?thesis
        using 1(1) [OF c i_def r_def True rm ok1] unfolding step last(1) rs1 by simp
    next
      case st: False
      have below: "lookup rs va = None" if "\<not> va < n" for va
        unfolding lookup_None using parts st that by (fastforce simp: covers_def)
      have ends: "\<forall>q \<in> set rs. va_end q \<le> n" using parts st by fastforce
      show ?thesis
      proof (cases "n < va_end r")
        case True
        have step: "shrink_loop as n = set_last_end as n"
          using shrink_loop.simps [of as n] c True st by (simp add: Let_def i_def r_def)
        have sl: "as_ok (set_last_end as n)" "ranges (set_last_end as n) = rs @ [r\<lparr>va_end := n\<rparr>]"
          using set_last_end [OF 1(2) c] st unfolding last(1) by (auto simp: r_def i_def)
        have "lookup (rs @ [r\<lparr>va_end := n\<rparr>]) va = (lookup (rs @ [r]) |` {va. va < n}) va" for va
          using below [of va] True
          by (auto simp: restrict_map_def lookup_append covers_def attr_def split: option.split)
        then show ?thesis using sl ends unfolding step last(1) sl(2) by auto
      next
        case False
        have step: "shrink_loop as n = as"
          using shrink_loop.simps [of as n] c False st by (simp add: Let_def i_def r_def)
        have "(lookup (rs @ [r]) |` {va. va < n}) va = lookup (rs @ [r]) va" for va
          using below [of va] False
          by (auto simp: restrict_map_def lookup_append covers_def)
        then show ?thesis using 1(2) ends False unfolding step last(1) by auto
      qed
    qed
  qed
qed

lemma as_ok_upd [simp]:
  "as_ok (as\<lparr>vm_size := n\<rparr>) = as_ok as" "as_ok (as\<lparr>vm_size := n, transitional := t\<rparr>) = as_ok as"
  "ranges (as\<lparr>vm_size := n\<rparr>) = ranges as" "ranges (as\<lparr>vm_size := n, transitional := t\<rparr>) = ranges as"
  by (simp_all add: as_ok_def ranges_def)

lemma amap_upd [simp]:
  "amap (as\<lparr>vm_size := n\<rparr>) = amap as" "amap (as\<lparr>vm_size := n, transitional := t\<rparr>) = amap as"
  by (simp_all add: amap_def vma_find_def fun_eq_iff)

text \<open>Every range lies below the size of the process.\<close>

definition within :: "address_space \<Rightarrow> bool" where
  "within as \<longleftrightarrow> (\<forall>r \<in> set (ranges as). va_end r \<le> vm_size as)"

lemma extend_in_place:
  assumes ok: "as_ok as" and ex: "extends_last as s fl" and e: "s < e"
  shows "as_ok (set_last_end as e)" "amap (set_last_end as e) = bind_range (anon_range s e fl) (amap as)"
    "set (ranges (set_last_end as e)) \<subseteq> insert ((last (ranges as))\<lparr>va_end := e\<rparr>) (set (ranges as))"
proof -
  have c: "vma_count as > 0" using ex by (simp add: extends_last_def)
  define r where "r = vmas as ! unat (vma_count as - 1)"
  define rs where "rs = take (unat (vma_count as - 1)) (vmas as)"
  note last = ranges_last(1) [OF ok c, folded r_def rs_def]
  have rs: "rs_ok (rs @ [r])" using ok by (simp add: as_ok_def last)
  note parts = rs [unfolded rs_ok_snoc]
  have r: "va_end r = s" "attr r = (fl, None, 0)"
    using ex by (auto simp: extends_last_def Let_def r_def attr_def)
  have st: "va_start r < e" using parts r(1) e by (meson order.strict_trans)
  note sl = set_last_end [OF ok c, folded r_def, OF st]
  show "as_ok (set_last_end as e)" by (rule sl)
  have "lookup (rs @ [r\<lparr>va_end := e\<rparr>]) va = bind_range (anon_range s e fl) (lookup (rs @ [r])) va" for va
  proof (cases "lookup rs va")
    case None
    have "va_start r < s" using parts r(1) by simp
    moreover have "attr (r\<lparr>va_end := e\<rparr>) = attr r" "attr (anon_range s e fl) = attr r"
      using r(2) by (simp_all add: attr_def anon_range_def)
    ultimately show ?thesis using None e r(1)
      by (auto simp: lookup_append bind_range_def covers_def anon_range_def)
  next
    case (Some a)
    then obtain q where "q \<in> set rs" "covers q va" using lookup_None [of rs va] by auto
    then have "\<not> s \<le> va" using parts r(1) by (fastforce simp: covers_def)
    then show ?thesis using Some by (simp add: lookup_append bind_range_def covers_def anon_range_def)
  qed
  then show "amap (set_last_end as e) = bind_range (anon_range s e fl) (amap as)"
    unfolding amap_ok [OF sl(1)] amap_ok [OF ok] sl(2) last by auto
  show "set (ranges (set_last_end as e)) \<subseteq> insert ((last (ranges as))\<lparr>va_end := e\<rparr>) (set (ranges as))"
    unfolding sl(2) last by auto
qed

text \<open>
  The growth that \<open>vma_expand\<close> and \<open>vma_reserve_zerofill\<close> share: the last range is extended, or a new one is
  inserted, and the address space maps exactly the new addresses with the wanted flags.
\<close>

lemma insert_above:
  assumes ok: "as_ok as" and km: "km_ok km" and w: "within as" and e: "vm_size as < e"
  shows "(\<exists>as'. vma_insert km (Some as) (Some (anon_range (vm_size as) e fl)) = Some (0, Some as') \<and> as_ok as' \<and>
      amap as' = bind_range (anon_range (vm_size as) e fl) (amap as) \<and> vma_count as' > 0 \<and>
      (\<forall>r \<in> set (ranges as'). va_end r \<le> e)) \<or>
    (vma_insert km (Some as) (Some (anon_range (vm_size as) e fl)) = Some (- 1, Some as) \<and> (\<exists>n. km n = None))"
proof -
  let ?v = "anon_range (vm_size as) e fl"
  have fields: "va_start ?v = vm_size as" "va_end ?v = e" by (simp_all add: anon_range_def)
  have free: "amap as va = None" if "covers ?v va" for va
    unfolding amap_ok [OF ok] lookup_None using w that by (fastforce simp: covers_def within_def fields)
  have le: "\<forall>r \<in> set (ranges as). va_end r \<le> e" using w e by (fastforce simp: within_def)
  from vma_insert_spec [OF ok km, of ?v] e le show ?thesis by (auto simp: fields free)
qed

lemma vma_expand_Some:
  "vma_expand km (Some as) e =
    (if e < vm_size as then Some (- 1, Some as) else if e = vm_size as then Some (0, Some as)
     else if extends_last as (vm_size as) (VMA_READ OR VMA_WRITE) then
       Some (0, Some ((set_last_end as e)\<lparr>vm_size := e, transitional := False\<rparr>))
     else Option.bind (vma_insert km (Some as) (Some (anon_range (vm_size as) e (VMA_READ OR VMA_WRITE))))
       (\<lambda>(r, asp1). if r < 0 then Some (- 1, asp1)
         else Some (0, map_option (\<lambda>as1. as1\<lparr>vm_size := e,
           transitional := (if vma_count as1 > 0 then False else transitional as1)\<rparr>) asp1)))"
  by (simp add: vma_expand_def)

lemma extend_within:
  assumes "as_ok as" "extends_last as (vm_size as) fl" "vm_size as < e" "within as"
  shows "\<forall>r \<in> set (ranges (set_last_end as e)). va_end r \<le> e"
  using extend_in_place(3) [OF assms(1-3)] assms(3,4) by (fastforce simp: within_def)

lemma vma_expand_spec:
  assumes ok: "as_ok as" and km: "km_ok km" and w: "within as" and e: "vm_size as < e"
  shows "(\<exists>as'. vma_expand km (Some as) e = Some (0, Some as') \<and> as_ok as' \<and> within as' \<and> vm_size as' = e \<and>
      amap as' = bind_range (anon_range (vm_size as) e (VMA_READ OR VMA_WRITE)) (amap as)) \<or>
    (vma_expand km (Some as) e = Some (- 1, Some as) \<and> (\<exists>n. km n = None))"
proof (cases "extends_last as (vm_size as) (VMA_READ OR VMA_WRITE)")
  case True
  note ext = extend_in_place [OF ok True e] extend_within [OF ok True e w]
  have "\<not> e < vm_size as" "e \<noteq> vm_size as" "\<not> e \<le> vm_size as" using e by auto
  then show ?thesis using ext True by (intro disjI1) (simp add: vma_expand_Some within_def)
next
  case False
  from insert_above [OF ok km w e, of "VMA_READ OR VMA_WRITE"] show ?thesis
    using False e by (auto simp: vma_expand_Some within_def)
qed

lemma vma_reserve_Some:
  "vma_reserve_zerofill km (Some as) s e =
    (if s \<ge> e then Some (- 1, Some as) else if s \<noteq> vm_size as then Some (- 1, Some as)
     else if extends_last as s (VMA_READ OR VMA_WRITE OR VMA_ZEROFILL) then
       Some (0, Some ((set_last_end as e)\<lparr>vm_size := e, transitional := False\<rparr>))
     else Option.bind (vma_insert km (Some as) (Some (anon_range s e (VMA_READ OR VMA_WRITE OR VMA_ZEROFILL))))
       (\<lambda>(r, asp1). if r < 0 then Some (- 1, asp1)
         else Some (0, map_option (\<lambda>as1. as1\<lparr>vm_size := e\<rparr>) asp1)))"
  by (simp add: vma_reserve_zerofill_def)

lemma vma_reserve_spec:
  assumes ok: "as_ok as" and km: "km_ok km" and w: "within as" and e: "vm_size as < e"
  shows "(\<exists>as'. vma_reserve_zerofill km (Some as) (vm_size as) e = Some (0, Some as') \<and> as_ok as' \<and> within as' \<and>
      vm_size as' = e \<and>
      amap as' = bind_range (anon_range (vm_size as) e (VMA_READ OR VMA_WRITE OR VMA_ZEROFILL)) (amap as)) \<or>
    (vma_reserve_zerofill km (Some as) (vm_size as) e = Some (- 1, Some as) \<and> (\<exists>n. km n = None))"
proof (cases "extends_last as (vm_size as) (VMA_READ OR VMA_WRITE OR VMA_ZEROFILL)")
  case True
  note ext = extend_in_place [OF ok True e] extend_within [OF ok True e w]
  have "\<not> e < vm_size as" "e \<noteq> vm_size as" "\<not> e \<le> vm_size as" using e by auto
  then show ?thesis using ext True by (intro disjI1) (simp add: vma_reserve_Some within_def)
next
  case False
  from insert_above [OF ok km w e, of "VMA_READ OR VMA_WRITE OR VMA_ZEROFILL"] show ?thesis
    using False e by (auto simp: vma_reserve_Some within_def)
qed

lemma vma_shrink_spec:
  assumes "as_ok as" "n < vm_size as"
  shows "\<exists>as'. vma_shrink (Some as) n = (0, Some as') \<and> as_ok as' \<and> within as' \<and> vm_size as' = n \<and>
    amap as' = amap as |` {va. va < n}"
proof -
  have "\<not> vm_size as < n" "n \<noteq> vm_size as" using assms(2) by auto
  then show ?thesis
    using shrink_loop_spec [OF assms(1), of n] amap_ok [of "shrink_loop as n"] amap_ok [OF assms(1)]
    by (simp add: vma_shrink_def within_def)
qed

lemma take_shift_down:
  assumes "i < n" "n \<le> length xs"
  shows "take (n - 1) (shift_down i n xs) = take i (take n xs) @ drop (Suc i) (take n xs)" (is "?l = ?r")
proof (rule nth_equalityI)
  show "length ?l = length ?r" using assms by simp
  fix j assume "j < length ?l"
  then have j: "j < n - 1" using assms by simp
  then show "?l ! j = ?r ! j"
    using assms by (cases "j < i") (auto simp: nth_append nth_shift_down min_def)
qed

lemma rs_ok_drop_one: "rs_ok (xs @ r # ys) \<Longrightarrow> rs_ok (xs @ ys)"
  by (auto simp: rs_ok_def sorted_wrt_append)

lemma lookup_drop_one:
  assumes "rs_ok (xs @ r # ys)"
  shows "lookup (xs @ ys) va = (if covers r va then None else lookup (xs @ r # ys) va)"
proof (cases "covers r va")
  case True
  have "\<not> covers q va" if "q \<in> set xs \<union> set ys" for q
    using that assms True by (fastforce simp: rs_ok_def sorted_wrt_append covers_def)
  then have "lookup (xs @ ys) va = None" unfolding lookup_None by auto
  then show ?thesis using True by simp
next
  case False
  then show ?thesis by (auto simp: lookup_append split: option.split)
qed

lemma vma_remove_spec:
  assumes ok: "as_ok as" and i: "i < unat (vma_count as)"
  shows "\<exists>as'. vma_remove (Some as) (Some i) = Some as' \<and> as_ok as' \<and> vm_size as' = vm_size as \<and>
    amap as' = amap as |` {va. \<not> covers (vmas as ! i) va}"
proof -
  define as' where "as' = as\<lparr>vmas := shift_down i (unat (vma_count as)) (vmas as), vma_count := vma_count as - 1\<rparr>"
  note lens = as_ok_lens [OF ok]
  have nz: "vma_count as \<noteq> 0" using i by auto
  then have c1: "unat (vma_count as - 1) = unat (vma_count as) - 1" by (simp add: unat_minus_one)
  have "ranges as ! i = vmas as ! i" using i by (simp add: ranges_def)
  with id_take_nth_drop [of i "ranges as"] i lens(5)
  have split: "take i (ranges as) @ (vmas as ! i) # drop (Suc i) (ranges as) = ranges as" by simp
  have new: "ranges as' = take i (ranges as) @ drop (Suc i) (ranges as)"
    using take_shift_down [OF i lens(3)] by (simp add: ranges_def as'_def c1)
  have rs: "rs_ok (take i (ranges as) @ (vmas as ! i) # drop (Suc i) (ranges as))"
    unfolding split using ok by (simp add: as_ok_def)
  have ok': "as_ok as'"
    using ok rs_ok_drop_one [OF rs] lens(1) c1 unfolding as_ok_def new
    by (simp add: as'_def word_le_nat_alt)
  have "amap as' va = (amap as |` {va. \<not> covers (vmas as ! i) va}) va" for va
    unfolding amap_ok [OF ok'] amap_ok [OF ok] new using lookup_drop_one [OF rs, of va, unfolded split]
    by (simp add: restrict_map_def)
  then show ?thesis using nz i ok' by (auto simp: vma_remove_def as'_def)
qed

lemma dup_cow_spec:
  assumes ok: "as_ok src" and km: "km_ok km"
  shows "(\<exists>dst. address_space_dup_cow km got cpd (Some src) = Some (Some dst, []) \<and> as_ok dst \<and>
      amap dst = amap src \<and> ranges dst = ranges src \<and> vm_size dst = vm_size src \<and> pgdir dst = cpd \<and> cpd \<noteq> None) \<or>
    (\<exists>rel. address_space_dup_cow km got cpd (Some src) = Some (None, rel) \<and>
      (\<not> got \<and> rel = [] \<or> got \<and> cpd = None \<and> rel = [Free_as] \<or>
       (\<exists>pd. got \<and> cpd = Some pd \<and> rel = [Freevm pd, Free_as] \<and> (\<exists>n. km n = None))))"
proof (cases "got \<and> cpd \<noteq> None")
  case False
  then show ?thesis
    by (cases got; cases cpd) (auto simp: address_space_dup_cow_def address_space_alloc_def)
next
  case True
  then obtain pd where pd: "cpd = Some pd" by auto
  define d1 where "d1 = zeroed_as\<lparr>pgdir := Some pd, owns_pgdir := True, transitional := transitional src\<rparr>"
  define fin where "fin = (\<lambda>d :: address_space. d\<lparr>vm_size := vm_size src, rss := rss src,
    transitional := (if vma_count d > 0 then False else transitional d)\<rparr>)"
  have fin: "ranges (fin d) = ranges d" "as_ok (fin d) = as_ok d" "pgdir (fin d) = pgdir d" "vm_size (fin d) = vm_size src" for d
    by (simp_all add: fin_def ranges_def as_ok_def)
  have d1: "as_ok d1" "vma_count d1 = 0" by (simp_all add: d1_def zeroed_as_def as_ok_def cap_ok_def ranges_def)
  show ?thesis
  proof (cases "vma_count src > 0")
    case False
    then have "ranges src = []" by (simp add: ranges_def word_gt_0)
    moreover have "address_space_dup_cow km got cpd (Some src) = Some (Some (fin d1), [])"
      using True pd False by (simp add: address_space_dup_cow_def address_space_alloc_def d1_def fin_def zeroed_as_def)
    ultimately show ?thesis using d1 pd amap_ok [of "fin d1"] amap_ok [OF ok]
      by (intro disjI1 exI [of _ "fin d1"]) (simp add: fin, simp add: d1_def ranges_def zeroed_as_def)
  next
    case c: True
    have "unat (vma_count src) \<le> 2 ^ 24 + 1" using as_ok_lens(4) [OF ok] by simp
    from ensure_capacity [OF d1(1) km this]
    consider "vma_ensure_capacity km d1 (vma_count src) = Some (- 1, d1)" "\<exists>n. km n = None"
      | vs k where "vma_ensure_capacity km d1 (vma_count src) = Some (0, d1\<lparr>vmas := vs, vma_cap := k\<rparr>)"
          "cap_ok k" "vma_count src \<le> k" "unat k \<le> length vs" by auto
    then show ?thesis
    proof cases
      case 1
      then show ?thesis using True pd c
        by (auto simp: address_space_dup_cow_def address_space_alloc_def d1_def Let_def)
    next
      case 2
      define d2 where "d2 = d1\<lparr>vmas := splice 0 (ranges src) vs, vma_cap := k, vma_count := vma_count src\<rparr>"
      have len: "length (ranges src) = unat (vma_count src)" "unat (vma_count src) \<le> length vs"
        using as_ok_lens [OF ok] 2(3,4) by (simp_all add: word_le_nat_alt)
      then have r2: "ranges d2 = ranges src" by (simp add: ranges_def d2_def splice_def)
      have ok2: "as_ok d2" using ok 2(2-4) len unfolding as_ok_def r2 by (simp add: d2_def)
      have "address_space_dup_cow km got cpd (Some src) = Some (Some (fin d2), [])"
        using True pd c 2(1)
        by (simp add: address_space_dup_cow_def address_space_alloc_def d1_def [symmetric] fin_def d2_def Let_def)
      then show ?thesis using ok2 r2 pd amap_ok [of "fin d2"] amap_ok [OF ok]
        by (intro disjI1 exI [of _ "fin d2"]) (simp add: fin, simp add: d2_def d1_def)
    qed
  qed
qed

subsection \<open>Every address space the kernel can build\<close>

inductive vma_reach :: "vma_alloc \<Rightarrow> address_space \<Rightarrow> bool" for km where
  reach_create: "address_space_create got kvm = Some as \<Longrightarrow> vma_reach km as"
| reach_dup: "vma_reach km as \<Longrightarrow> address_space_dup_cow km got cpd (Some as) = Some (Some as', rel) \<Longrightarrow> vma_reach km as'"
| reach_insert: "vma_reach km as \<Longrightarrow> vma_insert km (Some as) vp = Some (r, Some as') \<Longrightarrow> vma_reach km as'"
| reach_remove: "vma_reach km as \<Longrightarrow> vma_remove (Some as) ip = Some as' \<Longrightarrow> vma_reach km as'"
| reach_expand: "vma_reach km as \<Longrightarrow> vma_expand km (Some as) n = Some (r, Some as') \<Longrightarrow> vma_reach km as'"
| reach_reserve: "vma_reach km as \<Longrightarrow> vma_reserve_zerofill km (Some as) s e = Some (r, Some as') \<Longrightarrow> vma_reach km as'"
| reach_shrink: "vma_reach km as \<Longrightarrow> vma_shrink (Some as) n = (r, Some as') \<Longrightarrow> vma_reach km as'"
| reach_size: "vma_reach km as \<Longrightarrow> vma_reach km (as\<lparr>vm_size := n\<rparr>)"

text \<open>Every operation returns and keeps the invariant.\<close>

lemma vma_insert_ok:
  assumes "as_ok as" "km_ok km"
  shows "\<exists>r as'. vma_insert km (Some as) vp = Some (r, Some as') \<and> as_ok as'"
proof (cases vp)
  case None
  then show ?thesis using assms by (simp add: vma_insert_def)
next
  case (Some v)
  then show ?thesis using vma_insert_spec [OF assms, of v] assms(1) by blast
qed

lemma vma_expand_ok:
  assumes ok: "as_ok as" and km: "km_ok km"
  shows "\<exists>r as'. vma_expand km (Some as) n = Some (r, Some as') \<and> as_ok as'"
proof (cases "vm_size as < n \<and> extends_last as (vm_size as) (VMA_READ OR VMA_WRITE)")
  case True
  then show ?thesis using extend_in_place(1) [OF ok] by (auto simp: vma_expand_Some)
next
  case False
  obtain r as' where "vma_insert km (Some as) (Some (anon_range (vm_size as) n (VMA_READ OR VMA_WRITE))) =
      Some (r, Some as')" "as_ok as'"
    using vma_insert_ok [OF ok km] by blast
  then show ?thesis using False ok by (auto simp: vma_expand_Some)
qed

lemma vma_reserve_ok:
  assumes ok: "as_ok as" and km: "km_ok km"
  shows "\<exists>r as'. vma_reserve_zerofill km (Some as) s e = Some (r, Some as') \<and> as_ok as'"
proof (cases "s < e \<and> extends_last as s (VMA_READ OR VMA_WRITE OR VMA_ZEROFILL)")
  case True
  then show ?thesis using extend_in_place(1) [OF ok] ok by (auto simp: vma_reserve_Some)
next
  case False
  obtain r as' where "vma_insert km (Some as) (Some (anon_range s e (VMA_READ OR VMA_WRITE OR VMA_ZEROFILL))) =
      Some (r, Some as')" "as_ok as'"
    using vma_insert_ok [OF ok km] by blast
  then show ?thesis using False ok by (auto simp: vma_reserve_Some)
qed

lemma vma_remove_ok: "as_ok as \<Longrightarrow> vma_remove (Some as) ip = Some as' \<Longrightarrow> as_ok as'"
proof -
  assume ok: "as_ok as" and rm: "vma_remove (Some as) ip = Some as'"
  show "as_ok as'"
  proof (cases "\<exists>i. ip = Some i \<and> i < unat (vma_count as)")
    case True
    then show ?thesis using vma_remove_spec [OF ok] rm by fastforce
  next
    case False
    then have "as' = as" using rm by (auto simp: vma_remove_def split: option.splits if_splits)
    then show ?thesis using ok by simp
  qed
qed

lemma vma_shrink_ok: "as_ok as \<Longrightarrow> vma_shrink (Some as) n = (r, Some as') \<Longrightarrow> as_ok as'"
  using vma_shrink_spec [of as n] by (cases "n < vm_size as") (auto simp: vma_shrink_def split: if_splits)

lemma vma_reach_inv:
  assumes "vma_reach km as" "km_ok km"
  shows "as_ok as"
  using assms
proof (induction rule: vma_reach.induct)
  case (reach_create got kvm as)
  then have "ranges as = []" "vma_count as = 0" "vma_cap as = 0"
    by (auto simp: address_space_create_def address_space_alloc_def zeroed_as_def ranges_def
        split: if_splits option.splits)
  then show ?case by (simp add: as_ok_def cap_ok_def)
next
  case (reach_dup as got cpd as' rel)
  then show ?case using dup_cow_spec [of as km got cpd] by fastforce
next
  case (reach_insert as vp r as')
  then show ?case using vma_insert_ok [of as km vp] by fastforce
next
  case (reach_remove as ip as')
  then show ?case by (blast intro: vma_remove_ok)
next
  case (reach_expand as n r as')
  then show ?case using vma_expand_ok [of as km n] by fastforce
next
  case (reach_reserve as s e r as')
  then show ?case using vma_reserve_ok [of as km s e] by fastforce
next
  case (reach_shrink as n r as')
  then show ?case by (blast intro: vma_shrink_ok)
next
  case (reach_size as n)
  then show ?case by simp
qed

subsection \<open>The properties\<close>

text \<open>A concrete allocator: it hands out what is asked up to the physical memory.\<close>

definition demo_km :: vma_alloc where
  "demo_km n = (if unat n \<le> 0x20000000 then Some (replicate (unat n div 20 + 1) (anon_range 0 0 0)) else None)"

lemma demo_km_ok: "km_ok demo_km"
proof -
  have "unat n \<le> 20 * (unat n div 20 + 1)" for n :: u32 by presburger
  then show ?thesis by (auto simp: km_ok_def demo_km_def)
qed

lemma zeroed_ok: "as_ok zeroed_as" "within zeroed_as"
  by (simp_all add: as_ok_def zeroed_as_def cap_ok_def ranges_def within_def)





lemma vma_resize_spec:
  assumes "as_ok as" "within as" "km_ok km"
  shows "vm_size as < n \<Longrightarrow>
      (\<exists>as'. vma_expand km (Some as) n = Some (0, Some as') \<and> as_ok as' \<and> within as' \<and> vm_size as' = n \<and>
        amap as' = bind_range (anon_range (vm_size as) n (VMA_READ OR VMA_WRITE)) (amap as) \<and>
        (\<exists>as''. vma_shrink (Some as') (vm_size as) = (0, Some as'') \<and> amap as'' = amap as \<and> vm_size as'' = vm_size as)) \<or>
      (vma_expand km (Some as) n = Some (- 1, Some as) \<and> (\<exists>k. km k = None))"
    and "n < vm_size as \<Longrightarrow> vma_expand km (Some as) n = Some (- 1, Some as) \<and>
      (\<exists>as'. vma_shrink (Some as) n = (0, Some as') \<and> as_ok as' \<and> within as' \<and> vm_size as' = n \<and>
        amap as' = amap as |` {va. va < n})"
proof -
  have below: "va < vm_size as" if "amap as va = Some a" for va a
  proof -
    have "\<exists>r \<in> set (ranges as). covers r va"
      using that lookup_None [of "ranges as" va] unfolding amap_ok [OF assms(1)] by auto
    then show ?thesis using assms(2) by (fastforce simp: within_def covers_def)
  qed
  { assume n: "vm_size as < n"
    show "(\<exists>as'. vma_expand km (Some as) n = Some (0, Some as') \<and> as_ok as' \<and> within as' \<and> vm_size as' = n \<and>
        amap as' = bind_range (anon_range (vm_size as) n (VMA_READ OR VMA_WRITE)) (amap as) \<and>
        (\<exists>as''. vma_shrink (Some as') (vm_size as) = (0, Some as'') \<and> amap as'' = amap as \<and> vm_size as'' = vm_size as)) \<or>
      (vma_expand km (Some as) n = Some (- 1, Some as) \<and> (\<exists>k. km k = None))"
      using vma_expand_spec [OF assms(1,3,2) n]
    proof (elim disjE exE conjE)
      fix as' assume as': "vma_expand km (Some as) n = Some (0, Some as')" "as_ok as'" "within as'" "vm_size as' = n"
        "amap as' = bind_range (anon_range (vm_size as) n (VMA_READ OR VMA_WRITE)) (amap as)"
      have "amap as' |` {va. va < vm_size as} = amap as"
      proof
        fix va show "(amap as' |` {va. va < vm_size as}) va = amap as va"
          unfolding as'(5) using below [of va]
          by (cases "amap as va") (auto simp: restrict_map_def bind_range_def covers_def anon_range_def)
      qed
      then show ?thesis using vma_shrink_spec [OF as'(2), of "vm_size as"] as' n by auto
    qed blast }
  { assume n: "n < vm_size as"
    then show "vma_expand km (Some as) n = Some (- 1, Some as) \<and>
      (\<exists>as'. vma_shrink (Some as) n = (0, Some as') \<and> as_ok as' \<and> within as' \<and> vm_size as' = n \<and>
        amap as' = amap as |` {va. va < n})"
      using vma_shrink_spec [OF assms(1) n] by (simp add: vma_expand_Some) }
qed



text \<open>
  The capacity loop of \<open>vma_ensure_capacity\<close>, started at a power of two, returns exactly when the
  request is at most \<open>2 ^ 31\<close>, and then with the first power of two that is large enough; beyond that the doubled
  capacity wraps to 0 and the loop never ends.
\<close>

theorem capacity_loop:
  assumes "a \<le> 31"
  shows "((\<exists>b. grow_cap (2 ^ a) need = Some (2 ^ b) \<and> a \<le> b \<and> b \<le> 31 \<and> need \<le> 2 ^ b \<and>
      (b = a \<or> 2 ^ (b - 1) < need)) = (need \<le> 2 ^ 31)) \<and>
    (grow_cap (2 ^ a) need = None) = (\<not> need \<le> 2 ^ 31)"
proof -
  have "2 ^ 31 < unat need \<longleftrightarrow> \<not> need \<le> 2 ^ 31" by (simp add: word_le_nat_alt not_le)
  moreover have "need \<le> 2 ^ b \<and> (b = a \<or> 2 ^ (b - 1) < need)"
    if "b \<le> 31" "unat need \<le> 2 ^ b" "a < b \<longrightarrow> 2 ^ (b - 1) < unat need" "a \<le> b" for b
    using that pow2_less [of "b - 1" need] by (auto simp: word_le_nat_alt unat_exp)
  ultimately show ?thesis
    using grow_cap_returns [OF assms, of need] grow_cap_diverges [of need a] by (force simp: not_less)
qed

theorem capacity_loop_witness:
  "grow_cap 4 5 \<noteq> None \<and> grow_cap 4 0x80000001 = None"
  using capacity_loop [of 2 5] capacity_loop [of 2 "0x80000001"] by simp

end
