(* ===== verification/Sched.thy ===== *)
theory Sched
  imports Prelude
begin

text \<open>
  The multi-level feedback queue of \<open>kernel/core/proc_sched.c\<close>: five intrusive doubly linked run
  queues threaded through the process table, the enqueue policy (demotion, promotion, quantum), the
  choice of the next process, the timer charge and the global boost. A pointer to a process is its
  index in \<open>ptable.proc\<close>. All operations run under \<open>ptable.lock\<close> and are atomic steps; the timer charge
  runs on the CPU that owns the process and is one too. The process record has the fields that
  scheduling, sleeping, signals and waiting use.
\<close>

definition MLFQ_NQUEUES :: nat where "MLFQ_NQUEUES = 5"
definition mlfq_quanta :: "u16 list" where "mlfq_quanta = [1, 2, 4, 8, 16]"
definition MLFQ_PROMOTE_MIN_SLEEP :: u32 where "MLFQ_PROMOTE_MIN_SLEEP = 2"
definition MLFQ_BOOST_INTERVAL_MIN :: u32 where "MLFQ_BOOST_INTERVAL_MIN = 10"
definition MLFQ_BOOST_INTERVAL_MAX :: u32 where "MLFQ_BOOST_INTERVAL_MAX = 5000"
definition SCHED_F_BUDGET_EXPIRED :: u8 where "SCHED_F_BUDGET_EXPIRED = 1"
definition SCHED_F_BOOST_APPLIED :: u8 where "SCHED_F_BOOST_APPLIED = 2"

datatype procstate = UNUSED | EMBRYO | SLEEPING | RUNNABLE | RUNNING | STOPPED | ZOMBIE

datatype enq_reason = ENQ_FORK | ENQ_WAKE | ENQ_YIELD | ENQ_SIGNAL | ENQ_ALARM | ENQ_BOOST

record proc =
  state :: procstate
  pid :: int
  pgid :: int
  parent :: "nat option"
  chan :: u32
  killed :: bool
  xstatus :: u32
  wait_event :: nat
  wait_status :: u32
  sig_pending :: u32
  sig_caught :: u32
  sig_mask :: u32
  sig_ignored :: u32
  sig_handler :: "u32 list"
  alarm_ticks :: u32
  alarm_interval_ticks :: u32
  sched_q :: u8
  sched_flags :: u8
  sched_budget_left :: u16
  sched_enq_tick :: u32
  sched_last_block_tick :: u32
  sched_last_wake_tick :: u32
  sched_next :: "nat option"
  sched_prev :: "nat option"
  tick_next :: "nat option"
  on_tickq :: bool

record mlfq_queue =
  qhead :: "nat option"
  qtail :: "nat option"
  qcount :: u32

record ptable =
  procs :: "proc list"
  mlfq_qs :: "mlfq_queue list"
  mlfq_last_boost_tick :: u32
  mlfq_boost_interval_ticks :: u32
  stat_promotions :: u32
  stat_demotions :: u32
  stat_boosts :: u32
  stat_budget_expired :: u32
  ticks :: u32
  active_alarm_count :: int
  chan_wait_hash :: "u32 list"
  tick_sleepq_head :: "nat option"
  active_tick_sleepers :: int

definition setp :: "nat \<Rightarrow> (proc \<Rightarrow> proc) \<Rightarrow> ptable \<Rightarrow> ptable" where
  "setp p f s = s\<lparr>procs := (procs s)[p := f (procs s ! p)]\<rparr>"

definition setq :: "nat \<Rightarrow> (mlfq_queue \<Rightarrow> mlfq_queue) \<Rightarrow> ptable \<Rightarrow> ptable" where
  "setq k f s = s\<lparr>mlfq_qs := (mlfq_qs s)[k := f (mlfq_qs s ! k)]\<rparr>"

subsection \<open>The linked queues\<close>

definition mlfq_list_append :: "nat \<Rightarrow> nat \<Rightarrow> ptable \<Rightarrow> ptable" where
  "mlfq_list_append k p s =
     (let tl = qtail (mlfq_qs s ! k);
          s = setp p (\<lambda>x. x\<lparr>sched_next := None, sched_prev := tl\<rparr>) s;
          s = (case tl of
                 Some t \<Rightarrow> setp t (\<lambda>x. x\<lparr>sched_next := Some p\<rparr>) s
               | None \<Rightarrow> setq k (\<lambda>q. q\<lparr>qhead := Some p\<rparr>) s)
      in setq k (\<lambda>q. q\<lparr>qtail := Some p, qcount := qcount q + 1\<rparr>) s)"

definition mlfq_list_remove :: "nat \<Rightarrow> nat \<Rightarrow> ptable \<Rightarrow> ptable" where
  "mlfq_list_remove k p s =
     (let nx = sched_next (procs s ! p);
          pv = sched_prev (procs s ! p);
          s = (case pv of
                 Some a \<Rightarrow> setp a (\<lambda>x. x\<lparr>sched_next := nx\<rparr>) s
               | None \<Rightarrow> setq k (\<lambda>q. q\<lparr>qhead := nx\<rparr>) s);
          s = (case nx of
                 Some b \<Rightarrow> setp b (\<lambda>x. x\<lparr>sched_prev := pv\<rparr>) s
               | None \<Rightarrow> setq k (\<lambda>q. q\<lparr>qtail := pv\<rparr>) s);
          s = setp p (\<lambda>x. x\<lparr>sched_next := None, sched_prev := None\<rparr>) s
      in setq k (\<lambda>q. if qcount q > 0 then q\<lparr>qcount := qcount q - 1\<rparr> else q) s)"

definition mlfq_is_queued :: "nat \<Rightarrow> ptable \<Rightarrow> bool" where
  "mlfq_is_queued p s =
     (if sched_next (procs s ! p) \<noteq> None \<or> sched_prev (procs s ! p) \<noteq> None then True
      else let q = unat (sched_q (procs s ! p)) in
        q < MLFQ_NQUEUES \<and> qhead (mlfq_qs s ! q) = Some p)"

subsection \<open>The enqueue policy\<close>

definition budget_expired :: "proc \<Rightarrow> bool" where
  "budget_expired x \<longleftrightarrow> sched_flags x AND SCHED_F_BUDGET_EXPIRED \<noteq> 0"

definition demote :: "enq_reason \<Rightarrow> proc \<Rightarrow> proc" where
  "demote reason x =
     (let x1 = (if budget_expired x \<and> reason = ENQ_YIELD \<and> sched_q x < of_nat (MLFQ_NQUEUES - 1)
                then x\<lparr>sched_q := sched_q x + 1\<rparr> else x)
      in x1\<lparr>sched_flags := sched_flags x1 AND NOT SCHED_F_BUDGET_EXPIRED\<rparr>)"

definition is_wake :: "enq_reason \<Rightarrow> bool" where
  "is_wake reason \<longleftrightarrow> reason = ENQ_WAKE \<or> reason = ENQ_ALARM \<or> reason = ENQ_SIGNAL"

definition earns_promotion :: "enq_reason \<Rightarrow> u32 \<Rightarrow> proc \<Rightarrow> bool" where
  "earns_promotion reason now x \<longleftrightarrow>
     is_wake reason \<and> now - sched_last_block_tick x \<ge> MLFQ_PROMOTE_MIN_SLEEP \<and> sched_q x > 0"

definition promote :: "enq_reason \<Rightarrow> u32 \<Rightarrow> proc \<Rightarrow> proc" where
  "promote reason now x =
     (let x1 = (if earns_promotion reason now x then x\<lparr>sched_q := sched_q x - 1\<rparr> else x)
      in if is_wake reason then x1\<lparr>sched_last_wake_tick := now\<rparr> else x1)"

definition clamp_level :: "proc \<Rightarrow> proc" where
  "clamp_level x =
     (if unat (sched_q x) \<ge> MLFQ_NQUEUES then x\<lparr>sched_q := of_nat (MLFQ_NQUEUES - 1)\<rparr> else x)"

text \<open>The scheduling fields of a process after the policy, before it is linked.\<close>

definition enq_policy :: "enq_reason \<Rightarrow> u32 \<Rightarrow> proc \<Rightarrow> proc" where
  "enq_policy reason now x =
     (let x1 = clamp_level (promote reason now (demote reason x));
          q = sched_q x1;
          x2 = (if q \<noteq> sched_q x \<or> budget_expired x \<or> reason \<noteq> ENQ_YIELD
                then x1\<lparr>sched_budget_left := mlfq_quanta ! unat q\<rparr> else x1)
      in x2\<lparr>sched_enq_tick := now\<rparr>)"

definition enq_count :: "enq_reason \<Rightarrow> proc \<Rightarrow> ptable \<Rightarrow> ptable" where
  "enq_count reason x s =
     s\<lparr>stat_demotions := stat_demotions s + (if budget_expired x \<and> reason = ENQ_YIELD then 1 else 0),
       stat_promotions := stat_promotions s + (if earns_promotion reason (ticks s) (demote reason x) then 1 else 0)\<rparr>"

definition enq_unlink :: "enq_reason \<Rightarrow> nat \<Rightarrow> ptable \<Rightarrow> ptable" where
  "enq_unlink reason p s =
     (if reason \<noteq> ENQ_YIELD \<and> mlfq_is_queued p s
      then mlfq_list_remove (unat (sched_q (procs s ! p))) p s else s)"

definition schedq_enqueue_locked :: "nat option \<Rightarrow> enq_reason \<Rightarrow> ptable \<Rightarrow> ptable" where
  "schedq_enqueue_locked pp reason s =
     (case pp of None \<Rightarrow> s
      | Some p \<Rightarrow>
          let s1 = enq_unlink reason p s;
              s2 = enq_count reason (procs s1 ! p) s1;
              s3 = setp p (enq_policy reason (ticks s2)) s2
          in mlfq_list_append (unat (sched_q (procs s3 ! p))) p s3)"

definition schedq_dequeue_locked :: "nat option \<Rightarrow> ptable \<Rightarrow> ptable" where
  "schedq_dequeue_locked pp s =
     (case pp of None \<Rightarrow> s
      | Some p \<Rightarrow>
          if \<not> mlfq_is_queued p s then s
          else if unat (sched_q (procs s ! p)) < MLFQ_NQUEUES
          then mlfq_list_remove (unat (sched_q (procs s ! p))) p s else s)"

fun pick_from :: "nat list \<Rightarrow> ptable \<Rightarrow> nat option \<times> ptable" where
  "pick_from [] s = (None, s)"
| "pick_from (q # qs) s =
     (case qhead (mlfq_qs s ! q) of
        None \<Rightarrow> pick_from qs s
      | Some p \<Rightarrow> (Some p, mlfq_list_remove q p s))"

definition schedq_pick_next_locked :: "ptable \<Rightarrow> nat option \<times> ptable" where
  "schedq_pick_next_locked s = pick_from [0..<MLFQ_NQUEUES] s"

subsection \<open>Timer charge and boost\<close>

definition mlfq_timer_charge :: "nat option \<Rightarrow> ptable \<Rightarrow> ptable" where
  "mlfq_timer_charge pp s =
     (case pp of None \<Rightarrow> s
      | Some p \<Rightarrow>
          let x = procs s ! p in
          if sched_budget_left x > 1 then setp p (\<lambda>x. x\<lparr>sched_budget_left := sched_budget_left x - 1\<rparr>) s
          else
            let s1 = setp p (\<lambda>x. x\<lparr>sched_budget_left := 0\<rparr>) s in
            if \<not> budget_expired x then
              (setp p (\<lambda>x. x\<lparr>sched_flags := sched_flags x OR SCHED_F_BUDGET_EXPIRED\<rparr>) s1)
                \<lparr>stat_budget_expired := stat_budget_expired s1 + 1\<rparr>
            else s1)"

definition clear_boost_flags :: "proc \<Rightarrow> proc" where
  "clear_boost_flags x =
     x\<lparr>sched_flags := sched_flags x AND NOT (SCHED_F_BUDGET_EXPIRED OR SCHED_F_BOOST_APPLIED)\<rparr>"

definition boost_one :: "nat \<Rightarrow> ptable \<Rightarrow> ptable" where
  "boost_one i s =
     (let x = procs s ! i in
      if state x = UNUSED \<or> state x = ZOMBIE \<or> state x = EMBRYO then s
      else if state x = RUNNING then s
      else if sched_q x \<le> 1 then s
      else if state x = RUNNABLE then
        mlfq_list_append 1 i
          (setp i (\<lambda>x. clear_boost_flags (x\<lparr>sched_q := 1, sched_budget_left := mlfq_quanta ! 1\<rparr>))
            (mlfq_list_remove (unat (sched_q x)) i s))
      else setp i (\<lambda>x. clear_boost_flags (x\<lparr>sched_q := 1\<rparr>)) s)"

definition mlfq_apply_global_boost :: "u32 \<Rightarrow> ptable \<Rightarrow> ptable" where
  "mlfq_apply_global_boost now_ticks s =
     (if now_ticks - mlfq_last_boost_tick s < mlfq_boost_interval_ticks s then s
      else let s = s\<lparr>mlfq_last_boost_tick := now_ticks\<rparr>;
               s = fold boost_one [0..<length (procs s)] s
           in s\<lparr>stat_boosts := stat_boosts s + 1\<rparr>)"

definition mlfq_get_boost_interval :: "ptable \<Rightarrow> u32" where
  "mlfq_get_boost_interval s = mlfq_boost_interval_ticks s"

definition mlfq_set_boost_interval :: "u32 \<Rightarrow> ptable \<Rightarrow> int \<times> ptable" where
  "mlfq_set_boost_interval n s =
     (if n < MLFQ_BOOST_INTERVAL_MIN \<or> n > MLFQ_BOOST_INTERVAL_MAX then (- 1, s)
      else (0, s\<lparr>mlfq_boost_interval_ticks := n, mlfq_last_boost_tick := ticks s\<rparr>))"

definition mlfq_get_stats :: "ptable \<Rightarrow> u32 \<times> u32 \<times> u32 \<times> u32 \<times> u32 list" where
  "mlfq_get_stats s = (stat_promotions s, stat_demotions s, stat_boosts s, stat_budget_expired s,
     map (\<lambda>i. qcount (mlfq_qs s ! i)) [0..<MLFQ_NQUEUES])"

subsection \<open>Chains of links\<close>

text \<open>The first element of a chain, or what follows the chain when it is empty.\<close>

fun hde :: "'a list \<Rightarrow> 'a option \<Rightarrow> 'a option" where
  "hde [] e = e"
| "hde (x # xs) e = Some x"

text \<open>Following \<open>nx\<close> from the first element visits the list and ends at \<open>e\<close>.\<close>

fun links :: "('a \<Rightarrow> 'a option) \<Rightarrow> 'a list \<Rightarrow> 'a option \<Rightarrow> bool" where
  "links nx [] e = True"
| "links nx (x # xs) e = (nx x = hde xs e \<and> links nx xs e)"

lemma hde_append [simp]: "hde (xs @ ys) e = hde xs (hde ys e)"
  by (cases xs) auto

lemma hde_not_None [simp]: "hde xs (Some a) \<noteq> None"
  by (cases xs) auto

lemma hde_None: "hde xs None = None \<longleftrightarrow> xs = []"
  by (cases xs) auto

lemma hde_Some: "hde xs None = Some x \<longleftrightarrow> (\<exists>ys. xs = x # ys)"
  by (cases xs) auto

lemma hde_rev: "hde (rev xs) None = (if xs = [] then None else Some (last xs))"
  by (cases xs rule: rev_cases) auto

lemma links_append: "links nx (xs @ ys) e \<longleftrightarrow> links nx xs (hde ys e) \<and> links nx ys e"
  by (induction xs) auto

lemma links_cong: "(\<And>x. x \<in> set xs \<Longrightarrow> f x = g x) \<Longrightarrow> links f xs e = links g xs e"
  by (induction xs) auto

lemma links_relast:
  assumes "links nx xs e" "distinct xs"
    and "\<And>x. x \<in> set xs \<Longrightarrow> nx' x = (if x = last xs then e' else nx x)"
  shows "links nx' xs e'"
proof (cases xs rule: rev_cases)
  case (snoc ys a)
  have "links nx' ys (Some a) = links nx ys (Some a)"
    by (rule links_cong) (use assms(2,3) snoc in auto)
  then show ?thesis using assms snoc by (simp add: links_append)
qed simp

lemma links_delete:
  assumes "links nx (as @ p # bs) e" "distinct (as @ p # bs)"
    and "\<And>x. x \<in> set as \<union> set bs \<Longrightarrow> nx' x = (if as \<noteq> [] \<and> x = last as then nx p else nx x)"
  shows "links nx' (as @ bs) e"
proof -
  have l: "links nx as (Some p)" "nx p = hde bs e" "links nx bs e"
    using assms(1) by (auto simp: links_append)
  have "links nx' as (hde bs e)"
    by (rule links_relast [OF l(1)]) (use assms(2,3) l(2) in auto)
  moreover have "links nx' bs e = links nx bs e"
  proof (rule links_cong)
    fix x assume x: "x \<in> set bs"
    then have "as \<noteq> [] \<Longrightarrow> x \<noteq> last as" using assms(2) by (auto simp: disjoint_iff)
    then show "nx' x = nx x" using assms(3) [of x] x by auto
  qed
  ultimately show ?thesis using l(3) by (simp add: links_append)
qed

lemma links_snoc:
  assumes "links nx xs None" "distinct xs" "nx' p = None"
    and "\<And>x. x \<in> set xs \<Longrightarrow> nx' x = (if x = last xs then Some p else nx x)"
  shows "links nx' (xs @ [p]) None"
  using links_relast [OF assms(1,2,4)] assms(3) by (simp add: links_append)

subsection \<open>The queues as lists\<close>

definition queue_ok :: "ptable \<Rightarrow> nat \<Rightarrow> nat list \<Rightarrow> bool" where
  "queue_ok s k xs \<longleftrightarrow>
     qhead (mlfq_qs s ! k) = hde xs None \<and> qtail (mlfq_qs s ! k) = hde (rev xs) None \<and>
     qcount (mlfq_qs s ! k) = of_nat (length xs) \<and>
     links (\<lambda>i. sched_next (procs s ! i)) xs None \<and> links (\<lambda>i. sched_prev (procs s ! i)) (rev xs) None"

definition queued :: "(nat \<Rightarrow> nat list) \<Rightarrow> nat set" where
  "queued Q = (\<Union>k < MLFQ_NQUEUES. set (Q k))"

lemma queuedI: "k < MLFQ_NQUEUES \<Longrightarrow> p \<in> set (Q k) \<Longrightarrow> p \<in> queued Q"
  by (auto simp: queued_def)

text \<open>
  The table holds the queues \<open>Q\<close>: each is linked in both directions, its members carry its level, and a
  process in no queue has no links.
\<close>

definition qrep :: "ptable \<Rightarrow> (nat \<Rightarrow> nat list) \<Rightarrow> bool" where
  "qrep s Q \<longleftrightarrow>
     length (mlfq_qs s) = MLFQ_NQUEUES \<and> length (procs s) < 2 ^ 32 \<and>
     (\<forall>k < MLFQ_NQUEUES. queue_ok s k (Q k) \<and> distinct (Q k) \<and>
        (\<forall>p \<in> set (Q k). p < length (procs s) \<and> sched_q (procs s ! p) = of_nat k)) \<and>
     (\<forall>p < length (procs s). p \<notin> queued Q \<longrightarrow> sched_next (procs s ! p) = None \<and> sched_prev (procs s ! p) = None) \<and>
     (\<forall>k. MLFQ_NQUEUES \<le> k \<longrightarrow> Q k = [])"

text \<open>What the linking operations leave alone: everything of a process but its two links.\<close>

definition unlinked :: "proc \<Rightarrow> proc" where
  "unlinked x = x\<lparr>sched_next := None, sched_prev := None\<rparr>"

lemma unlinked_simps [simp]:
  "unlinked (x\<lparr>sched_next := a\<rparr>) = unlinked x" "unlinked (x\<lparr>sched_prev := a\<rparr>) = unlinked x"
  "unlinked (x\<lparr>sched_next := a, sched_prev := b\<rparr>) = unlinked x"
  by (simp_all add: unlinked_def)

lemma unlinked_fields:
  assumes "unlinked x = unlinked y"
  shows "state x = state y" "sched_q x = sched_q y" "sched_flags x = sched_flags y"
    "sched_budget_left x = sched_budget_left y" "chan x = chan y" "sig_pending x = sig_pending y"
    "sched_last_block_tick x = sched_last_block_tick y" "parent x = parent y"
    "tick_next x = tick_next y" "on_tickq x = on_tickq y"
  using assms by (cases x, cases y, simp add: unlinked_def)+

lemma length_setp [simp]: "length (procs (setp p f s)) = length (procs s)" "mlfq_qs (setp p f s) = mlfq_qs s"
  by (simp_all add: setp_def)

lemma length_setq [simp]: "length (mlfq_qs (setq k f s)) = length (mlfq_qs s)" "procs (setq k f s) = procs s"
  by (simp_all add: setq_def)

lemma nth_setp: "i < length (procs s) \<Longrightarrow> procs (setp p f s) ! i = (if i = p then f (procs s ! i) else procs s ! i)"
  by (simp add: setp_def nth_list_update)

lemma nth_setq: "i < length (mlfq_qs s) \<Longrightarrow> mlfq_qs (setq k f s) ! i = (if i = k then f (mlfq_qs s ! i) else mlfq_qs s ! i)"
  by (simp add: setq_def nth_list_update)

lemma append_frame [frame]:
  "length (procs (mlfq_list_append k p s)) = length (procs s)"
  "length (mlfq_qs (mlfq_list_append k p s)) = length (mlfq_qs s)"
  "i < length (procs s) \<Longrightarrow> unlinked (procs (mlfq_list_append k p s) ! i) = unlinked (procs s ! i)"
  by (auto simp: mlfq_list_append_def Let_def nth_setp split: option.split)

lemma remove_frame [frame]:
  "length (procs (mlfq_list_remove k p s)) = length (procs s)"
  "length (mlfq_qs (mlfq_list_remove k p s)) = length (mlfq_qs s)"
  "i < length (procs s) \<Longrightarrow> unlinked (procs (mlfq_list_remove k p s) ! i) = unlinked (procs s ! i)"
  by (auto simp: mlfq_list_remove_def Let_def nth_setp split: option.split)

lemma level_distinct: "j < MLFQ_NQUEUES \<Longrightarrow> k < MLFQ_NQUEUES \<Longrightarrow> (of_nat j :: u8) = of_nat k \<Longrightarrow> j = k"
proof -
  assume jk: "j < MLFQ_NQUEUES" "k < MLFQ_NQUEUES" and "(of_nat j :: u8) = of_nat k"
  then have "unat (of_nat j :: u8) = unat (of_nat k :: u8)" by simp
  then show "j = k" using jk by (simp add: unat_of_nat MLFQ_NQUEUES_def)
qed

lemma qrep_disjoint:
  "qrep s Q \<Longrightarrow> j < MLFQ_NQUEUES \<Longrightarrow> k < MLFQ_NQUEUES \<Longrightarrow> p \<in> set (Q j) \<Longrightarrow> p \<in> set (Q k) \<Longrightarrow> j = k"
  unfolding qrep_def by (metis level_distinct)

text \<open>A queue is intact when its own links and its descriptor are.\<close>

lemma queue_ok_cong:
  assumes "queue_ok s k xs" "mlfq_qs t ! k = mlfq_qs s ! k"
    "\<And>i. i \<in> set xs \<Longrightarrow> sched_next (procs t ! i) = sched_next (procs s ! i) \<and>
      sched_prev (procs t ! i) = sched_prev (procs s ! i)"
  shows "queue_ok t k xs"
proof -
  have "links (\<lambda>i. sched_next (procs t ! i)) xs None = links (\<lambda>i. sched_next (procs s ! i)) xs None"
    "links (\<lambda>i. sched_prev (procs t ! i)) (rev xs) None = links (\<lambda>i. sched_prev (procs s ! i)) (rev xs) None"
    by (rule links_cong, simp add: assms(3))+
  then show ?thesis using assms(1,2) by (simp add: queue_ok_def)
qed

lemma queued_upd: "k < MLFQ_NQUEUES \<Longrightarrow> queued (Q(k := xs)) = set xs \<union> (\<Union>j \<in> {..<MLFQ_NQUEUES} - {k}. set (Q j))"
  by (auto simp: queued_def split: if_splits)

lemma append_rep:
  assumes rep: "qrep s Q" and k: "k < MLFQ_NQUEUES" and p: "p < length (procs s)" "p \<notin> queued Q"
    and lvl: "sched_q (procs s ! p) = of_nat k"
  shows "qrep (mlfq_list_append k p s) (Q(k := Q k @ [p]))"
proof -
  let ?t = "mlfq_list_append k p s" and ?xs = "Q k"
  have q: "queue_ok s k ?xs" "distinct ?xs" "\<And>x. x \<in> set ?xs \<Longrightarrow> x < length (procs s)"
    using rep k by (auto simp: qrep_def)
  have lens: "length (mlfq_qs s) = MLFQ_NQUEUES" using rep by (simp add: qrep_def)
  have out: "p \<notin> set (Q j)" if "j < MLFQ_NQUEUES" for j using p(2) that by (auto simp: queued_def)
  have tail: "qtail (mlfq_qs s ! k) = (if ?xs = [] then None else Some (last ?xs))"
    using q(1) by (simp add: queue_ok_def hde_rev)
  have nx: "sched_next (procs ?t ! i) = (if i = p then None else if ?xs \<noteq> [] \<and> i = last ?xs then Some p
      else sched_next (procs s ! i))" if "i < length (procs s)" for i
    using that p out [OF k] last_in_set [of ?xs]
    by (auto simp: mlfq_list_append_def Let_def nth_setp tail)
  have pv: "sched_prev (procs ?t ! i) = (if i = p then qtail (mlfq_qs s ! k) else sched_prev (procs s ! i))"
    if "i < length (procs s)" for i
    using that p by (auto simp: mlfq_list_append_def Let_def nth_setp tail)
  have head: "qhead (mlfq_qs s ! k) = hde ?xs None" using q(1) by (simp add: queue_ok_def)
  have qd: "qhead (mlfq_qs ?t ! k) = hde (?xs @ [p]) None" "qtail (mlfq_qs ?t ! k) = Some p"
    "qcount (mlfq_qs ?t ! k) = qcount (mlfq_qs s ! k) + 1"
    using k lens head tail
    by (cases "?xs = []"; force simp: mlfq_list_append_def Let_def nth_setq neq_Nil_conv)+
  have qo: "mlfq_qs ?t ! j = mlfq_qs s ! j" if "j < MLFQ_NQUEUES" "j \<noteq> k" for j
    using that lens tail by (cases "?xs = []") (auto simp: mlfq_list_append_def Let_def nth_setq)
  have own: "queue_ok ?t k (?xs @ [p])"
    unfolding queue_ok_def
  proof (intro conjI)
    show "links (\<lambda>i. sched_next (procs ?t ! i)) (?xs @ [p]) None"
      by (rule links_snoc [where nx = "\<lambda>i. sched_next (procs s ! i)"])
        (use q nx p out [OF k] in \<open>auto simp: queue_ok_def\<close>)
    have "links (\<lambda>i. sched_prev (procs ?t ! i)) (rev ?xs) None = links (\<lambda>i. sched_prev (procs s ! i)) (rev ?xs) None"
      by (rule links_cong) (use q(3) pv out [OF k] in auto)
    then show "links (\<lambda>i. sched_prev (procs ?t ! i)) (rev (?xs @ [p])) None"
      using q(1) pv [OF p(1)] by (simp add: queue_ok_def)
  qed (use q(1) qd in \<open>simp_all add: queue_ok_def\<close>)
  have others: "queue_ok ?t j (Q j)" if j: "j < MLFQ_NQUEUES" "j \<noteq> k" for j
  proof (rule queue_ok_cong [of s])
    show "queue_ok s j (Q j)" "mlfq_qs ?t ! j = mlfq_qs s ! j" using rep j qo by (auto simp: qrep_def)
    fix i assume i: "i \<in> set (Q j)"
    then have "i < length (procs s)" "i \<noteq> p" using rep j out by (auto simp: qrep_def)
    moreover have "?xs \<noteq> [] \<Longrightarrow> i \<noteq> last ?xs" using qrep_disjoint [OF rep j(1) k i] j(2) last_in_set by blast
    ultimately show "sched_next (procs ?t ! i) = sched_next (procs s ! i) \<and> sched_prev (procs ?t ! i) = sched_prev (procs s ! i)"
      using nx pv by auto
  qed
  have lq: "sched_q (procs ?t ! i) = sched_q (procs s ! i)" if "i < length (procs s)" for i
    using append_frame(3) [OF that] by (rule unlinked_fields)
  have rest: "sched_next (procs ?t ! i) = None \<and> sched_prev (procs ?t ! i) = None"
    if i: "i < length (procs s)" "i \<notin> queued (Q(k := ?xs @ [p]))" for i
  proof -
    have "i \<noteq> p" "i \<notin> set ?xs" "i \<notin> queued Q" using i(2) k by (auto simp: queued_upd) (auto simp: queued_def)
    moreover have "?xs \<noteq> [] \<Longrightarrow> i \<noteq> last ?xs" using calculation(2) last_in_set by blast
    ultimately show ?thesis using nx [OF i(1)] pv [OF i(1)] rep i(1) by (auto simp: qrep_def)
  qed
  have mem: "x < length (procs s) \<and> sched_q (procs s ! x) = of_nat j"
    if "j < MLFQ_NQUEUES" "x \<in> set ((Q(k := ?xs @ [p])) j)" for j x
    using that rep p lvl by (auto simp: qrep_def split: if_splits)
  show ?thesis
    unfolding qrep_def append_frame
  proof (intro conjI allI impI ballI)
    fix j assume j: "j < MLFQ_NQUEUES"
    show "queue_ok ?t j ((Q(k := ?xs @ [p])) j)" using own others j by simp
    show "distinct ((Q(k := ?xs @ [p])) j)" using q(2) out [OF k] rep j by (auto simp: qrep_def)
    fix x assume x: "x \<in> set ((Q(k := ?xs @ [p])) j)"
    show "x < length (procs s)" "sched_q (procs ?t ! x) = of_nat j" using mem [OF j x] lq by auto
  qed (use rep rest k in \<open>auto simp: qrep_def\<close>)
qed

lemma remove_rep_split:
  assumes rep: "qrep s Q" and k: "k < MLFQ_NQUEUES" and xs: "Q k = as @ p # bs"
  shows "qrep (mlfq_list_remove k p s) (Q(k := as @ bs))"
proof -
  let ?t = "mlfq_list_remove k p s" and ?Q = "Q(k := as @ bs)"
  have "queue_ok s k (Q k) \<and> distinct (Q k) \<and> (\<forall>x \<in> set (Q k). x < length (procs s))"
    using rep k by (simp add: qrep_def)
  then have q: "queue_ok s k (as @ p # bs)" "distinct (as @ p # bs)"
    "\<And>x. x \<in> set as \<union> set bs \<union> {p} \<Longrightarrow> x < length (procs s)"
    unfolding xs by auto
  have lens: "length (mlfq_qs s) = MLFQ_NQUEUES" "length (procs s) < 2 ^ 32" using rep by (simp_all add: qrep_def)
  have lk: "sched_next (procs s ! p) = hde bs None" "sched_prev (procs s ! p) = hde (rev as) None"
    using q(1) by (auto simp: queue_ok_def links_append)
  have pa: "sched_prev (procs s ! p) = (if as = [] then None else Some (last as))" using lk(2) by (simp add: hde_rev)
  have pb: "sched_next (procs s ! p) = (if bs = [] then None else Some (hd bs))" using lk(1) by (cases bs) auto
  have ne: "as \<noteq> [] \<Longrightarrow> last as \<noteq> p" "bs \<noteq> [] \<Longrightarrow> hd bs \<noteq> p" "as \<noteq> [] \<Longrightarrow> bs \<noteq> [] \<Longrightarrow> last as \<noteq> hd bs"
    using q(2) by (auto, metis disjoint_iff hd_in_set last_in_set)
  have nx: "sched_next (procs ?t ! i) = (if i = p then None else if as \<noteq> [] \<and> i = last as then sched_next (procs s ! p)
      else sched_next (procs s ! i))" if "i < length (procs s)" for i
    using that ne unfolding mlfq_list_remove_def Let_def pa pb by (auto simp: nth_setp)
  have pv: "sched_prev (procs ?t ! i) = (if i = p then None else if bs \<noteq> [] \<and> i = hd bs then sched_prev (procs s ! p)
      else sched_prev (procs s ! i))" if "i < length (procs s)" for i
    using that ne unfolding mlfq_list_remove_def Let_def pa pb by (auto simp: nth_setp)
  have small: "length as + length bs + 1 < 2 ^ 32"
  proof -
    have "set (as @ p # bs) \<subseteq> {..<length (procs s)}" using q(3) by auto
    then have "card (set (as @ p # bs)) \<le> length (procs s)" using card_mono [of "{..<length (procs s)}"] by fastforce
    then show ?thesis using distinct_card [OF q(2)] lens(2) by simp
  qed
  have cnt: "qcount (mlfq_qs s ! k) = of_nat (length as + length bs) + 1" "qcount (mlfq_qs s ! k) > 0"
  proof -
    show c: "qcount (mlfq_qs s ! k) = of_nat (length as + length bs) + 1" using q(1) by (simp add: queue_ok_def)
    have "unat (of_nat (length as + length bs + 1) :: u32) = length as + length bs + 1"
      using small by (intro unat_of_nat_len) simp
    then show "qcount (mlfq_qs s ! k) > 0" unfolding c by (simp add: word_gt_0 unat_inj add.commute)
  qed
  have desc: "qhead (mlfq_qs ?t ! k) = (if as = [] then sched_next (procs s ! p) else qhead (mlfq_qs s ! k))"
    "qtail (mlfq_qs ?t ! k) = (if bs = [] then sched_prev (procs s ! p) else qtail (mlfq_qs s ! k))"
    "qcount (mlfq_qs ?t ! k) = qcount (mlfq_qs s ! k) - 1"
    using k lens cnt(2) unfolding mlfq_list_remove_def Let_def pa pb by (auto simp: nth_setq)
  have ends: "qhead (mlfq_qs s ! k) = hde as (Some p)" "qtail (mlfq_qs s ! k) = hde (rev bs) (Some p)"
    using q(1) by (auto simp: queue_ok_def)
  have qd: "qhead (mlfq_qs ?t ! k) = hde (as @ bs) None" "qtail (mlfq_qs ?t ! k) = hde (rev (as @ bs)) None"
    "qcount (mlfq_qs ?t ! k) = of_nat (length (as @ bs))"
    unfolding desc ends cnt(1) lk
    by (cases as; simp) (cases bs rule: rev_cases; simp)+
  have qo: "mlfq_qs ?t ! j = mlfq_qs s ! j" if "j < MLFQ_NQUEUES" "j \<noteq> k" for j
    using that lens unfolding mlfq_list_remove_def Let_def pa pb by (auto simp: nth_setq)
  have own: "queue_ok ?t k (as @ bs)"
    unfolding queue_ok_def
  proof (intro conjI)
    show "links (\<lambda>i. sched_next (procs ?t ! i)) (as @ bs) None"
      by (rule links_delete [where nx = "\<lambda>i. sched_next (procs s ! i)" and p = p])
        (use q nx in \<open>auto simp: queue_ok_def\<close>)
    have "links (\<lambda>i. sched_prev (procs ?t ! i)) (rev bs @ rev as) None"
      by (rule links_delete [where nx = "\<lambda>i. sched_prev (procs s ! i)" and p = p])
        (use q pv in \<open>auto simp: queue_ok_def last_rev\<close>)
    then show "links (\<lambda>i. sched_prev (procs ?t ! i)) (rev (as @ bs)) None" by simp
  qed (use qd in simp_all)
  have others: "queue_ok ?t j (Q j)" if j: "j < MLFQ_NQUEUES" "j \<noteq> k" for j
  proof (rule queue_ok_cong [of s])
    show "queue_ok s j (Q j)" "mlfq_qs ?t ! j = mlfq_qs s ! j" using rep j qo by (auto simp: qrep_def)
    fix i assume i: "i \<in> set (Q j)"
    then have "i < length (procs s)" using rep j by (auto simp: qrep_def)
    moreover have "i \<notin> set (as @ p # bs)" using qrep_disjoint [OF rep j(1) k i] j(2) xs by auto
    then have "i \<noteq> p" "as \<noteq> [] \<Longrightarrow> i \<noteq> last as" "bs \<noteq> [] \<Longrightarrow> i \<noteq> hd bs" by auto
    ultimately show "sched_next (procs ?t ! i) = sched_next (procs s ! i) \<and> sched_prev (procs ?t ! i) = sched_prev (procs s ! i)"
      using nx pv by auto
  qed
  have lq: "sched_q (procs ?t ! i) = sched_q (procs s ! i)" if "i < length (procs s)" for i
    using remove_frame(3) [OF that] by (rule unlinked_fields)
  have rest: "sched_next (procs ?t ! i) = None \<and> sched_prev (procs ?t ! i) = None"
    if i: "i < length (procs s)" "i \<notin> queued ?Q" for i
  proof (cases "i = p")
    case True
    then show ?thesis using nx pv i(1) by simp
  next
    case False
    then have "i \<notin> set as" "i \<notin> set bs" "i \<notin> queued Q"
      using i(2) k xs by (auto simp: queued_upd) (auto simp: queued_def)
    moreover then have "as \<noteq> [] \<Longrightarrow> i \<noteq> last as" "bs \<noteq> [] \<Longrightarrow> i \<noteq> hd bs" by auto
    ultimately show ?thesis using nx [OF i(1)] pv [OF i(1)] rep i(1) False by (auto simp: qrep_def)
  qed
  have mem: "x < length (procs s) \<and> sched_q (procs s ! x) = of_nat j"
    if "j < MLFQ_NQUEUES" "x \<in> set (?Q j)" for j x
    using that rep xs by (auto simp: qrep_def split: if_splits)
  show ?thesis
    unfolding qrep_def remove_frame
  proof (intro conjI allI impI ballI)
    fix j assume j: "j < MLFQ_NQUEUES"
    show "queue_ok ?t j (?Q j)" using own others j by simp
    show "distinct (?Q j)" using q(2) rep j by (auto simp: qrep_def)
    fix x assume x: "x \<in> set (?Q j)"
    show "x < length (procs s)" "sched_q (procs ?t ! x) = of_nat j" using mem [OF j x] lq by auto
  qed (use rep rest k in \<open>auto simp: qrep_def\<close>)
qed

lemma remove_rep:
  assumes "qrep s Q" "k < MLFQ_NQUEUES" "p \<in> set (Q k)"
  shows "qrep (mlfq_list_remove k p s) (Q(k := remove1 p (Q k)))"
proof -
  obtain as bs where xs: "Q k = as @ p # bs" "p \<notin> set as" using split_list_first [OF assms(3)] by blast
  then have "remove1 p (Q k) = as @ bs" by (simp add: remove1_append)
  then show ?thesis using remove_rep_split [OF assms(1,2) xs(1)] by simp
qed

subsection \<open>What a run-queue implementation promises\<close>

text \<open>
  The contract of the linked queues: appending, unlinking and changing the scheduling fields of a process
  that is in no queue. Moving a process between levels needs nothing else.
\<close>

locale run_queues =
  fixes rep :: "'s \<Rightarrow> (nat \<Rightarrow> nat list) \<Rightarrow> bool"
    and app :: "nat \<Rightarrow> nat \<Rightarrow> 's \<Rightarrow> 's"
    and del :: "nat \<Rightarrow> nat \<Rightarrow> 's \<Rightarrow> 's"
    and adj :: "nat \<Rightarrow> ('x \<Rightarrow> 'x) \<Rightarrow> 's \<Rightarrow> 's"
    and keeps :: "('x \<Rightarrow> 'x) \<Rightarrow> bool"
    and level :: "'s \<Rightarrow> nat \<Rightarrow> nat"
    and limit :: "'s \<Rightarrow> nat"
    and levels :: nat
  assumes app_rep: "rep s Q \<Longrightarrow> k < levels \<Longrightarrow> p < limit s \<Longrightarrow> (\<forall>j < levels. p \<notin> set (Q j)) \<Longrightarrow> level s p = k \<Longrightarrow>
      rep (app k p s) (Q(k := Q k @ [p]))"
    and del_rep: "rep s Q \<Longrightarrow> k < levels \<Longrightarrow> p \<in> set (Q k) \<Longrightarrow> rep (del k p s) (Q(k := remove1 p (Q k)))"
    and adj_rep: "rep s Q \<Longrightarrow> (\<forall>j < levels. p \<notin> set (Q j)) \<Longrightarrow> keeps f \<Longrightarrow> rep (adj p f s) Q"
    and member: "rep s Q \<Longrightarrow> k < levels \<Longrightarrow> p \<in> set (Q k) \<Longrightarrow> p < limit s \<and> level s p = k"
    and once: "rep s Q \<Longrightarrow> k < levels \<Longrightarrow> distinct (Q k)"
    and limit_del: "limit (del k p s) = limit s"
    and limit_adj: "limit (adj p f s) = limit s"
begin

lemma gone:
  assumes "rep s Q" "k < levels" "p \<in> set (Q k)"
  shows "\<forall>j < levels. p \<notin> set ((Q(k := remove1 p (Q k))) j)"
proof (intro allI impI notI)
  fix j assume j: "j < levels" "p \<in> set ((Q(k := remove1 p (Q k))) j)"
  show False
  proof (cases "j = k")
    case True
    then show ?thesis using j(2) once [OF assms(1,2)] by simp
  next
    case False
    then have "level s p = j" using j member [OF assms(1)] by simp
    then show ?thesis using False member [OF assms] by simp
  qed
qed

lemma move_rep:
  assumes "rep s Q" "k < levels" "p \<in> set (Q k)" "keeps f" "j < levels" "level (adj p f (del k p s)) p = j"
  shows "rep (app j p (adj p f (del k p s))) (let R = Q(k := remove1 p (Q k)) in R(j := R j @ [p]))"
proof -
  let ?R = "Q(k := remove1 p (Q k))"
  have free: "\<forall>j < levels. p \<notin> set (?R j)" by (rule gone [OF assms(1-3)])
  have "rep (adj p f (del k p s)) ?R" by (rule adj_rep [OF del_rep [OF assms(1-3)] free assms(4)])
  then show ?thesis
    using app_rep [OF _ assms(5), of "adj p f (del k p s)" ?R p] free assms(6) member [OF assms(1-3)]
    by (simp add: limit_adj limit_del Let_def)
qed

lemma insert_rep:
  assumes "rep s Q" "\<forall>j < levels. p \<notin> set (Q j)" "p < limit s" "keeps f" "j < levels" "level (adj p f s) p = j"
  shows "rep (app j p (adj p f s)) (Q(j := Q j @ [p]))"
  using app_rep [OF adj_rep [OF assms(1,2,4)] assms(5)] assms(2,3,6) by (simp add: limit_adj)

end

definition keeps_links :: "(proc \<Rightarrow> proc) \<Rightarrow> bool" where
  "keeps_links f \<longleftrightarrow> (\<forall>x. sched_next (f x) = sched_next x \<and> sched_prev (f x) = sched_prev x)"

lemma not_queued: "(\<forall>j < MLFQ_NQUEUES. p \<notin> set (Q j)) \<longleftrightarrow> p \<notin> queued Q"
  by (auto simp: queued_def)

text \<open>Changing a process record keeps the queues when it keeps the links, and the level of a queued process.\<close>

lemma setp_rep_local:
  assumes rep: "qrep s Q"
    and f: "sched_next (f (procs s ! p)) = sched_next (procs s ! p)" "sched_prev (f (procs s ! p)) = sched_prev (procs s ! p)"
    and lvl: "p \<in> queued Q \<Longrightarrow> sched_q (f (procs s ! p)) = sched_q (procs s ! p)"
  shows "qrep (setp p f s) Q"
proof -
  have lk: "sched_next (procs (setp p f s) ! i) = sched_next (procs s ! i) \<and>
      sched_prev (procs (setp p f s) ! i) = sched_prev (procs s ! i)" if "i < length (procs s)" for i
    using f that by (simp add: nth_setp)
  have q: "queue_ok (setp p f s) k (Q k)" if k: "k < MLFQ_NQUEUES" for k
    by (rule queue_ok_cong [of s]) (use rep k lk in \<open>auto simp: qrep_def\<close>)
  have "sched_q (procs (setp p f s) ! i) = of_nat k" if "k < MLFQ_NQUEUES" "i \<in> set (Q k)" for i k
  proof -
    have "i \<in> queued Q" "i < length (procs s)" "sched_q (procs s ! i) = of_nat k"
      using that rep by (auto simp: queued_def qrep_def)
    then show ?thesis using lvl by (auto simp: nth_setp)
  qed
  then show ?thesis using rep q lk by (auto simp: qrep_def)
qed

lemma setp_rep:
  assumes "qrep s Q" "keeps_links f" "p \<in> queued Q \<Longrightarrow> sched_q (f (procs s ! p)) = sched_q (procs s ! p)"
  shows "qrep (setp p f s) Q"
  using assms by (intro setp_rep_local) (auto simp: keeps_links_def)

interpretation mlfq: run_queues qrep mlfq_list_append mlfq_list_remove setp keeps_links
  "\<lambda>s p. unat (sched_q (procs s ! p))" "\<lambda>s. length (procs s)" MLFQ_NQUEUES
proof unfold_locales
  fix s :: ptable and Q :: "nat \<Rightarrow> nat list" and k p :: nat and f :: "proc \<Rightarrow> proc"
  assume rep: "qrep s Q"
  { assume "k < MLFQ_NQUEUES" "p < length (procs s)" "\<forall>j < MLFQ_NQUEUES. p \<notin> set (Q j)"
      "unat (sched_q (procs s ! p)) = k"
    then show "qrep (mlfq_list_append k p s) (Q(k := Q k @ [p]))"
      using append_rep [OF rep, of k p] unfolding not_queued by auto }
  { assume "k < MLFQ_NQUEUES" "p \<in> set (Q k)"
    then show "qrep (mlfq_list_remove k p s) (Q(k := remove1 p (Q k)))" by (rule remove_rep [OF rep]) }
  { assume "\<forall>j < MLFQ_NQUEUES. p \<notin> set (Q j)" "keeps_links f"
    then show "qrep (setp p f s) Q" using setp_rep [OF rep] unfolding not_queued by blast }
  { assume k: "k < MLFQ_NQUEUES" and "p \<in> set (Q k)"
    then have "p < length (procs s)" "sched_q (procs s ! p) = of_nat k" using rep by (auto simp: qrep_def)
    moreover have "unat (of_nat k :: u8) = k" using k by (simp add: unat_of_nat MLFQ_NQUEUES_def)
    ultimately show "p < length (procs s) \<and> unat (sched_q (procs s ! p)) = k" by simp }
  { assume "k < MLFQ_NQUEUES"
    then show "distinct (Q k)" using rep by (simp add: qrep_def) }
qed (simp_all add: frame)

subsection \<open>The operations on the queues\<close>

lemma rep_level: "qrep s Q \<Longrightarrow> k < MLFQ_NQUEUES \<Longrightarrow> p \<in> set (Q k) \<Longrightarrow> p < length (procs s) \<and> unat (sched_q (procs s ! p)) = k"
  by (rule mlfq.member)

lemma rep_links:
  assumes "qrep s Q" "k < MLFQ_NQUEUES" "Q k = as @ p # bs"
  shows "sched_next (procs s ! p) = hde bs None" "sched_prev (procs s ! p) = hde (rev as) None"
    "qhead (mlfq_qs s ! k) = hde as (Some p)"
proof -
  have "queue_ok s k (as @ p # bs)" using assms by (metis qrep_def)
  then show "sched_next (procs s ! p) = hde bs None" "sched_prev (procs s ! p) = hde (rev as) None"
    "qhead (mlfq_qs s ! k) = hde as (Some p)"
    by (auto simp: queue_ok_def links_append)
qed

lemma rep_head: "qrep s Q \<Longrightarrow> k < MLFQ_NQUEUES \<Longrightarrow> qhead (mlfq_qs s ! k) = hde (Q k) None"
  by (simp add: qrep_def queue_ok_def)

lemma is_queued_iff:
  assumes rep: "qrep s Q" and p: "p < length (procs s)" and lvl: "unat (sched_q (procs s ! p)) < MLFQ_NQUEUES"
  shows "mlfq_is_queued p s \<longleftrightarrow> p \<in> set (Q (unat (sched_q (procs s ! p))))"
    "p \<in> queued Q \<longleftrightarrow> p \<in> set (Q (unat (sched_q (procs s ! p))))"
proof -
  let ?k = "unat (sched_q (procs s ! p))"
  show inq: "p \<in> queued Q \<longleftrightarrow> p \<in> set (Q ?k)"
    using rep_level [OF rep] lvl by (auto simp: queued_def)
  show "mlfq_is_queued p s \<longleftrightarrow> p \<in> set (Q ?k)"
  proof (cases "p \<in> set (Q ?k)")
    case True
    then obtain as bs where xs: "Q ?k = as @ p # bs" by (meson split_list)
    note l = rep_links [OF rep lvl xs]
    show ?thesis using True lvl l by (cases as; cases bs) (auto simp: mlfq_is_queued_def Let_def hde_None)
  next
    case False
    then have "sched_next (procs s ! p) = None" "sched_prev (procs s ! p) = None"
      using rep p inq by (auto simp: qrep_def)
    moreover have "qhead (mlfq_qs s ! ?k) \<noteq> Some p"
      using False rep_head [OF rep lvl] by (auto simp: hde_Some)
    ultimately show ?thesis using False by (simp add: mlfq_is_queued_def Let_def)
  qed
qed

text \<open>The enqueue policy: the new level, and what it leaves alone.\<close>

lemma policy_links: "keeps_links (enq_policy reason now)"
  by (simp add: keeps_links_def enq_policy_def clamp_level_def promote_def demote_def Let_def)

lemma policy_level:
  "unat (sched_q (enq_policy reason now x)) < MLFQ_NQUEUES"
proof -
  have "unat (sched_q (clamp_level y)) < MLFQ_NQUEUES" for y
    by (auto simp: clamp_level_def MLFQ_NQUEUES_def)
  then show ?thesis by (simp add: enq_policy_def Let_def)
qed

lemma policy_state [simp]:
  "state (enq_policy reason now x) = state x" "chan (enq_policy reason now x) = chan x"
  "sig_pending (enq_policy reason now x) = sig_pending x" "parent (enq_policy reason now x) = parent x"
  by (simp_all add: enq_policy_def clamp_level_def promote_def demote_def Let_def)

text \<open>Where a process that is enqueued ends: at the end of the queue of its new level and in no other.\<close>

definition relist :: "nat \<Rightarrow> nat \<Rightarrow> (nat \<Rightarrow> nat list) \<Rightarrow> (nat \<Rightarrow> nat list)" where
  "relist p j Q = (\<lambda>k. if k = j then removeAll p (Q k) @ [p] else removeAll p (Q k))"

lemma rep_removed:
  assumes rep: "qrep s Q" and k: "k < MLFQ_NQUEUES" "p \<in> set (Q k)"
  shows "Q(k := remove1 p (Q k)) = (\<lambda>j. removeAll p (Q j))"
proof
  fix j
  show "(Q(k := remove1 p (Q k))) j = removeAll p (Q j)"
  proof (cases "j = k")
    case True
    then show ?thesis using mlfq.once [OF rep k(1)] by (simp add: distinct_remove1_removeAll)
  next
    case False
    then have "p \<notin> set (Q j)"
      using qrep_disjoint [OF rep _ k(1) _ k(2), of j] rep by (cases "j < MLFQ_NQUEUES") (auto simp: qrep_def)
    then show ?thesis using False by simp
  qed
qed

lemma rep_fresh:
  assumes "qrep s Q" "p \<notin> queued Q"
  shows "(\<lambda>j. removeAll p (Q j)) = Q"
proof
  fix k
  have "p \<notin> set (Q k)" using assms by (cases "k < MLFQ_NQUEUES") (auto simp: queued_def qrep_def)
  then show "removeAll p (Q k) = Q k" by simp
qed

lemma relist_alt: "relist p j Q = (let R = (\<lambda>k. removeAll p (Q k)) in R(j := R j @ [p]))"
  by (auto simp: relist_def)

lemma unlinked_read [simp]:
  "sched_q (unlinked x) = sched_q x" "sched_flags (unlinked x) = sched_flags x"
  "sched_last_block_tick (unlinked x) = sched_last_block_tick x"
  "budget_expired (unlinked x) = budget_expired x" "earns_promotion r n (unlinked x) = earns_promotion r n x"
  by (simp_all add: unlinked_def budget_expired_def earns_promotion_def)

lemma demote_unlinked: "unlinked (demote r x) = demote r (unlinked x)"
  by (simp add: demote_def Let_def) (simp add: unlinked_def)

lemma promote_unlinked: "unlinked (promote r n x) = promote r n (unlinked x)"
  by (simp add: promote_def Let_def) (simp add: unlinked_def)

lemma clamp_unlinked: "unlinked (clamp_level x) = clamp_level (unlinked x)"
  by (simp add: clamp_level_def) (simp add: unlinked_def)

lemma policy_commute: "unlinked (enq_policy r n x) = enq_policy r n (unlinked x)"
proof -
  define y where "y = clamp_level (promote r n (demote r x))"
  have y: "clamp_level (promote r n (demote r (unlinked x))) = unlinked y"
    by (simp add: y_def demote_unlinked promote_unlinked clamp_unlinked)
  show ?thesis
    unfolding enq_policy_def Let_def y y_def [symmetric] unlinked_read by (simp add: unlinked_def)
qed

lemma policy_cong: "unlinked x = unlinked y \<Longrightarrow> unlinked (enq_policy r n x) = unlinked (enq_policy r n y)"
  by (simp add: policy_commute)

lemma policy_unlinked:
  "unlinked x = unlinked y \<Longrightarrow> sched_q (enq_policy r n x) = sched_q (enq_policy r n y)"
  using policy_cong unlinked_fields(2) by blast

lemma qrep_stats [simp]:
  "qrep (s\<lparr>stat_demotions := a\<rparr>) Q = qrep s Q" "qrep (s\<lparr>stat_promotions := a\<rparr>) Q = qrep s Q"
  "qrep (s\<lparr>stat_boosts := a\<rparr>) Q = qrep s Q" "qrep (s\<lparr>stat_budget_expired := a\<rparr>) Q = qrep s Q"
  "qrep (s\<lparr>mlfq_last_boost_tick := b\<rparr>) Q = qrep s Q" "qrep (s\<lparr>mlfq_boost_interval_ticks := b, mlfq_last_boost_tick := c\<rparr>) Q = qrep s Q"
  by (simp_all add: qrep_def queue_ok_def)

lemma ticks_frame [frame, simp]:
  "ticks (mlfq_list_remove k p s) = ticks s" "ticks (mlfq_list_append k p s) = ticks s"
  "ticks (setp p f s) = ticks s" "ticks (enq_count r x s) = ticks s"
  by (simp_all add: mlfq_list_remove_def mlfq_list_append_def Let_def setp_def setq_def enq_count_def split: option.split)

lemma count_frame [simp]: "procs (enq_count r x s) = procs s" "qrep (enq_count r x s) Q = qrep s Q"
  by (simp_all add: enq_count_def qrep_def queue_ok_def)

lemma unlink_rep:
  assumes rep: "qrep s Q" and p: "p < length (procs s)" and lvl: "unat (sched_q (procs s ! p)) < MLFQ_NQUEUES"
    and y: "reason = ENQ_YIELD \<Longrightarrow> p \<notin> queued Q"
  shows "qrep (enq_unlink reason p s) (\<lambda>j. removeAll p (Q j))"
    "unlinked (procs (enq_unlink reason p s) ! i) = unlinked (procs s ! i) \<or> \<not> i < length (procs s)"
    "length (procs (enq_unlink reason p s)) = length (procs s)" "ticks (enq_unlink reason p s) = ticks s"
proof -
  show "qrep (enq_unlink reason p s) (\<lambda>j. removeAll p (Q j))"
  proof (cases "p \<in> queued Q")
    case True
    then have mem: "p \<in> set (Q (unat (sched_q (procs s ! p))))" using is_queued_iff [OF rep p lvl] by simp
    have "reason \<noteq> ENQ_YIELD \<and> mlfq_is_queued p s" using True y is_queued_iff [OF rep p lvl] by auto
    then show ?thesis
      using remove_rep [OF rep lvl mem] unfolding rep_removed [OF rep lvl mem] by (simp add: enq_unlink_def)
  next
    case False
    then show ?thesis using rep rep_fresh [OF rep False] is_queued_iff [OF rep p lvl] by (simp add: enq_unlink_def)
  qed
qed (auto simp: enq_unlink_def frame)

lemma enqueue_rep:
  assumes rep: "qrep s Q" and p: "p < length (procs s)" and lvl: "unat (sched_q (procs s ! p)) < MLFQ_NQUEUES"
    and y: "reason = ENQ_YIELD \<Longrightarrow> p \<notin> queued Q"
  shows "qrep (schedq_enqueue_locked (Some p) reason s)
    (relist p (unat (sched_q (enq_policy reason (ticks s) (procs s ! p)))) Q)"
proof -
  define s1 where "s1 = enq_unlink reason p s"
  define s2 where "s2 = enq_count reason (procs s1 ! p) s1"
  define j where "j = unat (sched_q (enq_policy reason (ticks s) (procs s ! p)))"
  note un = unlink_rep [of s Q p reason, OF rep p lvl y, folded s1_def]
  have tk: "ticks s2 = ticks s" using un(4) by (simp add: s2_def)
  have lv: "unat (sched_q (procs (setp p (enq_policy reason (ticks s2)) s2) ! p)) = j"
    using un(2) [of p] un(3) p policy_unlinked [of "procs s1 ! p" "procs s ! p" reason "ticks s"] tk
    by (simp add: nth_setp s2_def j_def)
  have "qrep s2 (\<lambda>j. removeAll p (Q j))" using un(1) by (simp add: s2_def)
  moreover have "\<forall>j < MLFQ_NQUEUES. p \<notin> set (removeAll p (Q j))" by simp
  moreover have "p < length (procs s2)" using p un(3) by (simp add: s2_def)
  moreover have "j < MLFQ_NQUEUES" by (simp add: j_def policy_level)
  ultimately have "qrep (mlfq_list_append j p (setp p (enq_policy reason (ticks s2)) s2)) (relist p j Q)"
    using mlfq.insert_rep [of s2 _ p "enq_policy reason (ticks s2)" j, OF _ _ _ policy_links _ lv]
    unfolding relist_alt Let_def by blast
  then show ?thesis
    unfolding schedq_enqueue_locked_def Let_def option.case s1_def [symmetric] s2_def [symmetric] lv
    unfolding j_def .
qed

lemma enqueue_frame:
  assumes "i < length (procs s)"
  shows "unlinked (procs (schedq_enqueue_locked (Some p) reason s) ! i) =
    unlinked (if i = p then enq_policy reason (ticks s) (procs s ! i) else procs s ! i)"
    "length (procs (schedq_enqueue_locked (Some p) reason s)) = length (procs s)"
proof -
  have l: "length (procs (enq_unlink reason p s)) = length (procs s)" "ticks (enq_unlink reason p s) = ticks s"
    "unlinked (procs (enq_unlink reason p s) ! i) = unlinked (procs s ! i)"
    using assms by (simp_all add: enq_unlink_def frame)
  show "length (procs (schedq_enqueue_locked (Some p) reason s)) = length (procs s)"
    using l by (simp add: schedq_enqueue_locked_def Let_def frame)
  show "unlinked (procs (schedq_enqueue_locked (Some p) reason s) ! i) =
    unlinked (if i = p then enq_policy reason (ticks s) (procs s ! i) else procs s ! i)"
    using l assms policy_cong [OF l(3)] by (auto simp: schedq_enqueue_locked_def Let_def frame nth_setp)
qed

lemma pick_from_rep:
  assumes rep: "qrep s Q" and qs: "sorted qs" "\<forall>k \<in> set qs. k < MLFQ_NQUEUES"
  shows "(if \<forall>k \<in> set qs. Q k = [] then pick_from qs s = (None, s)
    else \<exists>k p xs. k \<in> set qs \<and> (\<forall>j \<in> set qs. j < k \<longrightarrow> Q j = []) \<and> Q k = p # xs \<and>
      pick_from qs s = (Some p, mlfq_list_remove k p s) \<and> qrep (mlfq_list_remove k p s) (Q(k := xs)))"
  using qs
proof (induction qs)
  case Nil
  then show ?case by simp
next
  case (Cons k qs)
  then have k: "k < MLFQ_NQUEUES" by simp
  note hd = rep_head [OF rep k]
  show ?case
  proof (cases "Q k")
    case Nil
    then have step: "pick_from (k # qs) s = pick_from qs s" using hd by simp
    have "sorted qs" "\<forall>k \<in> set qs. k < MLFQ_NQUEUES" using Cons.prems by auto
    note ih = Cons.IH [OF this]
    show ?thesis
    proof (cases "\<forall>k \<in> set qs. Q k = []")
      case True
      then show ?thesis using ih Nil step by simp
    next
      case False
      then obtain k' p xs where r: "k' \<in> set qs" "\<forall>j \<in> set qs. j < k' \<longrightarrow> Q j = []" "Q k' = p # xs"
        "pick_from qs s = (Some p, mlfq_list_remove k' p s)" "qrep (mlfq_list_remove k' p s) (Q(k' := xs))"
        using ih [unfolded if_not_P [OF False]] by blast
      have some: "\<not> (\<forall>k \<in> set (k # qs). Q k = [])" using False by simp
      have least: "\<forall>j \<in> set (k # qs). j < k' \<longrightarrow> Q j = []" using r(2) Nil by simp
      show ?thesis
        unfolding step if_not_P [OF some]
        by (rule exI [of _ k'], rule exI [of _ p], rule exI [of _ xs]) (use r least in simp)
    qed
  next
    case (Cons p xs)
    have "qrep (mlfq_list_remove k p s) (Q(k := xs))" using remove_rep_split [OF rep k, of "[]" p xs] Cons by simp
    moreover have "pick_from (k # qs) s = (Some p, mlfq_list_remove k p s)" using hd Cons by simp
    moreover have "\<forall>j \<in> set (k # qs). \<not> j < k" using Cons.prems by auto
    ultimately show ?thesis using Cons by fastforce
  qed
qed

lemma pick_rep:
  assumes "qrep s Q"
  shows "(queued Q = {} \<and> schedq_pick_next_locked s = (None, s)) \<or>
    (\<exists>k p xs. k < MLFQ_NQUEUES \<and> (\<forall>j < k. Q j = []) \<and> Q k = p # xs \<and>
      schedq_pick_next_locked s = (Some p, mlfq_list_remove k p s) \<and> qrep (mlfq_list_remove k p s) (Q(k := xs)))"
proof -
  have "queued Q = {} \<longleftrightarrow> (\<forall>k \<in> set [0..<MLFQ_NQUEUES]. Q k = [])" by (auto simp: queued_def)
  then show ?thesis
    using pick_from_rep [OF assms, of "[0..<MLFQ_NQUEUES]"]
    by (fastforce simp: schedq_pick_next_locked_def split: if_splits)
qed

lemma dequeue_rep:
  assumes rep: "qrep s Q" and p: "p < length (procs s)" and lvl: "unat (sched_q (procs s ! p)) < MLFQ_NQUEUES"
  shows "qrep (schedq_dequeue_locked (Some p) s) (\<lambda>j. removeAll p (Q j))"
proof (cases "p \<in> queued Q")
  case True
  then have mem: "p \<in> set (Q (unat (sched_q (procs s ! p))))" using is_queued_iff [OF rep p lvl] by simp
  then show ?thesis
    using remove_rep [OF rep lvl mem] is_queued_iff [OF rep p lvl] lvl unfolding rep_removed [OF rep lvl mem]
    by (simp add: schedq_dequeue_locked_def)
next
  case False
  then show ?thesis using rep rep_fresh [OF rep False] is_queued_iff [OF rep p lvl] by (simp add: schedq_dequeue_locked_def)
qed

lemma charge_rep:
  assumes "qrep s Q"
  shows "qrep (mlfq_timer_charge pp s) Q"
    "length (procs (mlfq_timer_charge pp s)) = length (procs s)"
    "i < length (procs s) \<Longrightarrow> state (procs (mlfq_timer_charge pp s) ! i) = state (procs s ! i) \<and>
      sched_q (procs (mlfq_timer_charge pp s) ! i) = sched_q (procs s ! i)"
proof -
  have keep: "qrep (setp p f t) Q" if "qrep t Q" "keeps_links f" "\<And>x. sched_q (f x) = sched_q x" for p f t
    using that by (intro setp_rep) auto
  have k: "keeps_links (\<lambda>x. x\<lparr>sched_budget_left := g x\<rparr>)" "keeps_links (\<lambda>x. x\<lparr>sched_flags := h x\<rparr>)" for g h
    by (simp_all add: keeps_links_def)
  show "qrep (mlfq_timer_charge pp s) Q"
    by (cases pp) (auto simp: mlfq_timer_charge_def Let_def assms intro!: keep k)
  show "length (procs (mlfq_timer_charge pp s)) = length (procs s)"
    by (cases pp) (auto simp: mlfq_timer_charge_def Let_def)
  show "i < length (procs s) \<Longrightarrow> state (procs (mlfq_timer_charge pp s) ! i) = state (procs s ! i) \<and>
      sched_q (procs (mlfq_timer_charge pp s) ! i) = sched_q (procs s ! i)"
    by (cases pp) (auto simp: mlfq_timer_charge_def Let_def nth_setp)
qed

subsection \<open>The scheduler's invariant\<close>

text \<open>
  A process is in a run queue, once, exactly when it is runnable; every level is one of the five and no
  budget exceeds the longest quantum.
\<close>

definition sinv :: "ptable \<Rightarrow> (nat \<Rightarrow> nat list) \<Rightarrow> bool" where
  "sinv s Q \<longleftrightarrow> qrep s Q \<and>
     (\<forall>i < length (procs s). (state (procs s ! i) = RUNNABLE \<longleftrightarrow> i \<in> queued Q) \<and>
        unat (sched_q (procs s ! i)) < MLFQ_NQUEUES \<and> sched_budget_left (procs s ! i) \<le> 16)"

lemma sinvD:
  assumes "sinv s Q"
  shows "qrep s Q" "i < length (procs s) \<Longrightarrow> state (procs s ! i) = RUNNABLE \<longleftrightarrow> i \<in> queued Q"
    "i < length (procs s) \<Longrightarrow> unat (sched_q (procs s ! i)) < MLFQ_NQUEUES"
    "i < length (procs s) \<Longrightarrow> sched_budget_left (procs s ! i) \<le> 16"
  using assms by (auto simp: sinv_def)

lemma queued_relist: "j < MLFQ_NQUEUES \<Longrightarrow> queued (relist p j Q) = insert p (queued Q)"
proof (intro set_eqI iffI)
  fix x assume j: "j < MLFQ_NQUEUES"
  { assume "x \<in> queued (relist p j Q)"
    then show "x \<in> insert p (queued Q)" by (auto simp: queued_def relist_def split: if_splits) }
  { assume "x \<in> insert p (queued Q)"
    then consider "x = p" | k where "k < MLFQ_NQUEUES" "x \<in> set (Q k)" "x \<noteq> p" by (auto simp: queued_def)
    then show "x \<in> queued (relist p j Q)"
    proof cases
      case 1
      then show ?thesis using j by (auto simp: queued_def relist_def intro!: bexI [of _ j])
    next
      case 2
      then show ?thesis by (auto simp: queued_def relist_def intro!: bexI [of _ k])
    qed }
qed

lemma queued_removeAll: "queued (\<lambda>j. removeAll p (Q j)) = queued Q - {p}"
  by (auto simp: queued_def)

lemma quanta_bound: "k < MLFQ_NQUEUES \<Longrightarrow> mlfq_quanta ! k \<le> 16"
proof -
  assume "k < MLFQ_NQUEUES"
  then consider "k = 0" | "k = 1" | "k = 2" | "k = 3" | "k = 4" unfolding MLFQ_NQUEUES_def by linarith
  then show ?thesis by cases (simp_all add: mlfq_quanta_def)
qed

lemma policy_budget: "sched_budget_left x \<le> 16 \<Longrightarrow> sched_budget_left (enq_policy r n x) \<le> 16"
proof -
  assume b: "sched_budget_left x \<le> 16"
  have "unat (sched_q (clamp_level (promote r n (demote r x)))) < MLFQ_NQUEUES"
    by (auto simp: clamp_level_def MLFQ_NQUEUES_def)
  then show ?thesis using b quanta_bound
    by (simp add: enq_policy_def Let_def) (simp add: clamp_level_def promote_def demote_def Let_def)
qed

text \<open>
  Making a process runnable: its record is changed (state, and whatever else the caller sets) and it is
  enqueued.
\<close>

lemma make_runnable:
  assumes inv: "sinv s Q" and p: "p < length (procs s)" "state (procs s ! p) \<noteq> RUNNABLE"
    and f: "keeps_links f" "state (f (procs s ! p)) = RUNNABLE"
      "unat (sched_q (f (procs s ! p))) < MLFQ_NQUEUES" "sched_budget_left (f (procs s ! p)) \<le> 16"
  shows "sinv (schedq_enqueue_locked (Some p) reason (setp p f s))
    (relist p (unat (sched_q (enq_policy reason (ticks s) (f (procs s ! p))))) Q)"
proof -
  let ?s = "setp p f s" let ?t = "schedq_enqueue_locked (Some p) reason ?s"
  let ?j = "unat (sched_q (enq_policy reason (ticks s) (f (procs s ! p))))"
  have out: "p \<notin> queued Q" using sinvD(2) [OF inv p(1)] p(2) by simp
  have rep: "qrep ?s Q" by (rule setp_rep [OF sinvD(1) [OF inv] f(1)]) (use out in simp)
  have sp: "procs ?s ! p = f (procs s ! p)" using p(1) by (simp add: nth_setp)
  have "qrep ?t (relist p ?j Q)"
    using enqueue_rep [OF rep, of p reason] p(1) f(3) out sp by simp
  moreover have "(state (procs ?t ! i) = RUNNABLE \<longleftrightarrow> i \<in> queued (relist p ?j Q)) \<and>
      unat (sched_q (procs ?t ! i)) < MLFQ_NQUEUES \<and> sched_budget_left (procs ?t ! i) \<le> 16"
    if i: "i < length (procs s)" for i
  proof -
    have fr: "unlinked (procs ?t ! i) = unlinked (if i = p then enq_policy reason (ticks s) (procs ?s ! i) else procs ?s ! i)"
      using enqueue_frame(1) [of i ?s p reason] i by simp
    have q: "queued (relist p ?j Q) = insert p (queued Q)" by (rule queued_relist [OF policy_level])
    show ?thesis
    proof (cases "i = p")
      case True
      then show ?thesis using unlinked_fields(1,2,4) [OF fr] sp f policy_level policy_budget [OF f(4)] q by simp
    next
      case False
      then show ?thesis using unlinked_fields(1,2,4) [OF fr] sinvD [OF inv] i q by (simp add: nth_setp)
    qed
  qed
  moreover have "length (procs ?t) = length (procs s)"
    using enqueue_frame(2) [of p ?s] p(1) by simp
  ultimately show ?thesis by (simp add: sinv_def)
qed

text \<open>A change that makes no process runnable and none unrunnable.\<close>

lemma setp_sinv_local:
  assumes inv: "sinv s Q"
    and f: "sched_next (f (procs s ! p)) = sched_next (procs s ! p)" "sched_prev (f (procs s ! p)) = sched_prev (procs s ! p)"
    and st: "state (f (procs s ! p)) = RUNNABLE \<longleftrightarrow> state (procs s ! p) = RUNNABLE"
    and q: "state (procs s ! p) = RUNNABLE \<Longrightarrow> sched_q (f (procs s ! p)) = sched_q (procs s ! p)"
    and b: "unat (sched_q (f (procs s ! p))) < MLFQ_NQUEUES" "sched_budget_left (f (procs s ! p)) \<le> 16"
  shows "sinv (setp p f s) Q"
proof (cases "p < length (procs s)")
  case True
  have "qrep (setp p f s) Q"
    by (rule setp_rep_local [where f = f, OF sinvD(1) [OF inv] f]) (use q sinvD(2) [OF inv True] in simp)
  then show ?thesis using sinvD [OF inv] st b by (auto simp: sinv_def nth_setp)
next
  case False
  then have "setp p f s = s" by (simp add: setp_def list_update_beyond)
  then show ?thesis using inv by simp
qed

lemma setp_sinv:
  assumes "sinv s Q" "keeps_links f"
    "state (f (procs s ! p)) = RUNNABLE \<longleftrightarrow> state (procs s ! p) = RUNNABLE"
    "state (procs s ! p) = RUNNABLE \<Longrightarrow> sched_q (f (procs s ! p)) = sched_q (procs s ! p)"
    "unat (sched_q (f (procs s ! p))) < MLFQ_NQUEUES" "sched_budget_left (f (procs s ! p)) \<le> 16"
  shows "sinv (setp p f s) Q"
  using assms by (intro setp_sinv_local) (auto simp: keeps_links_def)

text \<open>A process that is not runnable has no links.\<close>

lemma sinv_unlinked:
  assumes "sinv s Q" "p < length (procs s)" "state (procs s ! p) \<noteq> RUNNABLE"
  shows "sched_next (procs s ! p) = None" "sched_prev (procs s ! p) = None"
  using sinvD(1,2) [OF assms(1)] assms(2,3) by (auto simp: qrep_def)

lemma pick_run:
  assumes inv: "sinv s Q" and pick: "schedq_pick_next_locked s = (Some p, t)"
    and f: "keeps_links f" "\<And>x. state (f x) = RUNNING" "\<And>x. sched_q (f x) = sched_q x"
      "\<And>x. sched_budget_left (f x) = sched_budget_left x"
  shows "p < length (procs s) \<and> state (procs s ! p) = RUNNABLE \<and> length (procs t) = length (procs s) \<and>
    (\<forall>i < length (procs s). unlinked (procs t ! i) = unlinked (procs s ! i)) \<and>
    (\<exists>k xs. k < MLFQ_NQUEUES \<and> (\<forall>j < k. Q j = []) \<and> Q k = p # xs \<and> sinv (setp p f t) (Q(k := xs)))"
proof -
  from pick_rep [OF sinvD(1) [OF inv]] pick obtain k xs where
    k: "k < MLFQ_NQUEUES" "\<forall>j < k. Q j = []" "Q k = p # xs" "t = mlfq_list_remove k p s" "qrep t (Q(k := xs))"
    by auto
  have mem: "p \<in> set (Q k)" by (simp add: k(3))
  have p: "p < length (procs s)" "p \<in> queued Q"
    using rep_level [OF sinvD(1) [OF inv] k(1) mem] mem k(1) unfolding queued_def by blast+
  have fr: "length (procs t) = length (procs s)" "\<And>i. i < length (procs s) \<Longrightarrow> unlinked (procs t ! i) = unlinked (procs s ! i)"
    by (simp_all add: k(4) frame)
  have d: "distinct (p # xs)" using mlfq.once [OF sinvD(1) [OF inv] k(1)] k(3) by simp
  have q: "queued (Q(k := xs)) = queued Q - {p}"
    using rep_removed [OF sinvD(1) [OF inv] k(1), of p] k(3) queued_removeAll [of p Q] by simp
  have "qrep (setp p f t) (Q(k := xs))" by (rule setp_rep [OF k(5) f(1)]) (simp add: q)
  then have "sinv (setp p f t) (Q(k := xs))"
    using sinvD [OF inv] unlinked_fields(1,2,4) [OF fr(2)] f by (auto simp: sinv_def nth_setp fr(1) q)
  then show ?thesis using p sinvD(2) [OF inv p(1)] fr k by blast
qed

definition boostable :: "proc \<Rightarrow> bool" where
  "boostable x \<longleftrightarrow> state x = RUNNABLE \<or> state x = SLEEPING \<or> state x = STOPPED"

lemma boost_one_sinv:
  assumes inv: "sinv s Q" and i: "i < length (procs s)"
  shows "\<exists>R. sinv (boost_one i s) R \<and> length (procs (boost_one i s)) = length (procs s) \<and>
    (\<forall>j < length (procs s). state (procs (boost_one i s) ! j) = state (procs s ! j) \<and>
       (j \<noteq> i \<longrightarrow> sched_q (procs (boost_one i s) ! j) = sched_q (procs s ! j))) \<and>
    (boostable (procs s ! i) \<longrightarrow> sched_q (procs (boost_one i s) ! i) \<le> 1)"
proof -
  let ?x = "procs s ! i"
  define f where "f = (\<lambda>x. clear_boost_flags (x\<lparr>sched_q := 1, sched_budget_left := mlfq_quanta ! 1\<rparr>))"
  define g where "g = (\<lambda>x. clear_boost_flags (x\<lparr>sched_q := 1\<rparr>))"
  have f: "keeps_links f" "\<And>x. state (f x) = state x" "\<And>x. sched_q (f x) = 1" "\<And>x. sched_budget_left (f x) \<le> 16"
    by (simp_all add: f_def keeps_links_def clear_boost_flags_def mlfq_quanta_def)
  have g: "keeps_links g" "\<And>x. state (g x) = state x" "\<And>x. sched_q (g x) = 1" "\<And>x. sched_budget_left (g x) = sched_budget_left x"
    by (simp_all add: g_def keeps_links_def clear_boost_flags_def)
  consider "boost_one i s = s" "boostable ?x \<longrightarrow> sched_q ?x \<le> 1"
    | "state ?x = RUNNABLE" "boost_one i s = mlfq_list_append 1 i (setp i f (mlfq_list_remove (unat (sched_q ?x)) i s))"
    | "state ?x \<noteq> RUNNABLE" "boost_one i s = setp i g s"
    by (cases "state ?x"; cases "sched_q ?x \<le> 1")
      (auto simp: boost_one_def Let_def boostable_def f_def g_def)
  then show ?thesis
  proof cases
    case 1
    then show ?thesis using inv by auto
  next
    case 2
    let ?k = "unat (sched_q ?x)"
    define u where "u = mlfq_list_remove ?k i s"
    have k: "?k < MLFQ_NQUEUES" "i \<in> set (Q ?k)"
      using sinvD [OF inv] is_queued_iff(2) [OF sinvD(1) [OF inv] i] 2(1) i by auto
    define R where "R = (let R = Q(?k := remove1 i (Q ?k)) in R(1 := R 1 @ [i]))"
    have one: "1 < MLFQ_NQUEUES" by (simp add: MLFQ_NQUEUES_def)
    have lu: "length (procs u) = length (procs s)" "\<And>j. j < length (procs s) \<Longrightarrow> unlinked (procs u ! j) = unlinked (procs s ! j)"
      by (simp_all add: u_def frame)
    have rep: "qrep (boost_one i s) R"
      unfolding 2(2) R_def
      by (rule mlfq.move_rep [OF sinvD(1) [OF inv] k f(1) one]) (use i in \<open>simp add: nth_setp frame f(3)\<close>)
    have R: "R = relist i 1 Q" unfolding R_def rep_removed [OF sinvD(1) [OF inv] k] relist_alt ..
    have qR: "queued R = queued Q" using queued_relist [OF one, of i Q] k by (auto simp: R queued_def)
    have fr: "unlinked (procs (boost_one i s) ! j) = unlinked (if j = i then f (procs u ! j) else procs u ! j)"
      if "j < length (procs s)" for j
      unfolding 2(2) u_def using that by (simp add: frame nth_setp)
    have len: "length (procs (boost_one i s)) = length (procs s)" unfolding 2(2) by (simp add: frame)
    have st: "state (procs (boost_one i s) ! j) = state (procs s ! j) \<and>
        sched_q (procs (boost_one i s) ! j) = (if j = i then 1 else sched_q (procs s ! j)) \<and>
        sched_budget_left (procs (boost_one i s) ! j) \<le> 16"
      if "j < length (procs s)" for j
      using unlinked_fields(1,2,4) [OF fr [OF that]] unlinked_fields(1,2,4) [OF lu(2) [OF that]] f sinvD(4) [OF inv that]
      by (cases "j = i") simp_all
    have "sinv (boost_one i s) R"
      using rep st sinvD [OF inv] by (auto simp: sinv_def len qR MLFQ_NQUEUES_def)
    then show ?thesis using st len i by (intro exI [of _ R]) simp
  next
    case 3
    have "sinv (setp i g s) Q"
      by (rule setp_sinv [OF inv g(1)]) (use 3(1) g sinvD(4) [OF inv i] in \<open>simp_all add: MLFQ_NQUEUES_def\<close>)
    then show ?thesis unfolding 3(2) using i g by (intro exI [of _ Q]) (simp add: nth_setp)
  qed
qed

lemma boost_fold:
  assumes "sinv s Q" "n \<le> length (procs s)"
  shows "\<exists>R. sinv (fold boost_one [0..<n] s) R \<and> length (procs (fold boost_one [0..<n] s)) = length (procs s) \<and>
    (\<forall>j < length (procs s). state (procs (fold boost_one [0..<n] s) ! j) = state (procs s ! j)) \<and>
    (\<forall>j < n. boostable (procs s ! j) \<longrightarrow> sched_q (procs (fold boost_one [0..<n] s) ! j) \<le> 1)"
  using assms(2)
proof (induction n)
  case 0
  then show ?case using assms(1) by auto
next
  case (Suc n)
  let ?t = "fold boost_one [0..<n] s"
  obtain R where R: "sinv ?t R" "length (procs ?t) = length (procs s)"
    "\<forall>j < length (procs s). state (procs ?t ! j) = state (procs s ! j)"
    "\<forall>j < n. boostable (procs s ! j) \<longrightarrow> sched_q (procs ?t ! j) \<le> 1"
    using Suc by auto
  have n: "n < length (procs ?t)" using Suc.prems R(2) by simp
  from boost_one_sinv [OF R(1) n] obtain R' where
    R': "sinv (boost_one n ?t) R'" "length (procs (boost_one n ?t)) = length (procs ?t)"
    "\<forall>j < length (procs ?t). state (procs (boost_one n ?t) ! j) = state (procs ?t ! j) \<and>
       (j \<noteq> n \<longrightarrow> sched_q (procs (boost_one n ?t) ! j) = sched_q (procs ?t ! j))"
    "boostable (procs ?t ! n) \<longrightarrow> sched_q (procs (boost_one n ?t) ! n) \<le> 1" by auto
  have "boostable (procs ?t ! j) = boostable (procs s ! j)" if "j < length (procs s)" for j
    using R(3) that by (simp add: boostable_def)
  then show ?case using R R' Suc.prems n by (intro exI [of _ R']) (auto simp: less_Suc_eq)
qed

lemma policy_new_level:
  assumes "unat (sched_q x) < MLFQ_NQUEUES"
  shows "unat (sched_q (enq_policy reason now x)) =
    (if reason = ENQ_YIELD \<and> budget_expired x then min (MLFQ_NQUEUES - 1) (unat (sched_q x) + 1)
     else if is_wake reason \<and> now - sched_last_block_tick x \<ge> 2 then unat (sched_q x) - 1
     else unat (sched_q x))"
proof -
  have l: "unat (sched_q x) < 5" using assms by (simp add: MLFQ_NQUEUES_def)
  have up: "unat (sched_q x + 1) = unat (sched_q x) + 1" using l by (subst unat_add_no_wrap) auto
  have down: "sched_q x > 0 \<Longrightarrow> unat (sched_q x - 1) = unat (sched_q x) - 1" by (simp add: word_gt_0 unat_minus_one)
  have lt: "sched_q x < 4 \<longleftrightarrow> unat (sched_q x) < 4" by (simp add: word_less_nat_alt)
  have wk: "is_wake ENQ_YIELD = False" by (simp add: is_wake_def)
  have pos: "sched_q x > 0 \<longleftrightarrow> unat (sched_q x) > 0" by (simp add: word_less_nat_alt)
  define d where "d = demote reason x"
  have d: "sched_q d = (if budget_expired x \<and> reason = ENQ_YIELD \<and> sched_q x < 4 then sched_q x + 1 else sched_q x)"
    "sched_last_block_tick d = sched_last_block_tick x"
    by (simp_all add: d_def demote_def Let_def MLFQ_NQUEUES_def)
  define m where "m = promote reason now d"
  have m: "sched_q m = (if is_wake reason \<and> now - sched_last_block_tick x \<ge> 2 \<and> sched_q d > 0 then sched_q d - 1 else sched_q d)"
    by (simp add: m_def promote_def Let_def earns_promotion_def d(2) MLFQ_PROMOTE_MIN_SLEEP_def)
  have "unat (sched_q m) < 5"
  proof (cases "reason = ENQ_YIELD")
    case True
    then show ?thesis using m d up lt l by (auto simp: wk)
  next
    case False
    then show ?thesis using m d down l by auto
  qed
  then have "sched_q (enq_policy reason now x) = sched_q m"
    by (simp add: enq_policy_def Let_def d_def [symmetric] m_def [symmetric] clamp_level_def MLFQ_NQUEUES_def)
  then show ?thesis
    using m d up down lt l pos by (cases "reason = ENQ_YIELD") (auto simp: wk MLFQ_NQUEUES_def min_def)
qed

subsection \<open>The properties\<close>

text \<open>
  Claim C8. The linked run queues behave as five lists, and \<open>schedq_enqueue_locked\<close> moves a process: it leaves
  the queue it was in, if any, and goes to the end of the queue of its new level, which is one lower (at most
  the last) after a yield with an exhausted quantum, one higher (at least the first) after a wakeup from a sleep of
  two ticks or more, and the old one otherwise. A yield needs a process that is in no queue.
\<close>

theorem mlfq_enqueue_refines:
  assumes "qrep s Q" "p < length (procs s)" "unat (sched_q (procs s ! p)) < MLFQ_NQUEUES"
    "reason = ENQ_YIELD \<Longrightarrow> p \<notin> queued Q"
  shows "qrep (schedq_enqueue_locked (Some p) reason s)
    (relist p
      (if reason = ENQ_YIELD \<and> budget_expired (procs s ! p) then min (MLFQ_NQUEUES - 1) (unat (sched_q (procs s ! p)) + 1)
       else if is_wake reason \<and> ticks s - sched_last_block_tick (procs s ! p) \<ge> 2 then unat (sched_q (procs s ! p)) - 1
       else unat (sched_q (procs s ! p))) Q)"
  using enqueue_rep [OF assms(1-3), of reason] assms(4) unfolding policy_new_level [OF assms(3)] by blast

text \<open>A table of two processes, neither queued.\<close>

definition idle_proc :: proc where
  "idle_proc = \<lparr>state = SLEEPING, pid = 1, pgid = 1, parent = None, chan = 0, killed = False, xstatus = 0, wait_event = 0,
     wait_status = 0, sig_pending = 0, sig_caught = 0, sig_mask = 0, sig_ignored = 0, sig_handler = replicate 32 0,
     alarm_ticks = 0, alarm_interval_ticks = 0, sched_q = 3, sched_flags = 0, sched_budget_left = 8, sched_enq_tick = 0,
     sched_last_block_tick = 0, sched_last_wake_tick = 0, sched_next = None, sched_prev = None,
     tick_next = None, on_tickq = False\<rparr>"

definition idle_table :: ptable where
  "idle_table = \<lparr>procs = [idle_proc, idle_proc], mlfq_qs = replicate 5 \<lparr>qhead = None, qtail = None, qcount = 0\<rparr>,
     mlfq_last_boost_tick = 0, mlfq_boost_interval_ticks = 200, stat_promotions = 0, stat_demotions = 0, stat_boosts = 0,
     stat_budget_expired = 0, ticks = 300, active_alarm_count = 0, chan_wait_hash = replicate 256 0,
     tick_sleepq_head = None, active_tick_sleepers = 0\<rparr>"

lemma idle_sinv: "sinv idle_table (\<lambda>_. [])"
  by (auto simp: sinv_def qrep_def queue_ok_def queued_def idle_table_def idle_proc_def MLFQ_NQUEUES_def less_Suc_eq nth_Cons')

theorem mlfq_enqueue_refines_witness:
  "qrep (schedq_enqueue_locked (Some 0) ENQ_WAKE idle_table) (relist 0 2 (\<lambda>_. []))"
  using mlfq_enqueue_refines [of idle_table "\<lambda>_. []" 0 ENQ_WAKE] sinvD(1) [OF idle_sinv]
  by (simp add: idle_table_def idle_proc_def MLFQ_NQUEUES_def is_wake_def)

text \<open>
  Claim C9. \<open>schedq_pick_next_locked\<close> returns the oldest process of the highest non-empty level and unlinks
  exactly that one; it returns none exactly when all queues are empty.
\<close>

theorem mlfq_pick_refines:
  assumes "qrep s Q"
  shows "(fst (schedq_pick_next_locked s) = None \<longleftrightarrow> queued Q = {}) \<and>
    (case schedq_pick_next_locked s of
       (None, t) \<Rightarrow> t = s
     | (Some p, t) \<Rightarrow> \<exists>k xs. k < MLFQ_NQUEUES \<and> (\<forall>j < k. Q j = []) \<and> Q k = p # xs \<and> qrep t (Q(k := xs)))"
proof -
  have "queued Q \<noteq> {}" if "k < MLFQ_NQUEUES" "Q k = p # xs" for k p xs
  proof -
    have "p \<in> set (Q k)" using that(2) by simp
    then show ?thesis using queuedI [OF that(1)] by blast
  qed
  note some = this
  from pick_rep [OF assms] show ?thesis
  proof (elim disjE exE conjE)
    assume "queued Q = {}" "schedq_pick_next_locked s = (None, s)"
    then show ?thesis by simp
  next
    fix k p xs
    assume "k < MLFQ_NQUEUES" "\<forall>j < k. Q j = []" "Q k = p # xs"
      "schedq_pick_next_locked s = (Some p, mlfq_list_remove k p s)" "qrep (mlfq_list_remove k p s) (Q(k := xs))"
    then show ?thesis using some [of k p xs] by auto
  qed
qed

theorem mlfq_pick_refines_witness:
  "fst (schedq_pick_next_locked idle_table) = None \<and>
   fst (schedq_pick_next_locked (schedq_enqueue_locked (Some 0) ENQ_WAKE idle_table)) \<noteq> None"
proof -
  have "qrep (schedq_enqueue_locked (Some 0) ENQ_WAKE idle_table) (relist 0 2 (\<lambda>_. []))"
    using enqueue_rep [OF sinvD(1) [OF idle_sinv], of 0 ENQ_WAKE] policy_new_level [of idle_proc ENQ_WAKE 300]
    by (simp add: idle_table_def idle_proc_def MLFQ_NQUEUES_def is_wake_def)
  then show ?thesis
    using mlfq_pick_refines [OF sinvD(1) [OF idle_sinv]] mlfq_pick_refines [of _ "relist 0 2 (\<lambda>_. [])"]
      queuedI [of 2 0 "relist 0 2 (\<lambda>_. [])"]
    by (auto simp: MLFQ_NQUEUES_def relist_def queued_def)
qed

text \<open>
  Claim C10. Once the interval has passed, \<open>mlfq_apply_global_boost\<close> puts every runnable, sleeping or stopped process
  on one of the two highest levels and keeps the queues intact: no runnable process can wait below level 1 for
  longer than the boost interval.
\<close>

theorem mlfq_boost_lifts:
  assumes "sinv s Q" "mlfq_boost_interval_ticks s \<le> now - mlfq_last_boost_tick s"
  shows "\<exists>R. sinv (mlfq_apply_global_boost now s) R \<and> queued R = queued Q \<and>
    (\<forall>p < length (procs s). boostable (procs s ! p) \<longrightarrow> sched_q (procs (mlfq_apply_global_boost now s) ! p) \<le> 1) \<and>
    (\<forall>k. 1 < k \<longrightarrow> R k = [])"
proof -
  define u where "u = s\<lparr>mlfq_last_boost_tick := now\<rparr>"
  have u: "sinv u Q" "procs u = procs s" using assms(1) by (simp_all add: u_def sinv_def)
  define t where "t = fold boost_one [0..<length (procs u)] u"
  obtain R where R: "sinv t R" "length (procs t) = length (procs s)"
    "\<forall>j < length (procs s). state (procs t ! j) = state (procs s ! j)"
    "\<forall>j < length (procs s). boostable (procs s ! j) \<longrightarrow> sched_q (procs t ! j) \<le> 1"
    using boost_fold [OF u(1), of "length (procs u)"] u(2) t_def by auto
  have b: "mlfq_apply_global_boost now s = t\<lparr>stat_boosts := stat_boosts t + 1\<rparr>"
    using assms(2) by (simp add: mlfq_apply_global_boost_def Let_def u_def t_def not_less)
  have lim: "x < length (procs s)" if "x \<in> queued R" for x
    using that rep_level [OF sinvD(1) [OF R(1)]] R(2) by (auto simp: queued_def)
  have limQ: "x < length (procs s)" if "x \<in> queued Q" for x
    using that rep_level [OF sinvD(1) [OF assms(1)]] by (auto simp: queued_def)
  have "queued R = queued Q"
  proof (rule set_eqI)
    fix x
    show "x \<in> queued R \<longleftrightarrow> x \<in> queued Q"
      using sinvD(2) [OF R(1), of x] sinvD(2) [OF assms(1), of x] R(2,3) lim [of x] limQ [of x]
      by (cases "x < length (procs s)") auto
  qed
  moreover have "R k = []" if k: "1 < k" for k
  proof (cases "k < MLFQ_NQUEUES")
    case True
    have False if x: "x \<in> set (R k)" for x
    proof -
      have l: "x < length (procs s)" "unat (sched_q (procs t ! x)) = k" using rep_level [OF sinvD(1) [OF R(1)] True x] R(2) by auto
      have "x \<in> queued R" using True x by (auto simp: queued_def)
      then have "boostable (procs s ! x)" using sinvD(2) [OF R(1)] l(1) R(2,3) by (simp add: boostable_def)
      then have "sched_q (procs t ! x) \<le> 1" using R(4) l(1) by simp
      then show False using l(2) k by (simp add: word_le_nat_alt)
    qed
    then show ?thesis by (cases "R k") auto
  next
    case False
    then show ?thesis using sinvD(1) [OF R(1)] by (simp add: qrep_def)
  qed
  ultimately show ?thesis unfolding b using R by (intro exI [of _ R]) (simp add: sinv_def)
qed

theorem mlfq_boost_lifts_witness:
  "sched_q (procs idle_table ! 0) = 3 \<and> sched_q (procs (mlfq_apply_global_boost 300 idle_table) ! 0) \<le> 1"
  using mlfq_boost_lifts [OF idle_sinv, of 300]
  by (auto simp: idle_table_def idle_proc_def boostable_def)

end
