(* ===== verification/Tickq.thy ===== *)
theory Tickq
  imports Sched
begin

text \<open>
  The queue of processes that sleep on the clock (\<open>tick_sleepq_head\<close> of \<open>kernel/core/proc.c\<close>): a singly linked list
  through the field \<open>tick_next\<close> of the process table, a membership bit per process and a counter, which the timer
  interrupt reads to skip its wakeup. The walk along the list has the size of the table as its fuel; \<open>tick_walk_finds\<close>
  shows that this is enough for every queue that has each process at most once.
\<close>

definition tick_sleepq_add_locked :: "nat option \<Rightarrow> ptable \<Rightarrow> ptable" where
  "tick_sleepq_add_locked pp s =
     (case pp of None \<Rightarrow> s
      | Some p \<Rightarrow>
          if on_tickq (procs s ! p) then s
          else let s = setp p (\<lambda>x. x\<lparr>tick_next := tick_sleepq_head s, on_tickq := True\<rparr>) s
               in s\<lparr>tick_sleepq_head := Some p, active_tick_sleepers := active_tick_sleepers s + 1\<rparr>)"

text \<open>
  The walk of the removal: the process whose \<open>tick_next\<close> points to \<open>p\<close>, \<open>Some None\<close> when it is the head pointer
  that does, and \<open>None\<close> when the list ends first.
\<close>

fun tick_walk :: "nat \<Rightarrow> nat \<Rightarrow> nat option \<Rightarrow> nat option \<Rightarrow> ptable \<Rightarrow> nat option option" where
  "tick_walk 0 p pv cur s = None"
| "tick_walk (Suc n) p pv cur s =
     (case cur of None \<Rightarrow> None
      | Some q \<Rightarrow> if q = p then Some pv else tick_walk n p (Some q) (tick_next (procs s ! q)) s)"

definition tick_sleepq_remove_locked :: "nat option \<Rightarrow> ptable \<Rightarrow> ptable" where
  "tick_sleepq_remove_locked pp s =
     (case pp of None \<Rightarrow> s
      | Some p \<Rightarrow>
          if \<not> on_tickq (procs s ! p) then s
          else let nx = tick_next (procs s ! p);
                   s = (case tick_walk (Suc (length (procs s))) p None (tick_sleepq_head s) s of
                          None \<Rightarrow> s
                        | Some None \<Rightarrow> s\<lparr>tick_sleepq_head := nx\<rparr>
                        | Some (Some a) \<Rightarrow> setp a (\<lambda>x. x\<lparr>tick_next := nx\<rparr>) s);
                   s = setp p (\<lambda>x. x\<lparr>tick_next := None, on_tickq := False\<rparr>) s
               in if active_tick_sleepers s > 0
                  then s\<lparr>active_tick_sleepers := active_tick_sleepers s - 1\<rparr> else s)"

definition proc_has_tick_sleepers :: "ptable \<Rightarrow> bool" where
  "proc_has_tick_sleepers s \<longleftrightarrow> active_tick_sleepers s > 0"

subsection \<open>The queue as a list\<close>

definition tick_rep :: "ptable \<Rightarrow> nat list \<Rightarrow> bool" where
  "tick_rep s T \<longleftrightarrow> distinct T \<and> (\<forall>p \<in> set T. p < length (procs s)) \<and> tick_sleepq_head s = hde T None \<and>
     links (\<lambda>i. tick_next (procs s ! i)) T None \<and> (\<forall>p < length (procs s). on_tickq (procs s ! p) \<longleftrightarrow> p \<in> set T) \<and>
     active_tick_sleepers s = int (length T)"

text \<open>The representation reads the head, the counter, the membership bits, and the links of the members.\<close>

definition tickv :: "ptable \<Rightarrow> nat option option list" where
  "tickv s = map (\<lambda>x. if on_tickq x then Some (tick_next x) else None) (procs s)"

definition tick_same :: "ptable \<Rightarrow> ptable \<Rightarrow> bool" where
  "tick_same t s \<longleftrightarrow> tickv t = tickv s \<and> tick_sleepq_head t = tick_sleepq_head s \<and> active_tick_sleepers t = active_tick_sleepers s"

lemma tick_same_refl [simp]: "tick_same s s"
  by (simp add: tick_same_def)

lemma tick_same_trans: "tick_same u t \<Longrightarrow> tick_same t s \<Longrightarrow> tick_same u s"
  by (simp add: tick_same_def)

lemma tickvI:
  assumes "length (procs t) = length (procs s)"
    "\<And>i. i < length (procs s) \<Longrightarrow> on_tickq (procs t ! i) = on_tickq (procs s ! i) \<and>
      (on_tickq (procs s ! i) \<longrightarrow> tick_next (procs t ! i) = tick_next (procs s ! i))"
  shows "tickv t = tickv s"
  by (rule nth_equalityI) (use assms in \<open>simp_all add: tickv_def\<close>)

lemma tickvD:
  assumes "tickv t = tickv s"
  shows "length (procs t) = length (procs s)"
    "i < length (procs s) \<Longrightarrow> on_tickq (procs t ! i) = on_tickq (procs s ! i)"
    "i < length (procs s) \<Longrightarrow> on_tickq (procs s ! i) \<Longrightarrow> tick_next (procs t ! i) = tick_next (procs s ! i)"
proof -
  show l: "length (procs t) = length (procs s)" using arg_cong [OF assms, of length] by (simp add: tickv_def)
  assume i: "i < length (procs s)"
  have e: "(if on_tickq (procs t ! i) then Some (tick_next (procs t ! i)) else None) =
      (if on_tickq (procs s ! i) then Some (tick_next (procs s ! i)) else None)"
    using arg_cong [OF assms, of "\<lambda>v. v ! i"] l i by (simp add: tickv_def)
  then show "on_tickq (procs t ! i) = on_tickq (procs s ! i)"
    "on_tickq (procs s ! i) \<Longrightarrow> tick_next (procs t ! i) = tick_next (procs s ! i)"
    by (simp_all split: if_splits)
qed

lemma tick_rep_same:
  assumes "tick_same t s" "tick_rep s T" shows "tick_rep t T"
proof -
  have v: "tickv t = tickv s" using assms by (simp add: tick_same_def)
  have "links (\<lambda>i. tick_next (procs t ! i)) T None = links (\<lambda>i. tick_next (procs s ! i)) T None"
    by (rule links_cong) (use assms(2) tickvD(3) [OF v] in \<open>auto simp: tick_rep_def\<close>)
  then show ?thesis using assms tickvD(1,2) [OF v] by (auto simp: tick_rep_def tick_same_def)
qed

lemma tick_same_setp:
  assumes "on_tickq (f (procs s ! p)) = on_tickq (procs s ! p)"
    "on_tickq (procs s ! p) \<Longrightarrow> tick_next (f (procs s ! p)) = tick_next (procs s ! p)"
  shows "tick_same (setp p f s) s"
proof -
  have "tickv (setp p f s) = tickv s" by (rule tickvI) (use assms in \<open>auto simp: nth_setp\<close>)
  then show ?thesis by (simp add: tick_same_def setp_def)
qed

lemma tick_same_unlinked:
  assumes "length (procs t) = length (procs s)" "\<And>i. i < length (procs s) \<Longrightarrow> unlinked (procs t ! i) = unlinked (procs s ! i)"
    "tick_sleepq_head t = tick_sleepq_head s" "active_tick_sleepers t = active_tick_sleepers s"
  shows "tick_same t s"
  unfolding tick_same_def using assms(3,4) tickvI [OF assms(1)] unlinked_fields(9,10) [OF assms(2)] by blast

lemma tick_rep_bound: "tick_rep s T \<Longrightarrow> length T \<le> length (procs s)"
  using card_mono [of "{..<length (procs s)}" "set T"] distinct_card [of T] by (auto simp: tick_rep_def)

lemma tick_walk_finds:
  assumes "links (\<lambda>i. tick_next (procs s ! i)) (as @ p # bs) e" "p \<notin> set as" "length as < n"
  shows "tick_walk n p pv (hde (as @ p # bs) e) s = Some (if as = [] then pv else Some (last as))"
  using assms
proof (induction as arbitrary: n pv)
  case Nil
  then show ?case by (cases n) simp_all
next
  case (Cons a as)
  then show ?case by (cases n) auto
qed

text \<open>Adding puts a process in front; removing takes it out wherever it stands.\<close>

lemma tick_add_rep:
  assumes rep: "tick_rep s T" and p: "p < length (procs s)" "p \<notin> set T"
  shows "tick_rep (tick_sleepq_add_locked (Some p) s) (p # T)"
proof -
  let ?t = "tick_sleepq_add_locked (Some p) s"
  have t: "?t = (setp p (\<lambda>x. x\<lparr>tick_next := tick_sleepq_head s, on_tickq := True\<rparr>) s)
      \<lparr>tick_sleepq_head := Some p, active_tick_sleepers := active_tick_sleepers s + 1\<rparr>"
    using rep p by (simp add: tick_sleepq_add_locked_def tick_rep_def Let_def setp_def)
  have "links (\<lambda>i. tick_next (procs ?t ! i)) T None = links (\<lambda>i. tick_next (procs s ! i)) T None"
    by (rule links_cong) (use rep p in \<open>auto simp: t nth_setp tick_rep_def\<close>)
  then show ?thesis using rep p by (auto simp: tick_rep_def t nth_setp)
qed

lemma tick_remove_rep:
  assumes rep: "tick_rep s T" and p: "p < length (procs s)"
  shows "tick_rep (tick_sleepq_remove_locked (Some p) s) (removeAll p T)"
proof (cases "p \<in> set T")
  case False
  then show ?thesis using assms by (simp add: tick_sleepq_remove_locked_def tick_rep_def)
next
  case True
  then obtain as bs where T: "T = as @ p # bs" by (meson split_list)
  have d: "p \<notin> set as" "p \<notin> set bs" "distinct (as @ p # bs)" using rep by (auto simp: tick_rep_def T)
  have ra: "removeAll p T = as @ bs" using d by (simp add: T)
  have lk: "links (\<lambda>i. tick_next (procs s ! i)) (as @ p # bs) None" "tick_next (procs s ! p) = hde bs None"
    using rep by (simp_all add: tick_rep_def T links_append)
  have "tick_walk (Suc (length (procs s))) p None (tick_sleepq_head s) s = Some (if as = [] then None else Some (last as))"
    using tick_walk_finds [OF lk(1) d(1), of "Suc (length (procs s))" None] tick_rep_bound [OF rep] rep
    by (simp add: tick_rep_def T)
  note walk = this
  have on: "on_tickq (procs s ! p)" using rep p True by (simp add: tick_rep_def)
  define u where "u = (if as = [] then s\<lparr>tick_sleepq_head := tick_next (procs s ! p)\<rparr>
    else setp (last as) (\<lambda>x. x\<lparr>tick_next := tick_next (procs s ! p)\<rparr>) s)"
  define v where "v = setp p (\<lambda>x. x\<lparr>tick_next := None, on_tickq := False\<rparr>) u"
  have act: "active_tick_sleepers v = int (length T)" using rep by (simp add: v_def u_def setp_def tick_rep_def)
  have "tick_sleepq_remove_locked (Some p) s =
      (if active_tick_sleepers v > 0 then v\<lparr>active_tick_sleepers := active_tick_sleepers v - 1\<rparr> else v)"
    unfolding tick_sleepq_remove_locked_def option.case walk Let_def v_def u_def using on by simp
  then have t: "tick_sleepq_remove_locked (Some p) s = v\<lparr>active_tick_sleepers := active_tick_sleepers v - 1\<rparr>"
    unfolding act by (simp add: T)
  have len: "length (procs v) = length (procs s)" by (simp add: v_def u_def)
  have nx: "tick_next (procs v ! i) = (if i = p then None else if as \<noteq> [] \<and> i = last as then tick_next (procs s ! p) else tick_next (procs s ! i))"
    and on: "on_tickq (procs v ! i) = (i \<noteq> p \<and> on_tickq (procs s ! i))" if "i < length (procs s)" for i
    using that p by (auto simp: v_def u_def nth_setp)
  have "links (\<lambda>i. tick_next (procs v ! i)) (as @ bs) None"
    by (rule links_delete [OF lk(1) d(3)]) (use nx rep d in \<open>auto simp: tick_rep_def T\<close>)
  moreover have "tick_sleepq_head v = hde (as @ bs) None"
    using rep lk(2) by (cases as) (simp_all add: v_def u_def setp_def tick_rep_def T)
  ultimately show ?thesis
    using rep d on by (auto simp: tick_rep_def t len ra T act)
qed

subsection \<open>What the queue operations leave alone\<close>

definition unticked :: "proc \<Rightarrow> proc" where
  "unticked x = x\<lparr>tick_next := None, on_tickq := False\<rparr>"

lemma unticked_fields:
  assumes "unticked x = unticked y"
  shows "state x = state y" "chan x = chan y" "sched_q x = sched_q y" "sched_budget_left x = sched_budget_left y"
    "sched_next x = sched_next y" "sched_prev x = sched_prev y" "pid x = pid y" "parent x = parent y"
  using assms by (cases x, cases y, simp add: unticked_def)+

lemma unticked_simps [simp]:
  "unticked (x\<lparr>tick_next := a\<rparr>) = unticked x" "unticked (x\<lparr>tick_next := a, on_tickq := b\<rparr>) = unticked x"
  by (simp_all add: unticked_def)

lemma setp_scalars:
  "chan_wait_hash (setp p f s) = chan_wait_hash s" "ticks (setp p f s) = ticks s"
  by (simp_all add: setp_def)

lemma tick_add_frame:
  fixes pp s defines "t \<equiv> tick_sleepq_add_locked pp s"
  shows "length (procs t) = length (procs s)" "mlfq_qs t = mlfq_qs s" "chan_wait_hash t = chan_wait_hash s" "ticks t = ticks s"
    "i < length (procs s) \<Longrightarrow> unticked (procs t ! i) = unticked (procs s ! i)"
  by (simp_all add: t_def tick_sleepq_add_locked_def Let_def nth_setp setp_scalars split: option.split)

lemma tick_remove_frame:
  fixes pp s defines "t \<equiv> tick_sleepq_remove_locked pp s"
  shows "length (procs t) = length (procs s)" "mlfq_qs t = mlfq_qs s" "chan_wait_hash t = chan_wait_hash s" "ticks t = ticks s"
    "i < length (procs s) \<Longrightarrow> unticked (procs t ! i) = unticked (procs s ! i)"
  by (simp_all add: t_def tick_sleepq_remove_locked_def Let_def nth_setp setp_scalars del: tick_walk.simps split: option.split)

lemma unticked_sinv:
  assumes "sinv s Q" "length (procs t) = length (procs s)" "mlfq_qs t = mlfq_qs s"
    "\<And>i. i < length (procs s) \<Longrightarrow> unticked (procs t ! i) = unticked (procs s ! i)"
  shows "sinv t Q"
proof -
  note u = unticked_fields [OF assms(4)]
  note rep = sinvD(1) [OF assms(1)]
  have mem: "i < length (procs s)" if "k < MLFQ_NQUEUES" "i \<in> set (Q k)" for i k
    using rep that by (auto simp: qrep_def)
  have q: "queue_ok t k (Q k)" if k: "k < MLFQ_NQUEUES" for k
    by (rule queue_ok_cong [of s]) (use rep k assms(3) mem [OF k] u(5,6) in \<open>auto simp: qrep_def\<close>)
  have "sched_q (procs t ! i) = of_nat k" if "k < MLFQ_NQUEUES" "i \<in> set (Q k)" for i k
    using rep that u(3) [OF mem [OF that]] by (auto simp: qrep_def)
  then have "qrep t Q" using rep q u(5,6) assms(2,3) by (auto simp: qrep_def)
  then show ?thesis using assms(1,2) u(1,3,4) by (auto simp: sinv_def)
qed

end
