(* ===== verification/Proc.thy ===== *)
theory Proc
  imports Tickq
begin

text \<open>
  The life of a process: sleep and wakeup, yield and dispatch, signals, alarms, allocation, exit and
  reaping (\<open>kernel/core/proc.c\<close>, \<open>proc_signal.c\<close>, \<open>proc_lifecycle.c\<close> and the end of \<open>proc_sched.c\<close>), on top of
  the run queues. The system state has the process table and, per CPU, the process it runs
  (\<open>cpus[i].proc\<close>). Every critical section of \<open>ptable.lock\<close> is one step; \<open>sched\<close> hands the CPU back within the
  same critical section. Channels are addresses; which of them is a slot of the process table and which is
  \<open>&ticks\<close> is the argument \<open>lay\<close>. The statistics counters of \<open>wakeup1\<close> are left out.
\<close>

record kmap =
  slot_at :: "u32 \<Rightarrow> nat option"
  ticks_at :: u32

record procsys =
  tbl :: ptable
  cpu_proc :: "nat option list"
  nextpid :: int

definition PID_MAX :: int where "PID_MAX = 32767"
definition NSIG :: nat where "NSIG = 32"
definition SIGKILL :: nat where "SIGKILL = 9"
definition SIGALRM :: nat where "SIGALRM = 14"
definition SIGCONT :: nat where "SIGCONT = 18"
definition SIGSTOP :: nat where "SIGSTOP = 19"
definition SIGTSTP :: nat where "SIGTSTP = 20"
definition SIGTTIN :: nat where "SIGTTIN = 21"
definition SIGTTOU :: nat where "SIGTTOU = 22"

definition SIGBIT :: "nat \<Rightarrow> u32" where "SIGBIT sig = push_bit (sig - 1) 1"

definition WAIT_EVENT_STOPPED :: nat where "WAIT_EVENT_STOPPED = 1"
definition WAIT_EVENT_CONTINUED :: nat where "WAIT_EVENT_CONTINUED = 2"
definition WSTATUS_EXIT :: "u32 \<Rightarrow> u32" where "WSTATUS_EXIT code = push_bit 8 (code AND 0xff)"
definition WSTATUS_SIG :: "nat \<Rightarrow> u32" where "WSTATUS_SIG sig = of_nat sig AND 0x7f"
definition WSTATUS_STOP :: "nat \<Rightarrow> u32" where "WSTATUS_STOP sig = push_bit 8 (of_nat sig AND 0xff) OR 0x7f"
definition WSTATUS_CONT :: u32 where "WSTATUS_CONT = 0xffff"

subsection \<open>Choosing a signal\<close>

definition valid_signo :: "int \<Rightarrow> bool" where
  "valid_signo signo \<longleftrightarrow> signo > 0 \<and> signo < int NSIG"

text \<open>The chains of tests, as the order in which the signals are tried.\<close>

fun pick_signal :: "nat list \<Rightarrow> u32 \<Rightarrow> nat" where
  "pick_signal [] pending = 0"
| "pick_signal (sg # sgs) pending = (if pending AND SIGBIT sg \<noteq> 0 then sg else pick_signal sgs pending)"

definition stop_order :: "nat list" where
  "stop_order = [SIGSTOP, SIGTSTP, SIGTTIN, SIGTTOU]"

definition fatal_order :: "nat list" where
  "fatal_order = [SIGKILL, 11, 7, 4, 8, 6, 15, 2, 3, 1, 5, 13, SIGALRM, 10, 12, 24, 25, 31]"

definition signal_pick_stop :: "u32 \<Rightarrow> nat" where
  "signal_pick_stop pending = pick_signal stop_order pending"

definition signal_pick_fatal :: "u32 \<Rightarrow> nat" where
  "signal_pick_fatal pending = pick_signal fatal_order pending"

definition stopset :: u32 where
  "stopset = SIGBIT SIGSTOP OR SIGBIT SIGTSTP OR SIGBIT SIGTTIN OR SIGBIT SIGTTOU"

definition fatalset :: u32 where
  "fatalset = SIGBIT 1 OR SIGBIT 2 OR SIGBIT 3 OR SIGBIT 4 OR SIGBIT 5 OR SIGBIT 6 OR SIGBIT 7 OR SIGBIT 8 OR
     SIGBIT SIGKILL OR SIGBIT 10 OR SIGBIT 11 OR SIGBIT 12 OR SIGBIT 13 OR SIGBIT SIGALRM OR SIGBIT 15 OR
     SIGBIT 24 OR SIGBIT 25 OR SIGBIT 31"

subsection \<open>Posting signals and alarms\<close>

text \<open>\<open>p->state = RUNNABLE; schedq_enqueue_locked(p, reason)\<close>, the pair that every wakeup consists of.\<close>

definition make_ready :: "nat \<Rightarrow> enq_reason \<Rightarrow> ptable \<Rightarrow> ptable" where
  "make_ready p reason s = schedq_enqueue_locked (Some p) reason (setp p (\<lambda>x. x\<lparr>state := RUNNABLE\<rparr>) s)"

definition proc_note_signal_locked :: "nat option \<Rightarrow> int \<Rightarrow> ptable \<Rightarrow> ptable" where
  "proc_note_signal_locked pp signo s =
     (case pp of None \<Rightarrow> s
      | Some p \<Rightarrow>
          if \<not> valid_signo signo then s
          else let sg = nat signo;
                   s = setp p (\<lambda>x. x\<lparr>sig_pending := sig_pending x OR SIGBIT sg\<rparr>) s;
                   s = (if sg = SIGCONT then
                          let s = setp p (\<lambda>x. x\<lparr>sig_pending := sig_pending x AND NOT (SIGBIT SIGSTOP OR SIGBIT SIGTSTP)\<rparr>) s
                          in if state (procs s ! p) = STOPPED then make_ready p ENQ_SIGNAL s else s
                        else s);
                   s = (if sg = SIGKILL then setp p (\<lambda>x. x\<lparr>killed := True\<rparr>) s else s)
               in if state (procs s ! p) = SLEEPING then make_ready p ENQ_SIGNAL s else s)"

definition proc_set_alarm_state :: "nat \<Rightarrow> u32 \<Rightarrow> u32 \<Rightarrow> ptable \<Rightarrow> ptable" where
  "proc_set_alarm_state p deadline interval s =
     (let old = alarm_ticks (procs s ! p);
          s = setp p (\<lambda>x. x\<lparr>alarm_ticks := deadline, alarm_interval_ticks := (if deadline \<noteq> 0 then interval else 0)\<rparr>) s
      in if old = 0 \<and> deadline \<noteq> 0 then s\<lparr>active_alarm_count := active_alarm_count s + 1\<rparr>
         else if old \<noteq> 0 \<and> deadline = 0 then s\<lparr>active_alarm_count := active_alarm_count s - 1\<rparr>
         else s)"

definition alarm_one :: "u32 \<Rightarrow> nat \<Rightarrow> ptable \<Rightarrow> ptable" where
  "alarm_one now p s =
     (let x = procs s ! p in
      if state x = UNUSED then s
      else if alarm_ticks x = 0 then s
      else if now \<ge> alarm_ticks x then
        let s = (if alarm_interval_ticks x \<noteq> 0
                 then setp p (\<lambda>x. x\<lparr>alarm_ticks := now + alarm_interval_ticks x\<rparr>) s
                 else proc_set_alarm_state p 0 0 s);
            s = setp p (\<lambda>x. x\<lparr>sig_pending := sig_pending x OR SIGBIT SIGALRM\<rparr>) s
        in if state (procs s ! p) = SLEEPING then make_ready p ENQ_ALARM s else s
      else s)"

definition proc_check_alarms :: "u32 \<Rightarrow> ptable \<Rightarrow> ptable" where
  "proc_check_alarms now s =
     (if active_alarm_count s = 0 then s else fold (alarm_one now) [0..<length (procs s)] s)"

subsection \<open>Applying signals on the way to user space\<close>

text \<open>Signals with a user handler move from the pending set to the caught set.\<close>

definition catch_one :: "nat \<Rightarrow> proc \<times> u32 \<Rightarrow> proc \<times> u32" where
  "catch_one signo xp =
     (let (x, pending) = xp; bit = SIGBIT signo in
      if pending AND bit = 0 then xp
      else if signo = SIGKILL \<or> signo = SIGSTOP then xp
      else if sig_handler x ! signo > 1 then
        (x\<lparr>sig_caught := sig_caught x OR bit, sig_pending := sig_pending x AND NOT bit\<rparr>, pending AND NOT bit)
      else xp)"

definition deliverable :: "proc \<Rightarrow> u32" where
  "deliverable x = (sig_pending x AND NOT (sig_mask x)) AND NOT (sig_ignored x)"

definition proc_apply_pending_signals :: "nat option \<Rightarrow> ptable \<Rightarrow> ptable" where
  "proc_apply_pending_signals pp s =
     (case pp of None \<Rightarrow> s
      | Some p \<Rightarrow>
          let (x, pending) = fold catch_one [1..<NSIG] (procs s ! p, deliverable (procs s ! p));
              s = setp p (\<lambda>_. x) s;
              s = (if pending AND SIGBIT SIGCONT \<noteq> 0 then
                     let s = setp p (\<lambda>x. x\<lparr>sig_pending := sig_pending x AND NOT (SIGBIT SIGCONT)\<rparr>) s
                     in if state (procs s ! p) = STOPPED
                        then setp p (\<lambda>x. x\<lparr>wait_event := WAIT_EVENT_CONTINUED, wait_status := WSTATUS_CONT\<rparr>)
                               (make_ready p ENQ_SIGNAL s)
                        else s
                   else s);
              pending = pending AND NOT (SIGBIT SIGCONT);
              s = (if pending AND stopset \<noteq> 0 then
                     let stopsig = signal_pick_stop pending;
                         s = setp p (\<lambda>x. x\<lparr>sig_pending := sig_pending x AND NOT stopset\<rparr>) s
                     in if state (procs s ! p) \<in> {RUNNING, RUNNABLE, SLEEPING}
                        then setp p (\<lambda>x. x\<lparr>state := STOPPED, wait_event := WAIT_EVENT_STOPPED,
                               wait_status := WSTATUS_STOP stopsig\<rparr>) s
                        else s
                   else s);
              pending = pending AND NOT stopset
          in if pending AND fatalset \<noteq> 0 then
               let termsig = signal_pick_fatal pending;
                   s = setp p (\<lambda>x. x\<lparr>killed := True\<rparr>) s;
                   s = (if valid_signo (int termsig) then setp p (\<lambda>x. x\<lparr>xstatus := WSTATUS_SIG termsig\<rparr>) s else s);
                   s = (if state (procs s ! p) = STOPPED then make_ready p ENQ_SIGNAL s else s)
               in setp p (\<lambda>x. x\<lparr>sig_pending := sig_pending x AND NOT fatalset\<rparr>) s
             else s)"

subsection \<open>Sleep and wakeup\<close>

definition chan_wait_hash_idx :: "u32 \<Rightarrow> nat" where
  "chan_wait_hash_idx ch = unat (drop_bit 2 ch AND 255)"

definition hash_inc :: "u32 \<Rightarrow> ptable \<Rightarrow> ptable" where
  "hash_inc ch s = (let k = chan_wait_hash_idx ch in
     s\<lparr>chan_wait_hash := (chan_wait_hash s)[k := chan_wait_hash s ! k + 1]\<rparr>)"

definition hash_dec :: "u32 \<Rightarrow> ptable \<Rightarrow> ptable" where
  "hash_dec ch s = (let k = chan_wait_hash_idx ch in
     if chan_wait_hash s ! k > 0
     then s\<lparr>chan_wait_hash := (chan_wait_hash s)[k := chan_wait_hash s ! k - 1]\<rparr> else s)"

text \<open>\<open>sleep\<close> up to the call of \<open>sched\<close>, and from its return on.\<close>

definition sleep_begin :: "kmap \<Rightarrow> nat \<Rightarrow> u32 \<Rightarrow> ptable \<Rightarrow> ptable" where
  "sleep_begin lay p ch s =
     (let s = hash_inc ch s;
          s = (if ch = ticks_at lay then tick_sleepq_add_locked (Some p) s else s)
      in setp p (\<lambda>x. x\<lparr>chan := ch, state := SLEEPING, sched_last_block_tick := ticks s\<rparr>) s)"

definition sleep_end :: "kmap \<Rightarrow> nat \<Rightarrow> ptable \<Rightarrow> ptable" where
  "sleep_end lay p s =
     (let ch = chan (procs s ! p);
          s = (if ch = ticks_at lay then tick_sleepq_remove_locked (Some p) s else s)
      in setp p (\<lambda>x. x\<lparr>chan := 0\<rparr>) (hash_dec ch s))"

definition wake_one :: "u32 \<Rightarrow> nat \<Rightarrow> ptable \<Rightarrow> ptable" where
  "wake_one ch p s =
     (if state (procs s ! p) = SLEEPING \<and> chan (procs s ! p) = ch then make_ready p ENQ_WAKE s else s)"

text \<open>
  The wakeup of the clock walks its queue and takes every entry out; each round shortens the queue, so that the size
  of the table is enough fuel.
\<close>

fun wake_ticks :: "nat \<Rightarrow> u32 \<Rightarrow> nat option \<Rightarrow> ptable \<Rightarrow> ptable" where
  "wake_ticks 0 ch cur s = s"
| "wake_ticks (Suc n) ch cur s =
     (case cur of None \<Rightarrow> s
      | Some p \<Rightarrow> let nx = tick_next (procs s ! p)
                  in wake_ticks n ch nx (tick_sleepq_remove_locked (Some p) (wake_one ch p s)))"

definition wakeup1 :: "kmap \<Rightarrow> u32 \<Rightarrow> ptable \<Rightarrow> ptable" where
  "wakeup1 lay ch s =
     (if ch = ticks_at lay then wake_ticks (length (procs s)) ch (tick_sleepq_head s) s
      else if chan_wait_hash s ! chan_wait_hash_idx ch = 0 then s
      else case slot_at lay ch of
        Some p \<Rightarrow> wake_one ch p s
      | None \<Rightarrow> fold (wake_one ch) [0..<length (procs s)] s)"

subsection \<open>CPUs\<close>

definition proc_maybe_stop_current :: "nat \<Rightarrow> procsys \<Rightarrow> procsys" where
  "proc_maybe_stop_current c S =
     (case cpu_proc S ! c of None \<Rightarrow> S
      | Some p \<Rightarrow> if state (procs (tbl S) ! p) = STOPPED then S\<lparr>cpu_proc := (cpu_proc S)[c := None]\<rparr> else S)"

definition yield :: "nat \<Rightarrow> procsys \<Rightarrow> procsys" where
  "yield c S =
     (case cpu_proc S ! c of None \<Rightarrow> S
      | Some p \<Rightarrow> S\<lparr>tbl := make_ready p ENQ_YIELD (tbl S), cpu_proc := (cpu_proc S)[c := None]\<rparr>)"

definition dispatch :: "nat \<Rightarrow> procsys \<Rightarrow> procsys" where
  "dispatch c S =
     (case schedq_pick_next_locked (tbl S) of
        (None, s) \<Rightarrow> S\<lparr>tbl := s\<rparr>
      | (Some p, s) \<Rightarrow> S\<lparr>tbl := setp p (\<lambda>x. x\<lparr>state := RUNNING\<rparr>) s, cpu_proc := (cpu_proc S)[c := Some p]\<rparr>)"

definition sleep :: "kmap \<Rightarrow> nat \<Rightarrow> u32 \<Rightarrow> procsys \<Rightarrow> procsys kres" where
  "sleep lay c ch S =
     (case cpu_proc S ! c of None \<Rightarrow> Panic ''sleep''
      | Some p \<Rightarrow> Ok (S\<lparr>tbl := sleep_begin lay p ch (tbl S), cpu_proc := (cpu_proc S)[c := None]\<rparr>))"

subsection \<open>Allocation, exit and reaping\<close>

text \<open>The next process identifier: the candidates in turn until one is used by no other live process.\<close>

fun find_pid :: "nat \<Rightarrow> nat \<Rightarrow> proc list \<Rightarrow> int \<Rightarrow> (int \<times> int) option" where
  "find_pid 0 p ps np = None"
| "find_pid (Suc tries) p ps np =
     (let np' = (if np \<ge> PID_MAX then 2 else np + 1) in
      if \<exists>q \<in> set [0..<length ps]. q \<noteq> p \<and> state (ps ! q) \<noteq> UNUSED \<and> pid (ps ! q) = np
      then find_pid tries p ps np' else Some (np, np'))"

definition embryo :: "int \<Rightarrow> proc \<Rightarrow> proc" where
  "embryo i x = x\<lparr>state := EMBRYO, pid := i, pgid := i, xstatus := 0, wait_event := 0, wait_status := 0,
     sig_pending := 0, sig_caught := 0, sig_mask := 0, sig_ignored := 0, sig_handler := replicate NSIG 0,
     alarm_ticks := 0, alarm_interval_ticks := 0, sched_q := 1, sched_flags := 0, sched_budget_left := 2,
     sched_enq_tick := 0, sched_last_block_tick := 0, sched_last_wake_tick := 0, sched_next := None, sched_prev := None,
     tick_next := None, on_tickq := False\<rparr>"

definition allocproc :: "procsys \<Rightarrow> (nat option \<times> procsys) kres" where
  "allocproc S =
     (case first_index (\<lambda>x. state x = UNUSED) (procs (tbl S)) of
        None \<Rightarrow> Ok (None, S)
      | Some p \<Rightarrow>
          (case find_pid (nat PID_MAX) p (procs (tbl S)) (nextpid S) of
             None \<Rightarrow> Panic ''allocproc: PID space exhausted''
           | Some (i, np) \<Rightarrow> Ok (Some p, S\<lparr>tbl := setp p (embryo i) (tbl S), nextpid := np\<rparr>)))"

text \<open>The critical section that ends \<open>fork\<close> and \<open>userinit\<close>.\<close>

definition fork_ready :: "nat option \<Rightarrow> nat \<Rightarrow> ptable \<Rightarrow> ptable" where
  "fork_ready par p s = make_ready p ENQ_FORK (setp p (\<lambda>x. x\<lparr>parent := par, sched_q := 1\<rparr>) s)"

definition WIFSIGNALED :: "u32 \<Rightarrow> bool" where
  "WIFSIGNALED st \<longleftrightarrow> st AND 0x7f \<noteq> 0 \<and> st AND 0x7f \<noteq> 0x7f"

definition wait_status_has_valid_signal :: "u32 \<Rightarrow> bool" where
  "wait_status_has_valid_signal st \<longleftrightarrow> \<not> WIFSIGNALED st \<or> valid_signo (uint (st AND 0x7f))"

definition exit_status :: "u32 \<Rightarrow> u32 \<Rightarrow> u32" where
  "exit_status xs code =
     (let xs = (if xs \<noteq> 0 \<and> \<not> wait_status_has_valid_signal xs then 0 else xs)
      in if xs = 0 then WSTATUS_EXIT code else xs)"

text \<open>
  \<open>exit\<close>: wake the parent, hand the children to init, record the status and become a zombie. The channel of a
  process slot is \<open>addr\<close>, and \<open>addr_of\<close> that of a possibly null pointer.
\<close>

definition addr_of :: "(nat \<Rightarrow> u32) \<Rightarrow> nat option \<Rightarrow> u32" where
  "addr_of addr pp = (case pp of None \<Rightarrow> 0 | Some p \<Rightarrow> addr p)"

definition adopt_one :: "kmap \<Rightarrow> (nat \<Rightarrow> u32) \<Rightarrow> nat \<Rightarrow> nat \<Rightarrow> nat \<Rightarrow> ptable \<Rightarrow> ptable" where
  "adopt_one lay addr initp cur p s =
     (if parent (procs s ! p) = Some cur then
        let s = setp p (\<lambda>x. x\<lparr>parent := Some initp\<rparr>) s
        in if state (procs s ! p) = ZOMBIE then wakeup1 lay (addr initp) s else s
      else s)"

definition exit_proc :: "kmap \<Rightarrow> (nat \<Rightarrow> u32) \<Rightarrow> nat \<Rightarrow> u32 \<Rightarrow> nat \<Rightarrow> procsys \<Rightarrow> procsys kres" where
  "exit_proc lay addr initp code c S =
     (case cpu_proc S ! c of None \<Rightarrow> Ok S
      | Some p \<Rightarrow>
          if p = initp then Panic ''init exiting''
          else let s = wakeup1 lay (addr_of addr (parent (procs (tbl S) ! p))) (tbl S);
                   s = fold (adopt_one lay addr initp p) [0..<length (procs s)] s;
                   s = setp p (\<lambda>x. x\<lparr>xstatus := exit_status (xstatus x) code, state := ZOMBIE\<rparr>) s
               in Ok (S\<lparr>tbl := s, cpu_proc := (cpu_proc S)[c := None]\<rparr>))"

definition WNOHANG :: u32 where "WNOHANG = 1"
definition WUNTRACED :: u32 where "WUNTRACED = 2"
definition WCONTINUED :: u32 where "WCONTINUED = 4"

definition reaped :: "proc \<Rightarrow> proc" where
  "reaped x = x\<lparr>state := UNUSED, pid := 0, pgid := 0, xstatus := 0, wait_event := 0, wait_status := 0, parent := None,
     killed := False, sig_pending := 0, sig_caught := 0, sig_mask := 0, sig_ignored := 0,
     sig_handler := replicate (length (sig_handler x)) 0, sched_q := 0, sched_flags := 0, sched_budget_left := 0,
     sched_enq_tick := 0, sched_last_block_tick := 0, sched_last_wake_tick := 0, sched_next := None, sched_prev := None,
     tick_next := None, on_tickq := False\<rparr>"

text \<open>What one child has to report: a stop, a continuation, or its death, which frees the slot.\<close>

definition wait_child :: "u32 \<Rightarrow> nat \<Rightarrow> ptable \<Rightarrow> (int \<times> u32 \<times> ptable) option" where
  "wait_child options p s =
     (let x = procs s ! p;
          seen = setp p (\<lambda>x. x\<lparr>wait_event := 0, wait_status := 0\<rparr>) s
      in if options AND WUNTRACED \<noteq> 0 \<and> wait_event x = WAIT_EVENT_STOPPED then Some (pid x, wait_status x, seen)
         else if options AND WCONTINUED \<noteq> 0 \<and> wait_event x = WAIT_EVENT_CONTINUED then Some (pid x, wait_status x, seen)
         else if state x = ZOMBIE then Some (pid x, xstatus x, setp p reaped s)
         else None)"

definition proc_wait_target_match :: "proc \<Rightarrow> proc \<Rightarrow> int \<Rightarrow> bool" where
  "proc_wait_target_match cur child i =
     (if i > 0 then pid child = i
      else if i = 0 then pgid child = pgid cur
      else if i = - 1 then True
      else pgid child = - i)"

datatype wait_out = Returns int "u32 option" | Sleeps

text \<open>One round of the loop of \<open>proc_waitpid\<close> by process \<open>cur\<close>: it returns, or sleeps and comes back for another round.\<close>

definition wait_rest :: "bool \<Rightarrow> u32 \<Rightarrow> nat \<Rightarrow> ptable \<Rightarrow> wait_out \<times> ptable" where
  "wait_rest havekids options cur s =
     (if \<not> havekids \<or> killed (procs s ! cur) then (Returns (- 1) None, s)
      else if options AND WNOHANG \<noteq> 0 then (Returns 0 None, s)
      else (Sleeps, s))"

definition wait_for_pid :: "int \<Rightarrow> u32 \<Rightarrow> nat \<Rightarrow> ptable \<Rightarrow> wait_out \<times> ptable" where
  "wait_for_pid i options cur s =
     (case first_index (\<lambda>x. pid x = i) (procs s) of
        None \<Rightarrow> wait_rest False options cur s
      | Some p \<Rightarrow>
          if parent (procs s ! p) \<noteq> Some cur then (Returns (- 1) None, s)
          else (case wait_child options p s of
                  Some (r, st, t) \<Rightarrow> (Returns r (Some st), t)
                | None \<Rightarrow> wait_rest True options cur s))"

fun wait_scan :: "int \<Rightarrow> u32 \<Rightarrow> nat \<Rightarrow> bool \<Rightarrow> nat list \<Rightarrow> ptable \<Rightarrow> wait_out \<times> ptable" where
  "wait_scan i options cur havekids [] s = wait_rest havekids options cur s"
| "wait_scan i options cur havekids (p # ps) s =
     (if parent (procs s ! p) \<noteq> Some cur \<or> \<not> proc_wait_target_match (procs s ! cur) (procs s ! p) i
      then wait_scan i options cur havekids ps s
      else case wait_child options p s of
             Some (r, st, t) \<Rightarrow> (Returns r (Some st), t)
           | None \<Rightarrow> wait_scan i options cur True ps s)"

definition waitpid_round :: "int \<Rightarrow> u32 \<Rightarrow> nat \<Rightarrow> ptable \<Rightarrow> wait_out \<times> ptable" where
  "waitpid_round i options cur s =
     (if options AND NOT (WNOHANG OR WUNTRACED OR WCONTINUED) \<noteq> 0 then (Returns (- 1) None, s)
      else if i > 0 then wait_for_pid i options cur s
      else wait_scan i options cur False [0..<length (procs s)] s)"

text \<open>How \<open>proc_waitid\<close> reads a status.\<close>

datatype wait_class = Stopped u32 | Continued | Signaled u32 | Exited u32

definition classify :: "u32 \<Rightarrow> wait_class" where
  "classify st =
     (if st AND 0xff = 0x7f then Stopped (drop_bit 8 st AND 0xff)
      else if st = 0xffff then Continued
      else if WIFSIGNALED st then Signaled (st AND 0x7f)
      else Exited (drop_bit 8 st AND 0xff))"

subsection \<open>What the table operations leave alone\<close>

definition chans :: "ptable \<Rightarrow> u32 list" where "chans s = map chan (procs s)"
definition states :: "ptable \<Rightarrow> procstate list" where "states s = map state (procs s)"

lemma length_chans [simp]: "length (chans s) = length (procs s)" "length (states s) = length (procs s)"
  by (simp_all add: chans_def states_def)

lemma nth_chans: "i < length (procs s) \<Longrightarrow> chans s ! i = chan (procs s ! i)" "i < length (procs s) \<Longrightarrow> states s ! i = state (procs s ! i)"
  by (simp_all add: chans_def states_def)

lemma chans_setp: "chans (setp p f s) = (chans s)[p := chan (f (procs s ! p))]"
  by (simp add: chans_def setp_def map_update)

lemma states_setp: "states (setp p f s) = (states s)[p := state (f (procs s ! p))]"
  by (simp add: states_def setp_def map_update)

lemma chans_setp_same [simp]: "(\<And>x. chan (f x) = chan x) \<Longrightarrow> chans (setp p f s) = chans s"
  by (rule nth_equalityI) (auto simp: nth_chans nth_setp)

lemma states_setp_same [simp]: "(\<And>x. state (f x) = state x) \<Longrightarrow> states (setp p f s) = states s"
  by (rule nth_equalityI) (auto simp: nth_chans nth_setp)

lemma same_unlinked:
  assumes "length (procs t) = length (procs s)"
    "\<And>i. i < length (procs s) \<Longrightarrow> unlinked (procs t ! i) = unlinked (procs s ! i)"
  shows "chans t = chans s" "states t = states s"
  by (rule nth_equalityI, simp add: assms(1), simp add: nth_chans assms(1) unlinked_fields(1,5) [OF assms(2)])+

lemma list_ops_frame [simp]:
  "chans (mlfq_list_append k p s) = chans s" "states (mlfq_list_append k p s) = states s"
  "chans (mlfq_list_remove k p s) = chans s" "states (mlfq_list_remove k p s) = states s"
  by (rule same_unlinked; simp add: frame)+

lemma enqueue_chans [simp]:
  "chans (schedq_enqueue_locked (Some p) r s) = chans s" "states (schedq_enqueue_locked (Some p) r s) = states s"
proof -
  have len: "length (procs (schedq_enqueue_locked (Some p) r s)) = length (procs s)"
    by (simp add: schedq_enqueue_locked_def Let_def frame enq_unlink_def)
  have "chan (procs (schedq_enqueue_locked (Some p) r s) ! i) = chan (procs s ! i) \<and>
      state (procs (schedq_enqueue_locked (Some p) r s) ! i) = state (procs s ! i)" if "i < length (procs s)" for i
    using unlinked_fields(1,5) [OF enqueue_frame(1) [OF that, of p r]] by (cases "i = p") simp_all
  then show "chans (schedq_enqueue_locked (Some p) r s) = chans s" "states (schedq_enqueue_locked (Some p) r s) = states s"
    by (auto intro!: nth_equalityI simp: nth_chans len)
qed

lemma hash_frame [simp]:
  "chan_wait_hash (setp p f s) = chan_wait_hash s" "chan_wait_hash (setq k g s) = chan_wait_hash s"
  "chan_wait_hash (mlfq_list_append k p s) = chan_wait_hash s" "chan_wait_hash (mlfq_list_remove k p s) = chan_wait_hash s"
  "chan_wait_hash (schedq_enqueue_locked pp r s) = chan_wait_hash s"
proof -
  show [simp]: "chan_wait_hash (setp p f s) = chan_wait_hash s" "chan_wait_hash (setq k g s) = chan_wait_hash s" for p f s k g
    by (simp_all add: setp_def setq_def)
  show [simp]: "chan_wait_hash (mlfq_list_append k p s) = chan_wait_hash s"
    "chan_wait_hash (mlfq_list_remove k p s) = chan_wait_hash s" for k p s
    by (simp_all add: mlfq_list_append_def mlfq_list_remove_def Let_def split: option.split)
  show "chan_wait_hash (schedq_enqueue_locked pp r s) = chan_wait_hash s"
    by (simp add: schedq_enqueue_locked_def Let_def enq_unlink_def enq_count_def split: option.split)
qed

lemma tick_scalars_frame [simp]:
  "tick_sleepq_head (setp p f s) = tick_sleepq_head s" "active_tick_sleepers (setp p f s) = active_tick_sleepers s"
  "tick_sleepq_head (setq k g s) = tick_sleepq_head s" "active_tick_sleepers (setq k g s) = active_tick_sleepers s"
  by (simp_all add: setp_def setq_def)

lemma tick_lists_frame [simp]:
  "tick_sleepq_head (mlfq_list_append k p s) = tick_sleepq_head s" "active_tick_sleepers (mlfq_list_append k p s) = active_tick_sleepers s"
  "tick_sleepq_head (mlfq_list_remove k p s) = tick_sleepq_head s" "active_tick_sleepers (mlfq_list_remove k p s) = active_tick_sleepers s"
  by (simp_all add: mlfq_list_append_def mlfq_list_remove_def Let_def split: option.split)

lemma tick_same_enqueue: "tick_same (schedq_enqueue_locked (Some p) r s) s"
proof -
  let ?t = "schedq_enqueue_locked (Some p) r s"
  have len: "length (procs ?t) = length (procs s)"
    by (simp add: schedq_enqueue_locked_def Let_def frame enq_unlink_def)
  have pol: "tick_next (enq_policy r n x) = tick_next x" "on_tickq (enq_policy r n x) = on_tickq x" for n x
    by (simp_all add: enq_policy_def Let_def clamp_level_def promote_def demote_def)
  have "tickv ?t = tickv s"
  proof (rule tickvI [OF len])
    fix i assume "i < length (procs s)"
    from unlinked_fields(9,10) [OF enqueue_frame(1) [OF this, of p r]]
    show "on_tickq (procs ?t ! i) = on_tickq (procs s ! i) \<and> (on_tickq (procs s ! i) \<longrightarrow> tick_next (procs ?t ! i) = tick_next (procs s ! i))"
      by (cases "i = p") (simp_all add: pol)
  qed
  then show ?thesis
    by (simp add: tick_same_def schedq_enqueue_locked_def Let_def enq_unlink_def enq_count_def)
qed

lemma tick_same_make_ready [simp]: "tick_same (make_ready p r s) s"
  unfolding make_ready_def by (rule tick_same_trans [OF tick_same_enqueue]) (rule tick_same_setp, simp_all)

lemma make_ready_frame [simp]:
  "chans (make_ready p r s) = chans s" "states (make_ready p r s) = (states s)[p := RUNNABLE]"
  "chan_wait_hash (make_ready p r s) = chan_wait_hash s" "length (procs (make_ready p r s)) = length (procs s)"
proof -
  show c: "chans (make_ready p r s) = chans s" by (simp add: make_ready_def)
  show "states (make_ready p r s) = (states s)[p := RUNNABLE]" by (simp add: make_ready_def states_setp)
  show "chan_wait_hash (make_ready p r s) = chan_wait_hash s" by (simp add: make_ready_def)
  show "length (procs (make_ready p r s)) = length (procs s)" using arg_cong [OF c, of length] by simp
qed

lemma make_ready_state: "p < length (procs s) \<Longrightarrow> state (procs (make_ready p r s) ! p) = RUNNABLE"
  using nth_chans(2) [of p "make_ready p r s"] by simp

subsection \<open>The table invariant\<close>

text \<open>Every bucket of the wait hash counts the processes inside \<open>sleep\<close> on a channel of that bucket.\<close>

definition hash_ok :: "ptable \<Rightarrow> bool" where
  "hash_ok s \<longleftrightarrow> length (chan_wait_hash s) = 256 \<and>
     (\<forall>k < 256. chan_wait_hash s ! k =
        of_nat (length (filter (\<lambda>ch. ch \<noteq> 0 \<and> chan_wait_hash_idx ch = k) (chans s))))"

definition pok :: "bool \<Rightarrow> kmap \<Rightarrow> nat \<Rightarrow> procstate \<Rightarrow> u32 \<Rightarrow> bool" where
  "pok stops lay p st ch \<longleftrightarrow> (st = SLEEPING \<longrightarrow> ch \<noteq> 0) \<and> (ch \<noteq> 0 \<longrightarrow> slot_at lay ch = None \<or> slot_at lay ch = Some p) \<and>
     (st \<in> {UNUSED, EMBRYO, ZOMBIE} \<longrightarrow> ch = 0) \<and> (st = STOPPED \<longrightarrow> stops)"

text \<open>The queue of the clock is intact, holds every process that sleeps on the clock, and none that is not inside that sleep.\<close>

definition tickq_ok :: "kmap \<Rightarrow> ptable \<Rightarrow> bool" where
  "tickq_ok lay s \<longleftrightarrow> (\<exists>T. tick_rep s T \<and>
     (\<forall>p < length (procs s). states s ! p = SLEEPING \<and> chans s ! p = ticks_at lay \<longrightarrow> p \<in> set T) \<and>
     (\<forall>p \<in> set T. chans s ! p = ticks_at lay \<and> chans s ! p \<noteq> 0))"

lemma tickq_ok_same:
  assumes "tickq_ok lay s" "tick_same t s" "chans t = chans s"
    "\<And>p. p < length (procs s) \<Longrightarrow> states t ! p = SLEEPING \<Longrightarrow> states s ! p = SLEEPING"
  shows "tickq_ok lay t"
proof -
  have "length (procs t) = length (procs s)" by (rule tickvD(1)) (use assms(2) in \<open>simp add: tick_same_def\<close>)
  moreover from assms(1) obtain T where "tick_rep s T"
    "\<forall>p < length (procs s). states s ! p = SLEEPING \<and> chans s ! p = ticks_at lay \<longrightarrow> p \<in> set T"
    "\<forall>p \<in> set T. chans s ! p = ticks_at lay \<and> chans s ! p \<noteq> 0" by (auto simp: tickq_ok_def)
  ultimately show ?thesis
    unfolding tickq_ok_def using tick_rep_same [OF assms(2)] assms(3,4) by (intro exI [of _ T]) auto
qed

text \<open>
  The table with the set \<open>R\<close> of processes that CPUs run: runnable is queued, running is in \<open>R\<close>, the wait hash and the
  queue of the clock are exact, and each process is consistent.
\<close>

definition tinv :: "bool \<Rightarrow> kmap \<Rightarrow> ptable \<Rightarrow> nat set \<Rightarrow> bool" where
  "tinv stops lay s R \<longleftrightarrow> (\<exists>Q. sinv s Q) \<and> hash_ok s \<and> tickq_ok lay s \<and>
     (\<forall>p < length (procs s). (states s ! p = RUNNING \<longleftrightarrow> p \<in> R) \<and> pok stops lay p (states s ! p) (chans s ! p))"

lemma tinv_setp:
  assumes inv: "tinv stops lay s R" and f: "keeps_links f" "\<And>x. state (f x) = state x" "\<And>x. chan (f x) = chan x"
    "\<And>x. sched_q (f x) = sched_q x" "\<And>x. sched_budget_left (f x) = sched_budget_left x"
    "\<And>x. tick_next (f x) = tick_next x" "\<And>x. on_tickq (f x) = on_tickq x"
  shows "tinv stops lay (setp p f s) R"
proof (cases "p < length (procs s)")
  case True
  obtain Q where Q: "sinv s Q" using inv by (auto simp: tinv_def)
  have "sinv (setp p f s) Q"
    by (rule setp_sinv [OF Q f(1)]) (use f sinvD(3,4) [OF Q True] in simp_all)
  moreover have "tickq_ok lay (setp p f s)"
    by (rule tickq_ok_same [of lay s]) (use inv f in \<open>simp_all add: tinv_def tick_same_setp\<close>)
  ultimately show ?thesis using inv f by (auto simp: tinv_def hash_ok_def)
next
  case False
  then have "setp p f s = s" by (simp add: setp_def list_update_beyond)
  then show ?thesis using inv by simp
qed

lemma tinv_make_ready:
  assumes inv: "tinv stops lay s R" and p: "p < length (procs s)" "state (procs s ! p) \<in> {SLEEPING, STOPPED, EMBRYO, RUNNING}"
  shows "tinv stops lay (make_ready p r s) (R - {p})"
proof -
  obtain Q where Q: "sinv s Q" using inv by (auto simp: tinv_def)
  have "\<exists>Q. sinv (make_ready p r s) Q"
    unfolding make_ready_def
    by (rule exI, rule make_runnable [OF Q p(1)]) (use p(2) sinvD(3,4) [OF Q p(1)] in \<open>auto simp: keeps_links_def\<close>)
  moreover have "pok stops lay i ((states s)[p := RUNNABLE] ! i) (chans s ! i)" if "i < length (procs s)" for i
    using inv that p by (auto simp: tinv_def pok_def nth_list_update)
  moreover have "tickq_ok lay (make_ready p r s)"
    by (rule tickq_ok_same [of lay s]) (use inv p(1) in \<open>auto simp: tinv_def nth_list_update split: if_splits\<close>)
  ultimately show ?thesis using inv p(1) by (auto simp: tinv_def hash_ok_def nth_list_update split: if_splits)
qed

lemma tinv_make_ready_off:
  assumes "tinv stops lay s R" "p < length (procs s)" "state (procs s ! p) \<in> {SLEEPING, STOPPED, EMBRYO}"
  shows "tinv stops lay (make_ready p r s) R"
proof -
  have "p \<notin> R" using assms by (auto simp: tinv_def nth_chans)
  then show ?thesis using tinv_make_ready [of stops lay s R p r] assms by auto
qed

subsection \<open>Every table operation keeps it\<close>

lemma tinv_len [simp]: "length (procs (setp p f s)) = length (procs s)"
  by simp

text \<open>Changes of a record that touch neither scheduling nor sleeping.\<close>

lemma keeps_fields:
  "keeps_links (\<lambda>x. x\<lparr>sig_pending := a x\<rparr>)" "keeps_links (\<lambda>x. x\<lparr>killed := b x\<rparr>)"
  "keeps_links (\<lambda>x. x\<lparr>alarm_ticks := c x, alarm_interval_ticks := d x\<rparr>)" "keeps_links (\<lambda>x. x\<lparr>alarm_ticks := c x\<rparr>)"
  "keeps_links (\<lambda>x. x\<lparr>wait_event := e x, wait_status := g x\<rparr>)" "keeps_links (\<lambda>x. x\<lparr>xstatus := h x\<rparr>)"
  "keeps_links (\<lambda>x. x\<lparr>parent := q x\<rparr>)" "keeps_links (\<lambda>x. x\<lparr>state := st\<rparr>)"
  by (simp_all add: keeps_links_def)

lemma tinv_count [simp]: "tinv stops lay (s\<lparr>active_alarm_count := n\<rparr>) R = tinv stops lay s R"
  by (simp add: tinv_def sinv_def qrep_def queue_ok_def hash_ok_def tickq_ok_def tick_rep_def chans_def states_def)

lemma tinv_alarm_state: "tinv stops lay s R \<Longrightarrow> tinv stops lay (proc_set_alarm_state p d i s) R"
  by (auto simp: proc_set_alarm_state_def Let_def intro!: tinv_setp keeps_fields)

lemma alarm_state_frame [simp]:
  "states (proc_set_alarm_state p d i s) = states s" "length (procs (proc_set_alarm_state p d i s)) = length (procs s)"
proof -
  have [simp]: "states (s\<lparr>active_alarm_count := n\<rparr>) = states s" for s :: ptable and n by (simp add: states_def)
  show "states (proc_set_alarm_state p d i s) = states s" by (simp add: proc_set_alarm_state_def Let_def)
  then show "length (procs (proc_set_alarm_state p d i s)) = length (procs s)" by (metis length_chans(2))
qed

lemma tinv_wake_if:
  assumes "tinv stops lay s R" "p < length (procs s)"
  shows "tinv stops lay (if state (procs s ! p) = SLEEPING then make_ready p r s else s) R"
    "tinv stops lay (if state (procs s ! p) = STOPPED then make_ready p r s else s) R"
  using tinv_make_ready_off [OF assms, of r] assms(1) by simp_all

lemma tinv_note_signal:
  assumes inv: "tinv stops lay s R" and p: "p < length (procs s)"
  shows "tinv stops lay (proc_note_signal_locked (Some p) signo s) R"
proof (cases "valid_signo signo")
  case True
  define s1 where "s1 = setp p (\<lambda>x. x\<lparr>sig_pending := sig_pending x OR SIGBIT (nat signo)\<rparr>) s"
  define s2 where "s2 = setp p (\<lambda>x. x\<lparr>sig_pending := sig_pending x AND NOT (SIGBIT SIGSTOP OR SIGBIT SIGTSTP)\<rparr>) s1"
  define s3 where "s3 = (if nat signo = SIGCONT then if state (procs s2 ! p) = STOPPED then make_ready p ENQ_SIGNAL s2 else s2 else s1)"
  define s4 where "s4 = (if nat signo = SIGKILL then setp p (\<lambda>x. x\<lparr>killed := True\<rparr>) s3 else s3)"
  have 1: "tinv stops lay s1 R" unfolding s1_def by (rule tinv_setp [OF inv]) (simp_all add: keeps_fields)
  have 2: "tinv stops lay s2 R" unfolding s2_def by (rule tinv_setp [OF 1]) (simp_all add: keeps_fields)
  have l: "length (procs s1) = length (procs s)" "length (procs s2) = length (procs s)" by (simp_all add: s1_def s2_def)
  have 3: "tinv stops lay s3 R" unfolding s3_def using tinv_wake_if(2) [OF 2, of p] 1 p l by simp
  have l3: "length (procs s3) = length (procs s)" by (simp add: s3_def l)
  have 4: "tinv stops lay s4 R" unfolding s4_def using 3 by (auto intro!: tinv_setp keeps_fields)
  have l4: "length (procs s4) = length (procs s)" by (simp add: s4_def l3)
  have "proc_note_signal_locked (Some p) signo s = (if state (procs s4 ! p) = SLEEPING then make_ready p ENQ_SIGNAL s4 else s4)"
    using True by (simp add: proc_note_signal_locked_def Let_def s1_def s2_def s3_def s4_def)
  then show ?thesis using tinv_wake_if(1) [OF 4, of p] p l4 by simp
next
  case False
  then show ?thesis using inv by (simp add: proc_note_signal_locked_def)
qed

lemma tinv_alarm_one:
  assumes inv: "tinv stops lay s R" and p: "p < length (procs s)"
  shows "tinv stops lay (alarm_one now p s) R \<and> length (procs (alarm_one now p s)) = length (procs s)"
proof -
  let ?x = "procs s ! p"
  define s1 where "s1 = (if alarm_interval_ticks ?x \<noteq> 0 then setp p (\<lambda>x. x\<lparr>alarm_ticks := now + alarm_interval_ticks x\<rparr>) s
    else proc_set_alarm_state p 0 0 s)"
  define s2 where "s2 = setp p (\<lambda>x. x\<lparr>sig_pending := sig_pending x OR SIGBIT SIGALRM\<rparr>) s1"
  have 1: "tinv stops lay s1 R"
    unfolding s1_def using inv by (auto intro!: tinv_setp keeps_fields tinv_alarm_state)
  have 2: "tinv stops lay s2 R" unfolding s2_def by (rule tinv_setp [OF 1]) (simp_all add: keeps_fields)
  have l: "length (procs s2) = length (procs s)" by (simp add: s1_def s2_def)
  have "alarm_one now p s = s \<or> alarm_one now p s = (if state (procs s2 ! p) = SLEEPING then make_ready p ENQ_ALARM s2 else s2)"
    by (simp add: alarm_one_def Let_def s1_def s2_def)
  then show ?thesis using tinv_wake_if(1) [OF 2, of p] p l inv by auto
qed

text \<open>A scan of the table keeps an invariant that each of its steps keeps.\<close>

lemma scan_invariant:
  assumes "P s" "\<And>p s. P s \<Longrightarrow> p < length (procs s) \<Longrightarrow> P (f p s) \<and> length (procs (f p s)) = length (procs s)"
    "n \<le> length (procs s)"
  shows "P (fold f [0..<n] s) \<and> length (procs (fold f [0..<n] s)) = length (procs s)"
  using assms(3)
proof (induction n)
  case 0
  then show ?case using assms(1) by simp
next
  case (Suc n)
  then have ih: "P (fold f [0..<n] s)" "length (procs (fold f [0..<n] s)) = length (procs s)" by simp_all
  then show ?case using assms(2) [OF ih(1), of n] Suc.prems by simp
qed

lemma tinv_check_alarms: "tinv stops lay s R \<Longrightarrow> tinv stops lay (proc_check_alarms now s) R"
  using scan_invariant [of "\<lambda>s. tinv stops lay s R" s "alarm_one now" "length (procs s)"] tinv_alarm_one
  by (auto simp: proc_check_alarms_def)

lemma tinv_wake_one:
  assumes "tinv stops lay s R" "p < length (procs s)"
  shows "tinv stops lay (wake_one ch p s) R \<and> length (procs (wake_one ch p s)) = length (procs s)"
  using tinv_make_ready_off [OF assms, of ENQ_WAKE] assms(1) by (auto simp: wake_one_def)

definition slots_ok :: "kmap \<Rightarrow> nat \<Rightarrow> bool" where
  "slots_ok lay n \<longleftrightarrow> (\<forall>ch p. slot_at lay ch = Some p \<longrightarrow> p < n)"

text \<open>A change of a process that is not runnable into another state that is not runnable.\<close>

lemma tinv_restate:
  assumes inv: "tinv stops lay s R" and p: "p < length (procs s)" "state (procs s ! p) \<noteq> RUNNABLE"
    and f: "sched_next (f (procs s ! p)) = None" "sched_prev (f (procs s ! p)) = None"
      "state (f (procs s ! p)) \<noteq> RUNNABLE" "chan (f (procs s ! p)) = chan (procs s ! p)"
      "unat (sched_q (f (procs s ! p))) < MLFQ_NQUEUES" "sched_budget_left (f (procs s ! p)) \<le> 16"
      "pok stops lay p (state (f (procs s ! p))) (chan (procs s ! p))" "state (f (procs s ! p)) \<noteq> SLEEPING"
      "on_tickq (f (procs s ! p)) = on_tickq (procs s ! p)"
      "on_tickq (procs s ! p) \<Longrightarrow> tick_next (f (procs s ! p)) = tick_next (procs s ! p)"
  shows "tinv stops lay (setp p f s) (if state (f (procs s ! p)) = RUNNING then insert p R else R - {p})"
proof -
  obtain Q where Q: "sinv s Q" using inv by (auto simp: tinv_def)
  have "sinv (setp p f s) Q"
    by (rule setp_sinv_local [OF Q]) (use sinv_unlinked [OF Q p] f p(2) in simp_all)
  moreover have ch: "chans (setp p f s) = chans s"
    using f(4) p(1) by (auto intro!: nth_equalityI simp: nth_chans nth_setp)
  moreover have st: "states (setp p f s) = (states s)[p := state (f (procs s ! p))]" by (rule states_setp)
  moreover have "tickq_ok lay (setp p f s)"
  proof (rule tickq_ok_same [of lay s])
    show "tick_same (setp p f s) s" by (rule tick_same_setp) (use f(9,10) in simp_all)
  qed (use inv f(8) ch p(1) in \<open>auto simp: tinv_def st nth_list_update split: if_splits\<close>)
  ultimately show ?thesis
    using inv p(1) f(7) by (auto simp: tinv_def hash_ok_def nth_list_update nth_chans split: if_splits)
qed

lemma boost_frame: "chans (boost_one i s) = chans s" "states (boost_one i s) = states s"
  "chan_wait_hash (boost_one i s) = chan_wait_hash s"
  by (simp_all add: boost_one_def Let_def clear_boost_flags_def)

lemma tick_same_intros:
  "tick_same u s \<Longrightarrow> tick_same (mlfq_list_append k p u) s" "tick_same u s \<Longrightarrow> tick_same (mlfq_list_remove k p u) s"
  "tick_same u s \<Longrightarrow> (\<And>x. tick_next (f x) = tick_next x \<and> on_tickq (f x) = on_tickq x) \<Longrightarrow> tick_same (setp p f u) s"
proof -
  have "tick_same (mlfq_list_append k p u) u" "tick_same (mlfq_list_remove k p u) u"
    by (rule tick_same_unlinked; simp add: frame)+
  then show "tick_same u s \<Longrightarrow> tick_same (mlfq_list_append k p u) s" "tick_same u s \<Longrightarrow> tick_same (mlfq_list_remove k p u) s"
    using tick_same_trans by blast+
  show "tick_same (setp p f u) s" if "tick_same u s" "\<And>x. tick_next (f x) = tick_next x \<and> on_tickq (f x) = on_tickq x"
    by (rule tick_same_trans [OF tick_same_setp that(1)]) (simp_all add: that(2))
qed

lemma tick_same_boost: "tick_same (boost_one i s) s"
  by (auto simp: boost_one_def Let_def clear_boost_flags_def intro!: tick_same_intros)

lemma tinv_boost_one:
  assumes inv: "tinv stops lay s R" and p: "p < length (procs s)"
  shows "tinv stops lay (boost_one p s) R \<and> length (procs (boost_one p s)) = length (procs s)"
proof -
  obtain Q where Q: "sinv s Q" using inv by (auto simp: tinv_def)
  from boost_one_sinv [OF this p] have "\<exists>Q. sinv (boost_one p s) Q" "length (procs (boost_one p s)) = length (procs s)" by auto
  moreover have "tickq_ok lay (boost_one p s)"
    by (rule tickq_ok_same [of lay s]) (use inv in \<open>simp_all add: tinv_def boost_frame tick_same_boost\<close>)
  ultimately show ?thesis using inv by (simp add: tinv_def hash_ok_def boost_frame)
qed

lemma tinv_scalars [simp]:
  "tinv stops lay (s\<lparr>mlfq_last_boost_tick := a\<rparr>) R = tinv stops lay s R"
  "tinv stops lay (s\<lparr>stat_boosts := a\<rparr>) R = tinv stops lay s R"
  "tinv stops lay (s\<lparr>stat_budget_expired := a\<rparr>) R = tinv stops lay s R"
  "tinv stops lay (s\<lparr>ticks := a\<rparr>) R = tinv stops lay s R"
  by (simp_all add: tinv_def sinv_def qrep_def queue_ok_def hash_ok_def tickq_ok_def tick_rep_def chans_def states_def)

lemma tinv_boost: "tinv stops lay s R \<Longrightarrow> tinv stops lay (mlfq_apply_global_boost now s) R"
  using scan_invariant [of "\<lambda>s. tinv stops lay s R" "s\<lparr>mlfq_last_boost_tick := now\<rparr>" boost_one "length (procs s)"] tinv_boost_one
  by (auto simp: mlfq_apply_global_boost_def Let_def)

lemma tinv_charge:
  assumes "tinv stops lay s R"
  shows "tinv stops lay (mlfq_timer_charge (Some p) s) R"
proof -
  have less: "sched_budget_left x - 1 \<le> 16" if "sched_budget_left x \<le> 16" "sched_budget_left x > 1" for x :: proc
    using that by (simp add: word_le_nat_alt word_less_nat_alt unat_sub_if')
  have budget: "tinv stops lay (setp p f t) R" if t: "tinv stops lay t R"
    and f: "keeps_links f" "\<And>x. state (f x) = state x" "\<And>x. chan (f x) = chan x" "\<And>x. sched_q (f x) = sched_q x"
      "sched_budget_left (f (procs t ! p)) \<le> 16" "\<And>x. tick_next (f x) = tick_next x" "\<And>x. on_tickq (f x) = on_tickq x" for f t
  proof (cases "p < length (procs t)")
    case True
    obtain Q where Q: "sinv t Q" using t by (auto simp: tinv_def)
    have "sinv (setp p f t) Q" by (rule setp_sinv [OF Q f(1)]) (use f sinvD(3) [OF Q True] in simp_all)
    moreover have "tickq_ok lay (setp p f t)"
      by (rule tickq_ok_same [of lay t]) (use t f in \<open>simp_all add: tinv_def tick_same_setp\<close>)
    ultimately show ?thesis using t f by (auto simp: tinv_def hash_ok_def)
  next
    case False
    then have "setp p f t = t" by (simp add: setp_def list_update_beyond)
    then show ?thesis using t by simp
  qed
  show ?thesis
  proof (cases "p < length (procs s)")
    case True
    have "sched_budget_left (procs s ! p) \<le> 16" using assms True by (auto simp: tinv_def sinv_def)
    then show ?thesis
      using less [of "procs s ! p"] assms True
      by (auto simp: mlfq_timer_charge_def Let_def nth_setp keeps_links_def intro!: budget)
  next
    case False
    then have "setp p f t = t" if "length (procs t) = length (procs s)" for f t
      using that by (simp add: setp_def list_update_beyond)
    then show ?thesis using assms by (simp add: mlfq_timer_charge_def Let_def)
  qed
qed

text \<open>The wait hash follows a process into \<open>sleep\<close> and out of it.\<close>

lemma count_update:
  assumes "i < length xs"
  shows "length (filter P (xs[i := v])) + (if P (xs ! i) then 1 else 0) =
    length (filter P xs) + (if P v then 1 else 0)"
proof -
  have xs: "xs = take i xs @ xs ! i # drop (Suc i) xs" using assms by (rule id_take_nth_drop)
  have "filter P xs = filter P (take i xs @ xs ! i # drop (Suc i) xs)" using xs by simp
  then show ?thesis using assms by (simp add: upd_conv_take_nth_drop)
qed

lemma idx_bound: "chan_wait_hash_idx ch < 256"
proof -
  have m: "(255 :: u32) = mask 8" by (simp add: mask_eq_exp_minus_1)
  show ?thesis unfolding chan_wait_hash_idx_def m by (simp add: take_bit_eq_mask [symmetric] unat_take_bit)
qed

lemma sinv_hash [simp]: "sinv (s\<lparr>chan_wait_hash := h\<rparr>) Q = sinv s Q" "procs (s\<lparr>chan_wait_hash := h\<rparr>) = procs s"
  by (simp_all add: sinv_def qrep_def queue_ok_def)

lemma unticked_views:
  assumes "length (procs t) = length (procs s)" "\<And>i. i < length (procs s) \<Longrightarrow> unticked (procs t ! i) = unticked (procs s ! i)"
  shows "chans t = chans s" "states t = states s"
  by (rule nth_equalityI, simp add: assms(1), simp add: nth_chans assms(1) unticked_fields(1,2) [OF assms(2)])+

text \<open>The entry of the clock queue: nothing but the queue changes.\<close>

lemma tick_enter:
  fixes p s defines "t \<equiv> tick_sleepq_add_locked (Some p) s"
  shows "length (procs t) = length (procs s)" "chan_wait_hash t = chan_wait_hash s" "ticks t = ticks s" "chans t = chans s"
    "states t = states s" "sinv s Q \<Longrightarrow> sinv t Q" "i < length (procs s) \<Longrightarrow> unticked (procs t ! i) = unticked (procs s ! i)"
proof -
  note f = tick_add_frame [where pp = "Some p" and s = s, folded t_def]
  show "length (procs t) = length (procs s)" "chan_wait_hash t = chan_wait_hash s" "ticks t = ticks s"
    "i < length (procs s) \<Longrightarrow> unticked (procs t ! i) = unticked (procs s ! i)" using f by simp_all
  show "chans t = chans s" "states t = states s" using unticked_views [OF f(1,5)] by simp_all
  show "sinv s Q \<Longrightarrow> sinv t Q" using unticked_sinv [OF _ f(1,2,5)] by simp
qed

lemma tick_leave:
  fixes p s defines "t \<equiv> tick_sleepq_remove_locked (Some p) s"
  shows "length (procs t) = length (procs s)" "chan_wait_hash t = chan_wait_hash s" "ticks t = ticks s" "chans t = chans s"
    "states t = states s" "sinv s Q \<Longrightarrow> sinv t Q" "i < length (procs s) \<Longrightarrow> unticked (procs t ! i) = unticked (procs s ! i)"
proof -
  note f = tick_remove_frame [where pp = "Some p" and s = s, folded t_def]
  show "length (procs t) = length (procs s)" "chan_wait_hash t = chan_wait_hash s" "ticks t = ticks s"
    "i < length (procs s) \<Longrightarrow> unticked (procs t ! i) = unticked (procs s ! i)" using f by simp_all
  show "chans t = chans s" "states t = states s" using unticked_views [OF f(1,5)] by simp_all
  show "sinv s Q \<Longrightarrow> sinv t Q" using unticked_sinv [OF _ f(1,2,5)] by simp
qed

text \<open>Entering \<open>sleep\<close>: the hash counts the channel, and a sleeper on the clock is in its queue.\<close>

lemma hash_ok_enter:
  assumes "hash_ok s" "p < length (procs s)" "chans s ! p = 0" "ch \<noteq> 0"
    "chan_wait_hash t = (chan_wait_hash s)[chan_wait_hash_idx ch := chan_wait_hash s ! chan_wait_hash_idx ch + 1]"
    "chans t = (chans s)[p := ch]"
  shows "hash_ok t"
  unfolding hash_ok_def
proof (intro conjI allI impI)
  show "length (chan_wait_hash t) = 256" using assms by (simp add: hash_ok_def)
  fix k assume k: "k < (256 :: nat)"
  let ?P = "\<lambda>c. c \<noteq> 0 \<and> chan_wait_hash_idx c = k"
  have "length (filter ?P ((chans s)[p := ch])) = length (filter ?P (chans s)) + (if chan_wait_hash_idx ch = k then 1 else 0)"
    using count_update [of p "chans s" ?P ch] assms(2-4) by simp
  then show "chan_wait_hash t ! k = of_nat (length (filter ?P (chans t)))"
    using assms(1) k idx_bound [of ch] unfolding assms(5,6) by (simp add: hash_ok_def nth_list_update)
qed

lemma tickq_ok_enter:
  assumes tq: "tickq_ok lay s" and p: "p < length (procs s)" "chans s ! p = 0" and ch: "ch \<noteq> 0"
    and u: "tick_same u s" "length (procs u) = length (procs s)"
    and t: "tick_same t (if ch = ticks_at lay then tick_sleepq_add_locked (Some p) u else u)"
      "chans t = (chans s)[p := ch]" "states t = (states s)[p := SLEEPING]"
  shows "tickq_ok lay t"
proof -
  from tq obtain T where T: "tick_rep s T" "\<forall>q < length (procs s). states s ! q = SLEEPING \<and> chans s ! q = ticks_at lay \<longrightarrow> q \<in> set T"
    "\<forall>q \<in> set T. chans s ! q = ticks_at lay \<and> chans s ! q \<noteq> 0" by (auto simp: tickq_ok_def)
  have out: "p \<notin> set T" using T(3) p(2) by auto
  have "tick_rep u T" by (rule tick_rep_same [OF u(1) T(1)])
  then have rep: "tick_rep t (if ch = ticks_at lay then p # T else T)"
    using tick_add_rep [of u T p] tick_rep_same [OF t(1)] out p(1) u(2) by (auto split: if_splits)
  have len: "length (procs t) = length (procs s)" using arg_cong [OF t(2), of length] by simp
  have mem: "\<forall>q \<in> set T. q < length (procs s)" using T(1) by (simp add: tick_rep_def)
  show ?thesis
    unfolding tickq_ok_def
  proof (intro exI conjI)
    show "tick_rep t (if ch = ticks_at lay then p # T else T)" by (rule rep)
    show "\<forall>q < length (procs t). states t ! q = SLEEPING \<and> chans t ! q = ticks_at lay \<longrightarrow> q \<in> set (if ch = ticks_at lay then p # T else T)"
      using T(2) p(1) len by (auto simp: t nth_list_update)
    show "\<forall>q \<in> set (if ch = ticks_at lay then p # T else T). chans t ! q = ticks_at lay \<and> chans t ! q \<noteq> 0"
      using T(3) p(1) out ch mem by (auto simp: t nth_list_update)
  qed
qed

lemma tinv_sleep_begin:
  assumes inv: "tinv stops lay s R" and p: "p < length (procs s)" "state (procs s ! p) = RUNNING" "chan (procs s ! p) = 0"
    and ch: "ch \<noteq> 0" "slot_at lay ch = None \<or> slot_at lay ch = Some p"
  shows "tinv stops lay (sleep_begin lay p ch s) (R - {p})"
proof -
  obtain Q where Q: "sinv s Q" using inv by (auto simp: tinv_def)
  define f where "f = (\<lambda>x :: proc. x\<lparr>chan := ch, state := SLEEPING, sched_last_block_tick := ticks s\<rparr>)"
  define u where "u = hash_inc ch s"
  define v where "v = (if ch = ticks_at lay then tick_sleepq_add_locked (Some p) u else u)"
  let ?t = "setp p f v"
  have u: "procs u = procs s" "ticks u = ticks s" "sinv u Q" "tick_same u s" "chans u = chans s" "states u = states s"
    "chan_wait_hash u = (chan_wait_hash s)[chan_wait_hash_idx ch := chan_wait_hash s ! chan_wait_hash_idx ch + 1]"
    using Q by (simp_all add: u_def hash_inc_def Let_def tick_same_def tickv_def chans_def states_def)
  have v: "length (procs v) = length (procs s)" "ticks v = ticks s" "sinv v Q" "chans v = chans s" "states v = states s"
    "chan_wait_hash v = chan_wait_hash u" "unticked (procs v ! p) = unticked (procs s ! p)"
    using tick_enter [where p = p and s = u] u p(1) by (simp_all add: v_def)
  note vp = unticked_fields [OF v(7)]
  have t: "sleep_begin lay p ch s = ?t"
    by (simp add: sleep_begin_def Let_def u_def [symmetric] v_def [symmetric] f_def v(2))
  have c: "chans ?t = (chans s)[p := ch]" "states ?t = (states s)[p := SLEEPING]"
    by (simp_all add: chans_setp states_setp f_def v)
  have "sinv ?t Q"
    by (rule setp_sinv_local [OF v(3)]) (use p vp sinvD(3,4) [OF Q p(1)] in \<open>simp_all add: f_def\<close>)
  moreover have "hash_ok ?t"
    by (rule hash_ok_enter [of s p ch]) (use inv p ch in \<open>simp_all add: tinv_def nth_chans c v u\<close>)
  moreover have "tickq_ok lay ?t"
  proof (rule tickq_ok_enter [of lay s p ch u])
    show "tick_same ?t (if ch = ticks_at lay then tick_sleepq_add_locked (Some p) u else u)"
      unfolding v_def [symmetric] by (rule tick_same_setp) (simp_all add: f_def)
  qed (use inv p ch in \<open>simp_all add: tinv_def nth_chans c u\<close>)
  ultimately show ?thesis
    using inv p(1) ch c v(1) unfolding t by (auto simp: tinv_def nth_list_update pok_def split: if_splits)
qed

text \<open>Leaving it: a count of the bucket goes down, which was not 0, and the process is in the clock queue no longer.\<close>

lemma hash_ok_leave:
  assumes ok: "hash_ok s" and p: "p < length (procs s)" "chans s ! p \<noteq> 0" and small: "length (procs s) < 2 ^ 32"
    and u: "chan_wait_hash u = chan_wait_hash s" and t: "chan_wait_hash t = chan_wait_hash (hash_dec (chans s ! p) u)" "chans t = (chans s)[p := 0]"
  shows "hash_ok t"
proof -
  let ?i = "chan_wait_hash_idx (chans s ! p)"
  let ?P = "\<lambda>k c. c \<noteq> 0 \<and> chan_wait_hash_idx c = k"
  have h: "chan_wait_hash s ! k = of_nat (length (filter (?P k) (chans s)))" if "k < 256" for k
    using ok that by (simp add: hash_ok_def)
  have cnt: "length (filter (?P k) ((chans s)[p := 0])) + (if ?i = k then 1 else 0) = length (filter (?P k) (chans s))" for k
    using count_update [of p "chans s" "?P k" 0] p by simp
  have lim: "length (filter (?P ?i) (chans s)) < 2 ^ 32"
    using length_filter_le [of "?P ?i" "chans s"] small by simp
  have "length (filter (?P ?i) (chans s)) = length (filter (?P ?i) ((chans s)[p := 0])) + 1" using cnt [of ?i] by simp
  then have "length (filter (?P ?i) (chans s)) > 0" by linarith
  then have "unat (chan_wait_hash s ! ?i) > 0"
    using h [OF idx_bound, of "chans s ! p"] lim by (simp add: unat_of_nat_len)
  then have pos: "chan_wait_hash s ! ?i > 0" by (simp add: word_less_nat_alt)
  have e: "chan_wait_hash t = (chan_wait_hash s)[?i := chan_wait_hash s ! ?i - 1]"
    using pos by (simp add: t(1) hash_dec_def Let_def u)
  show ?thesis
    unfolding hash_ok_def t(2)
  proof (intro conjI allI impI)
    show "length (chan_wait_hash t) = 256" using ok by (simp add: hash_ok_def e)
    fix k assume k: "k < (256 :: nat)"
    have "chan_wait_hash t ! k = of_nat (length (filter (?P k) (chans s))) - (if ?i = k then 1 else 0)"
      using ok k idx_bound [of "chans s ! p"] h [OF k] by (auto simp: e nth_list_update hash_ok_def)
    also have "\<dots> = of_nat (length (filter (?P k) ((chans s)[p := 0])))"
      unfolding cnt [of k, symmetric] by simp
    finally show "chan_wait_hash t ! k = of_nat (length (filter (?P k) ((chans s)[p := 0])))" .
  qed
qed

lemma tickq_ok_leave:
  assumes tq: "tickq_ok lay s" and p: "p < length (procs s)" "states s ! p \<noteq> SLEEPING"
    and t: "tick_same t (if chans s ! p = ticks_at lay then tick_sleepq_remove_locked (Some p) s else s)"
      "chans t = (chans s)[p := 0]" "states t = states s"
  shows "tickq_ok lay t"
proof -
  from tq obtain T where T: "tick_rep s T" "\<forall>q < length (procs s). states s ! q = SLEEPING \<and> chans s ! q = ticks_at lay \<longrightarrow> q \<in> set T"
    "\<forall>q \<in> set T. chans s ! q = ticks_at lay \<and> chans s ! q \<noteq> 0" by (auto simp: tickq_ok_def)
  have "chans s ! p \<noteq> ticks_at lay \<Longrightarrow> removeAll p T = T" using T(3) by (auto intro: removeAll_id)
  then have rep: "tick_rep t (removeAll p T)"
    using tick_remove_rep [OF T(1) p(1)] T(1) tick_rep_same [OF t(1)] by (auto split: if_splits)
  have len: "length (procs t) = length (procs s)" using arg_cong [OF t(2), of length] by simp
  have mem: "\<forall>q \<in> set T. q < length (procs s)" using T(1) by (simp add: tick_rep_def)
  show ?thesis
    unfolding tickq_ok_def
  proof (intro exI conjI)
    show "tick_rep t (removeAll p T)" by (rule rep)
    show "\<forall>q < length (procs t). states t ! q = SLEEPING \<and> chans t ! q = ticks_at lay \<longrightarrow> q \<in> set (removeAll p T)"
      using T(2) p len by (auto simp: t nth_list_update split: if_splits)
    show "\<forall>q \<in> set (removeAll p T). chans t ! q = ticks_at lay \<and> chans t ! q \<noteq> 0"
      using T(3) p(1) mem by (auto simp: t nth_list_update)
  qed
qed

lemma tinv_sleep_end:
  assumes inv: "tinv stops lay s R" and p: "p < length (procs s)" "state (procs s ! p) = RUNNING" "chan (procs s ! p) \<noteq> 0"
  shows "tinv stops lay (sleep_end lay p s) R"
proof -
  obtain Q where Q: "sinv s Q" using inv by (auto simp: tinv_def)
  define u where "u = (if chan (procs s ! p) = ticks_at lay then tick_sleepq_remove_locked (Some p) s else s)"
  define v where "v = hash_dec (chan (procs s ! p)) u"
  let ?t = "setp p (\<lambda>x. x\<lparr>chan := 0\<rparr>) v"
  have e: "sleep_end lay p s = ?t" by (simp add: sleep_end_def Let_def u_def v_def)
  have u: "length (procs u) = length (procs s)" "sinv u Q" "chans u = chans s" "states u = states s" "chan_wait_hash u = chan_wait_hash s"
    "unticked (procs u ! p) = unticked (procs s ! p)"
    using tick_leave [where p = p and s = s] Q p(1) by (simp_all add: u_def)
  have v: "procs v = procs u" "sinv v Q" "chans v = chans s" "states v = states s" "tick_same v u"
    using u by (simp_all add: v_def hash_dec_def Let_def tick_same_def tickv_def chans_def states_def)
  have c: "chans ?t = (chans s)[p := 0]" "states ?t = states s"
    by (simp_all add: chans_setp v)
  have ns: "states s ! p \<noteq> SLEEPING" using p by (simp add: nth_chans)
  have "sinv ?t Q"
    by (rule setp_sinv [OF v(2)])
      (use p unticked_fields [OF u(6)] sinvD(3,4) [OF Q p(1)] in \<open>simp_all add: keeps_links_def v\<close>)
  moreover have "hash_ok ?t"
    by (rule hash_ok_leave [of s p u])
      (use inv p Q u(5) c in \<open>simp_all add: tinv_def nth_chans sinv_def qrep_def v_def\<close>)
  moreover have "tickq_ok lay ?t"
  proof (rule tickq_ok_leave [of lay s p])
    have "tick_same ?t u" by (rule tick_same_trans [OF tick_same_setp v(5)]) simp_all
    then show "tick_same ?t (if chans s ! p = ticks_at lay then tick_sleepq_remove_locked (Some p) s else s)"
      using p(1) by (simp add: u_def nth_chans)
  qed (use inv p(1) ns c in \<open>simp_all add: tinv_def\<close>)
  ultimately show ?thesis
    using inv p c v(1) u(1) unfolding e by (auto simp: tinv_def nth_list_update pok_def nth_chans split: if_splits)
qed

text \<open>The wakeup of the clock empties its queue, and wakes everyone on it who sleeps.\<close>

lemma tinv_tick_remove:
  assumes inv: "tinv stops lay s R" and p: "p < length (procs s)" "\<not> (states s ! p = SLEEPING \<and> chans s ! p = ticks_at lay)"
  shows "tinv stops lay (tick_sleepq_remove_locked (Some p) s) R"
proof -
  let ?t = "tick_sleepq_remove_locked (Some p) s"
  note l = tick_leave [where p = p and s = s]
  from inv obtain T where T: "tick_rep s T" "\<forall>q < length (procs s). states s ! q = SLEEPING \<and> chans s ! q = ticks_at lay \<longrightarrow> q \<in> set T"
    "\<forall>q \<in> set T. chans s ! q = ticks_at lay \<and> chans s ! q \<noteq> 0" by (auto simp: tinv_def tickq_ok_def)
  have "tickq_ok lay ?t"
    unfolding tickq_ok_def
    by (rule exI [of _ "removeAll p T"]) (use tick_remove_rep [OF T(1) p(1)] T(2,3) p(2) in \<open>auto simp: l\<close>)
  moreover obtain Q where "sinv s Q" using inv by (auto simp: tinv_def)
  then have "sinv ?t Q" by (rule l(6))
  ultimately show ?thesis using inv by (auto simp: tinv_def hash_ok_def l)
qed

lemma tick_same_wake_one: "tick_same (wake_one ch p s) s"
  by (simp add: wake_one_def)

lemma states_wake_one: "states (wake_one ch p s) =
    (if state (procs s ! p) = SLEEPING \<and> chan (procs s ! p) = ch then (states s)[p := RUNNABLE] else states s)"
  by (simp add: wake_one_def)

lemma chans_wake_one [simp]: "chans (wake_one ch p s) = chans s" "length (procs (wake_one ch p s)) = length (procs s)"
  by (simp_all add: wake_one_def)

lemma wake_ticks_spec:
  fixes lay s T n defines "t \<equiv> wake_ticks n (ticks_at lay) (hde T None) s"
  assumes "tinv stops lay s R" "tick_rep s T" "length T \<le> n"
  shows "tinv stops lay t R \<and> length (procs t) = length (procs s) \<and> chans t = chans s \<and> tick_rep t [] \<and>
    (\<forall>q < length (procs s). states t ! q =
       (if q \<in> set T \<and> states s ! q = SLEEPING \<and> chans s ! q = ticks_at lay then RUNNABLE else states s ! q))"
  using assms(2-4) unfolding t_def
proof (induction T arbitrary: s n)
  case Nil
  then show ?case by (cases n) simp_all
next
  case (Cons p T)
  let ?ch = "ticks_at lay"
  obtain m where n: "n = Suc m" "length T \<le> m" using Cons.prems(3) by (cases n) auto
  have p: "p < length (procs s)" "p \<notin> set T" "tick_next (procs s ! p) = hde T None"
    using Cons.prems(2) by (auto simp: tick_rep_def)
  define u where "u = wake_one ?ch p s"
  define v where "v = tick_sleepq_remove_locked (Some p) u"
  note l = tick_leave [where p = p and s = u, folded v_def]
  have u: "tinv stops lay u R" "length (procs u) = length (procs s)" "chans u = chans s" "tick_rep u (p # T)"
    "states u = (if states s ! p = SLEEPING \<and> chans s ! p = ?ch then (states s)[p := RUNNABLE] else states s)"
    using tinv_wake_one [OF Cons.prems(1) p(1), of ?ch] tick_rep_same [OF tick_same_wake_one Cons.prems(2)] p(1)
    by (simp_all add: u_def states_wake_one nth_chans)
  have v: "tinv stops lay v R" unfolding v_def
    by (rule tinv_tick_remove [OF u(1)]) (use p(1) u in \<open>auto simp: nth_list_update\<close>)
  have "tick_rep v T" using tick_remove_rep [OF u(4), of p] p u(2) by (simp add: v_def)
  note ih = Cons.IH [OF v this n(2)]
  have e: "wake_ticks n ?ch (hde (p # T) None) s = wake_ticks m ?ch (hde T None) v"
    by (simp add: n(1) Let_def p(3) u_def v_def)
  show ?case unfolding e using ih p u l by (auto simp: nth_list_update)
qed

lemma tinv_wakeup1:
  assumes inv: "tinv stops lay s R" and slot: "slots_ok lay (length (procs s))"
  shows "tinv stops lay (wakeup1 lay ch s) R" "length (procs (wakeup1 lay ch s)) = length (procs s)"
    "chans (wakeup1 lay ch s) = chans s"
proof -
  have "tinv stops lay (wakeup1 lay ch s) R \<and> length (procs (wakeup1 lay ch s)) = length (procs s) \<and> chans (wakeup1 lay ch s) = chans s"
  proof (cases "ch = ticks_at lay")
    case True
    obtain T where T: "tick_rep s T" using inv by (auto simp: tinv_def tickq_ok_def)
    have h: "tick_sleepq_head s = hde T None" using T by (simp add: tick_rep_def)
    show ?thesis
      using wake_ticks_spec [OF inv T tick_rep_bound [OF T]] True by (simp add: wakeup1_def h)
  next
    case False
    have "chans (fold (wake_one ch) ps s) = chans s" for ps by (induction ps arbitrary: s) simp_all
    then show ?thesis
      using False scan_invariant [of "\<lambda>s. tinv stops lay s R" s "wake_one ch" "length (procs s)"] tinv_wake_one
        tinv_wake_one [OF inv] slot inv
      by (auto simp: wakeup1_def slots_ok_def split: option.split)
  qed
  then show "tinv stops lay (wakeup1 lay ch s) R" "length (procs (wakeup1 lay ch s)) = length (procs s)"
    "chans (wakeup1 lay ch s) = chans s" by simp_all
qed

lemma tinv_dispatch:
  assumes inv: "tinv stops lay s R" and pick: "schedq_pick_next_locked s = (Some p, t)"
  shows "tinv stops lay (setp p (\<lambda>x. x\<lparr>state := RUNNING\<rparr>) t) (insert p R)" "p < length (procs s)" "p \<notin> R"
    "length (procs t) = length (procs s)"
proof -
  obtain Q where Q: "sinv s Q" using inv by (auto simp: tinv_def)
  let ?f = "\<lambda>x. x\<lparr>state := RUNNING\<rparr>"
  note run = pick_run [OF Q pick, of ?f]
  have r: "p < length (procs s)" "state (procs s ! p) = RUNNABLE" "length (procs t) = length (procs s)"
    "\<And>i. i < length (procs s) \<Longrightarrow> unlinked (procs t ! i) = unlinked (procs s ! i)" "\<exists>Q. sinv (setp p ?f t) Q"
    using run by (auto simp: keeps_links_def)
  have fr: "chans t = chans s" "states t = states s" by (rule same_unlinked [OF r(3,4)]; simp)+
  have ht: "chan_wait_hash t = chan_wait_hash s" "tick_sleepq_head t = tick_sleepq_head s"
    "active_tick_sleepers t = active_tick_sleepers s"
    using pick_rep [OF sinvD(1) [OF Q]] pick by auto
  have "tick_same (setp p ?f t) s"
    by (rule tick_same_trans [OF tick_same_setp tick_same_unlinked [OF r(3,4) ht(2,3)]]) simp_all
  have new: "chans (setp p ?f t) = chans s" "states (setp p ?f t) = (states s)[p := RUNNING]"
    by (simp_all add: states_setp fr)
  have tq: "tickq_ok lay (setp p ?f t)"
    by (rule tickq_ok_same [of lay s, OF _ \<open>tick_same (setp p ?f t) s\<close> new(1)])
      (use inv r(1) in \<open>auto simp: tinv_def new nth_list_update split: if_splits\<close>)
  show "p \<notin> R" "p < length (procs s)" "length (procs t) = length (procs s)"
    using inv r by (auto simp: tinv_def nth_chans)
  show "tinv stops lay (setp p ?f t) (insert p R)"
    using inv r new ht tq unfolding tinv_def hash_ok_def by (auto simp: nth_list_update pok_def nth_chans split: if_splits)
qed

text \<open>Applying signals when no stop signal is deliverable: only the signal fields and the status change.\<close>

definition psched :: "proc \<Rightarrow> procstate \<times> u32 \<times> u8 \<times> u16 \<times> nat option \<times> nat option \<times> nat option \<times> bool" where
  "psched x = (state x, chan x, sched_q x, sched_budget_left x, sched_next x, sched_prev x, tick_next x, on_tickq x)"

lemma catch_fold:
  "psched (fst (fold catch_one sgs xp)) = psched (fst xp) \<and> (\<exists>m. snd (fold catch_one sgs xp) = snd xp AND m)"
proof (induction sgs arbitrary: xp)
  case Nil
  have "snd xp = snd xp AND (- 1)" by simp
  then show ?case by (metis fold_simps(1))
next
  case (Cons sg sgs)
  have step: "psched (fst (catch_one sg xp)) = psched (fst xp)" "\<exists>m. snd (catch_one sg xp) = snd xp AND m"
  proof -
    show "psched (fst (catch_one sg xp)) = psched (fst xp)"
      by (cases xp) (simp add: catch_one_def Let_def psched_def)
    show "\<exists>m. snd (catch_one sg xp) = snd xp AND m"
      by (cases xp) (auto simp: catch_one_def Let_def intro: exI [of _ "- 1"])
  qed
  obtain m where "snd (fold catch_one sgs (catch_one sg xp)) = snd (catch_one sg xp) AND m" using Cons.IH by blast
  then show ?case using Cons.IH [of "catch_one sg xp"] step by (auto simp: and.assoc)
qed

lemma tinv_apply:
  assumes inv: "tinv stops lay s R" and p: "p < length (procs s)" "state (procs s ! p) = RUNNING"
    and quiet: "deliverable (procs s ! p) AND stopset = 0"
  shows "tinv stops lay (proc_apply_pending_signals (Some p) s) R"
proof -
  obtain x pd where xp: "fold catch_one [1..<NSIG] (procs s ! p, deliverable (procs s ! p)) = (x, pd)" by fastforce
  from catch_fold [of "[1..<NSIG]" "(procs s ! p, deliverable (procs s ! p))", unfolded xp fst_conv snd_conv] obtain m where
    x: "psched x = psched (procs s ! p)" and pd: "pd = deliverable (procs s ! p) AND m" by blast
  have stop: "(pd AND NOT (SIGBIT SIGCONT)) AND stopset = 0"
  proof -
    have "(pd AND NOT (SIGBIT SIGCONT)) AND stopset = (deliverable (procs s ! p) AND stopset) AND (m AND NOT (SIGBIT SIGCONT))"
      unfolding pd by (simp add: ac_simps)
    then show ?thesis using quiet by simp
  qed
  obtain Q where Q: "sinv s Q" using inv by (auto simp: tinv_def)
  define s1 where "s1 = setp p (\<lambda>_. x) s"
  have px: "pok stops lay p RUNNING (chan (procs s ! p))" "p \<in> R"
    using inv p by (auto simp: tinv_def nth_chans)
  have "tinv stops lay s1 (insert p R)"
    using tinv_restate [OF inv p(1), of "\<lambda>_. x"] x p(2) px sinv_unlinked [OF Q p(1)] sinvD(3,4) [OF Q p(1)]
    by (simp add: s1_def psched_def)
  then have 1: "tinv stops lay s1 R" using px(2) by (simp add: insert_absorb)
  have st1: "state (procs s1 ! p) = RUNNING" "p < length (procs s1)" using x p by (simp_all add: s1_def nth_setp psched_def)
  define s2 where "s2 = (if pd AND SIGBIT SIGCONT \<noteq> 0
    then setp p (\<lambda>x. x\<lparr>sig_pending := sig_pending x AND NOT (SIGBIT SIGCONT)\<rparr>) s1 else s1)"
  have 2: "tinv stops lay s2 R" unfolding s2_def using 1 by (auto intro!: tinv_setp keeps_fields)
  have st2: "state (procs s2 ! p) = RUNNING" "p < length (procs s2)" using st1 by (simp_all add: s2_def nth_setp)
  define k where "k = signal_pick_fatal ((pd AND NOT (SIGBIT SIGCONT)) AND NOT stopset)"
  define s3 where "s3 = setp p (\<lambda>x. x\<lparr>killed := True\<rparr>) s2"
  define s4 where "s4 = (if valid_signo (int k) then setp p (\<lambda>x. x\<lparr>xstatus := WSTATUS_SIG k\<rparr>) s3 else s3)"
  have 4: "tinv stops lay s4 R" unfolding s4_def s3_def using 2 by (auto intro!: tinv_setp keeps_fields)
  have st4: "state (procs s4 ! p) = RUNNING" using st2 by (simp add: s4_def s3_def nth_setp)
  have "proc_apply_pending_signals (Some p) s =
      (if ((pd AND NOT (SIGBIT SIGCONT)) AND NOT stopset) AND fatalset \<noteq> 0
       then setp p (\<lambda>x. x\<lparr>sig_pending := sig_pending x AND NOT fatalset\<rparr>) s4 else s2)"
  proof -
    have c: "state (procs (setp p (\<lambda>x. x\<lparr>sig_pending := sig_pending x AND NOT (SIGBIT SIGCONT)\<rparr>) s1) ! p) \<noteq> STOPPED"
      using st1 by (simp add: nth_setp)
    have ns: "\<not> (pd AND NOT (SIGBIT SIGCONT)) AND stopset \<noteq> 0" using stop by simp
    show ?thesis
      unfolding proc_apply_pending_signals_def option.case xp prod.case Let_def s1_def [symmetric] if_not_P [OF c] if_not_P [OF ns]
        s2_def [symmetric] k_def [symmetric] s3_def [symmetric] s4_def [symmetric]
      using stop st4 by simp
  qed
  then show ?thesis using 2 4 by (auto intro!: tinv_setp keeps_fields)
qed

lemma tinv_off_cpu:
  assumes "tinv stops lay s R" "p < length (procs s)"
  shows "state (procs s ! p) = RUNNING \<longleftrightarrow> p \<in> R" "pok stops lay p (state (procs s ! p)) (chan (procs s ! p))"
  using assms by (auto simp: tinv_def nth_chans)

lemma tinv_quiet_links:
  assumes "tinv stops lay s R" "p < length (procs s)" "state (procs s ! p) \<noteq> RUNNABLE"
  shows "sched_next (procs s ! p) = None" "sched_prev (procs s ! p) = None"
    "unat (sched_q (procs s ! p)) < MLFQ_NQUEUES" "sched_budget_left (procs s ! p) \<le> 16"
proof -
  obtain Q where Q: "sinv s Q" using assms(1) by (auto simp: tinv_def)
  show "sched_next (procs s ! p) = None" "sched_prev (procs s ! p) = None"
    "unat (sched_q (procs s ! p)) < MLFQ_NQUEUES" "sched_budget_left (procs s ! p) \<le> 16"
    using sinv_unlinked [OF Q assms(2,3)] sinvD(3,4) [OF Q assms(2)] by simp_all
qed

lemma tinv_off_tickq:
  assumes "tinv stops lay s R" "p < length (procs s)" "chan (procs s ! p) = 0"
  shows "\<not> on_tickq (procs s ! p)"
proof -
  obtain T where T: "tick_rep s T" "\<forall>q \<in> set T. chans s ! q \<noteq> 0" using assms(1) unfolding tinv_def tickq_ok_def by blast
  then have "p \<notin> set T" using assms(2,3) nth_chans(1) [OF assms(2)] by auto
  then show ?thesis using T(1) assms(2) by (simp add: tick_rep_def)
qed

lemma tinv_embryo:
  assumes inv: "tinv stops lay s R" and p: "p < length (procs s)" "state (procs s ! p) = UNUSED"
  shows "tinv stops lay (setp p (embryo i) s) R"
proof -
  have "p \<notin> R" "chan (procs s ! p) = 0" using tinv_off_cpu [OF inv p(1)] p(2) by (auto simp: pok_def)
  then show ?thesis
    using tinv_restate [OF inv p(1), of "embryo i"] tinv_off_tickq [OF inv p(1)] p(2) by (simp add: embryo_def pok_def MLFQ_NQUEUES_def)
qed

lemma tinv_fork_ready:
  assumes inv: "tinv stops lay s R" and p: "p < length (procs s)" "state (procs s ! p) = EMBRYO"
  shows "tinv stops lay (fork_ready par p s) R"
proof -
  have off: "p \<notin> R" "chan (procs s ! p) = 0" using tinv_off_cpu [OF inv p(1)] p(2) by (auto simp: pok_def)
  then have "tinv stops lay (setp p (\<lambda>x. x\<lparr>parent := par, sched_q := 1\<rparr>) s) R"
    using tinv_restate [OF inv p(1), of "\<lambda>x. x\<lparr>parent := par, sched_q := 1\<rparr>"] tinv_quiet_links [OF inv p(1)] p(2)
    by (simp add: pok_def MLFQ_NQUEUES_def)
  then show ?thesis unfolding fork_ready_def by (rule tinv_make_ready_off) (use p in \<open>simp_all add: nth_setp\<close>)
qed

lemma tinv_adopt:
  assumes slot: "slots_ok lay n" and inv: "tinv stops lay s R \<and> length (procs s) = n"
  shows "tinv stops lay (adopt_one lay addr initp cur p s) R \<and> length (procs (adopt_one lay addr initp cur p s)) = n \<and>
    chans (adopt_one lay addr initp cur p s) = chans s"
proof -
  have "tinv stops lay (setp p (\<lambda>x. x\<lparr>parent := Some initp\<rparr>) s) R" by (rule tinv_setp) (use inv in \<open>simp_all add: keeps_fields\<close>)
  then show ?thesis using tinv_wakeup1 slot inv by (simp add: adopt_one_def Let_def)
qed

lemma tinv_exit:
  assumes inv: "tinv stops lay s R" and p: "p < length (procs s)" "p \<in> R" "chan (procs s ! p) = 0"
    and slot: "slots_ok lay (length (procs s))"
  shows "tinv stops lay (setp p (\<lambda>x. x\<lparr>xstatus := e x, state := ZOMBIE\<rparr>)
    (fold (adopt_one lay addr initp p) [0..<length (procs (wakeup1 lay ch s))] (wakeup1 lay ch s))) (R - {p})"
proof -
  let ?u = "wakeup1 lay ch s" let ?t = "fold (adopt_one lay addr initp p) [0..<length (procs s)] ?u"
  let ?I = "\<lambda>t. tinv stops lay t R \<and> length (procs t) = length (procs s) \<and> chans t = chans s"
  have u: "?I ?u" using tinv_wakeup1 [OF inv slot] by simp
  have ad: "?I (adopt_one lay addr initp p q t) \<and> length (procs (adopt_one lay addr initp p q t)) = length (procs t)" if "?I t" for q t
    using tinv_adopt [OF slot, of stops t R addr initp p q] that by simp
  have "?I ?t \<and> length (procs ?t) = length (procs ?u)"
    by (rule scan_invariant [of ?I]) (use u ad in simp_all)
  then have t: "tinv stops lay ?t R" "p < length (procs ?t)" "chans ?t = chans s" using p by simp_all
  have run: "state (procs ?t ! p) = RUNNING" using tinv_off_cpu(1) [OF t(1,2)] p(2) by simp
  have "chan (procs ?t ! p) = 0" using arg_cong [OF t(3), of "\<lambda>cs. cs ! p"] t(2) p(1,3) by (simp add: nth_chans)
  then have "tinv stops lay (setp p (\<lambda>x. x\<lparr>xstatus := e x, state := ZOMBIE\<rparr>) ?t) (R - {p})"
    using tinv_restate [OF t(1,2), of "\<lambda>x. x\<lparr>xstatus := e x, state := ZOMBIE\<rparr>"] run tinv_quiet_links [OF t(1,2)]
    by (simp add: pok_def)
  then show ?thesis using u by simp
qed

lemma tinv_wait_child:
  assumes inv: "tinv stops lay s R" and p: "p < length (procs s)" and w: "wait_child options p s = Some (r, st, t)"
  shows "tinv stops lay t R"
proof -
  have ev: "tinv stops lay (setp p (\<lambda>x. x\<lparr>wait_event := 0, wait_status := 0\<rparr>) s) R"
    by (rule tinv_setp [OF inv]) (simp_all add: keeps_fields)
  have "tinv stops lay (setp p reaped s) R" if z: "state (procs s ! p) = ZOMBIE"
  proof -
    have "p \<notin> R" "chan (procs s ! p) = 0" using tinv_off_cpu [OF inv p] z by (auto simp: pok_def)
    then show ?thesis
      using tinv_restate [OF inv p, of reaped] tinv_off_tickq [OF inv p] z by (simp add: reaped_def pok_def MLFQ_NQUEUES_def)
  qed
  then show ?thesis using w ev by (auto simp: wait_child_def Let_def split: if_splits)
qed

lemma tinv_wait_scan:
  assumes "tinv stops lay s R" "\<forall>p \<in> set ps. p < length (procs s)"
  shows "tinv stops lay (snd (wait_scan i options cur kids ps s)) R"
  using assms
proof (induction ps arbitrary: kids)
  case Nil
  then show ?case by (simp add: wait_rest_def)
next
  case (Cons p ps)
  show ?case
  proof (cases "wait_child options p s")
    case None
    then show ?thesis using Cons by simp
  next
    case (Some w)
    obtain r st t where "w = (r, st, t)" by (cases w)
    then show ?thesis using Cons Some tinv_wait_child [of stops lay s R p options r st t] by simp
  qed
qed

lemma tinv_waitpid:
  assumes inv: "tinv stops lay s R"
  shows "tinv stops lay (snd (waitpid_round i options cur s)) R"
proof -
  have "tinv stops lay (snd (wait_for_pid i options cur s)) R"
  proof (cases "first_index (\<lambda>x. pid x = i) (procs s)")
    case None
    then show ?thesis unfolding wait_for_pid_def None using inv by (simp add: wait_rest_def)
  next
    case (Some p)
    then have p: "p < length (procs s)" using first_index_SomeD by fastforce
    show ?thesis unfolding wait_for_pid_def Some
      using inv tinv_wait_child [OF inv p, of options] by (auto simp: wait_rest_def split: option.split)
  qed
  then show ?thesis
    using inv tinv_wait_scan [OF inv, of "[0..<length (procs s)]"] by (simp add: waitpid_round_def)
qed

subsection \<open>The system\<close>

definition on_cpu :: "procsys \<Rightarrow> nat set" where
  "on_cpu S = {p. Some p \<in> set (cpu_proc S)}"

text \<open>A CPU runs a process that is not inside \<open>sleep\<close>.\<close>

definition runs :: "procsys \<Rightarrow> nat \<Rightarrow> nat \<Rightarrow> bool" where
  "runs S c p \<longleftrightarrow> c < length (cpu_proc S) \<and> cpu_proc S ! c = Some p \<and> chan (procs (tbl S) ! p) = 0"

text \<open>
  The steps of the system: what a CPU with no process does, what a running process does to itself, and what interrupts
  and other processes do to the table. A process sleeps on the address of a process slot only if it is its own
  (as \<open>proc_waitpid\<close> does). With \<open>stops\<close> false, no process has a deliverable stop signal when its signals are applied.
\<close>

inductive proc_step :: "bool \<Rightarrow> kmap \<Rightarrow> (nat \<Rightarrow> u32) \<Rightarrow> nat \<Rightarrow> procsys \<Rightarrow> procsys \<Rightarrow> bool"
  for stops lay addr initp where
  st_dispatch: "c < length (cpu_proc S) \<Longrightarrow> cpu_proc S ! c = None \<Longrightarrow> proc_step stops lay addr initp S (dispatch c S)"
| st_yield: "runs S c p \<Longrightarrow> proc_step stops lay addr initp S (yield c S)"
| st_sleep: "runs S c p \<Longrightarrow> ch \<noteq> 0 \<Longrightarrow> slot_at lay ch = None \<or> slot_at lay ch = Some p \<Longrightarrow> sleep lay c ch S = Ok T \<Longrightarrow> proc_step stops lay addr initp S T"
| st_resume: "c < length (cpu_proc S) \<Longrightarrow> cpu_proc S ! c = Some p \<Longrightarrow> chan (procs (tbl S) ! p) \<noteq> 0 \<Longrightarrow>
    proc_step stops lay addr initp S (S\<lparr>tbl := sleep_end lay p (tbl S)\<rparr>)"
| st_wakeup: "proc_step stops lay addr initp S (S\<lparr>tbl := wakeup1 lay ch (tbl S)\<rparr>)"
| st_charge: "c < length (cpu_proc S) \<Longrightarrow> cpu_proc S ! c = Some p \<Longrightarrow> proc_step stops lay addr initp S (S\<lparr>tbl := mlfq_timer_charge (Some p) (tbl S)\<rparr>)"
| st_boost: "proc_step stops lay addr initp S (S\<lparr>tbl := mlfq_apply_global_boost now (tbl S)\<rparr>)"
| st_tick: "proc_step stops lay addr initp S (S\<lparr>tbl := (tbl S)\<lparr>ticks := ticks (tbl S) + 1\<rparr>\<rparr>)"
| st_alarms: "proc_step stops lay addr initp S (S\<lparr>tbl := proc_check_alarms now (tbl S)\<rparr>)"
| st_set_alarm: "runs S c p \<Longrightarrow> proc_step stops lay addr initp S (S\<lparr>tbl := proc_set_alarm_state p d i (tbl S)\<rparr>)"
| st_signal: "p < length (procs (tbl S)) \<Longrightarrow> proc_step stops lay addr initp S (S\<lparr>tbl := proc_note_signal_locked (Some p) signo (tbl S)\<rparr>)"
| st_apply: "runs S c p \<Longrightarrow> stops \<or> deliverable (procs (tbl S) ! p) AND stopset = 0 \<Longrightarrow>
    proc_step stops lay addr initp S (S\<lparr>tbl := proc_apply_pending_signals (Some p) (tbl S)\<rparr>)"
| st_stop: "runs S c p \<Longrightarrow> proc_step stops lay addr initp S (proc_maybe_stop_current c S)"
| st_alloc: "allocproc S = Ok (r, T) \<Longrightarrow> proc_step stops lay addr initp S T"
| st_fork: "p < length (procs (tbl S)) \<Longrightarrow> state (procs (tbl S) ! p) = EMBRYO \<Longrightarrow> proc_step stops lay addr initp S (S\<lparr>tbl := fork_ready par p (tbl S)\<rparr>)"
| st_exit: "runs S c p \<Longrightarrow> exit_proc lay addr initp code c S = Ok T \<Longrightarrow> proc_step stops lay addr initp S T"
| st_wait: "runs S c p \<Longrightarrow> proc_step stops lay addr initp S (S\<lparr>tbl := snd (waitpid_round i options p (tbl S))\<rparr>)"

definition pinv :: "bool \<Rightarrow> kmap \<Rightarrow> procsys \<Rightarrow> bool" where
  "pinv stops lay S \<longleftrightarrow> tinv stops lay (tbl S) (on_cpu S) \<and> slots_ok lay (length (procs (tbl S))) \<and>
     (\<forall>p \<in> on_cpu S. p < length (procs (tbl S))) \<and>
     (\<forall>c < length (cpu_proc S). \<forall>d < length (cpu_proc S). \<forall>p. cpu_proc S ! c = Some p \<longrightarrow> cpu_proc S ! d = Some p \<longrightarrow> c = d)"

lemma on_cpu_tbl [simp]: "on_cpu (S\<lparr>tbl := t\<rparr>) = on_cpu S" "on_cpu (S\<lparr>tbl := t, nextpid := n\<rparr>) = on_cpu S"
  by (simp_all add: on_cpu_def)

lemma tinv_length: "tinv stops lay s R \<Longrightarrow> length (states s) = length (procs s)"
  by simp

text \<open>A step that changes the table only.\<close>

lemma pinv_tbl:
  assumes "pinv stops lay S" "tinv stops lay t (on_cpu S)" "length (procs t) = length (procs (tbl S))"
  shows "pinv stops lay (S\<lparr>tbl := t\<rparr>)" "pinv stops lay (S\<lparr>tbl := t, nextpid := n\<rparr>)"
  using assms by (simp_all add: pinv_def)

text \<open>A CPU gives up its process.\<close>

lemma pinv_off:
  assumes inv: "pinv stops lay S" and c: "c < length (cpu_proc S)" "cpu_proc S ! c = Some p"
    and t: "tinv stops lay t (on_cpu S - {p})" "length (procs t) = length (procs (tbl S))"
  shows "pinv stops lay (S\<lparr>tbl := t, cpu_proc := (cpu_proc S)[c := None]\<rparr>)"
proof -
  let ?T = "S\<lparr>tbl := t, cpu_proc := (cpu_proc S)[c := None]\<rparr>"
  have "on_cpu ?T = on_cpu S - {p}"
  proof (rule set_eqI)
    fix q
    have "Some q \<in> set ((cpu_proc S)[c := None]) \<longleftrightarrow> (\<exists>d < length (cpu_proc S). d \<noteq> c \<and> cpu_proc S ! d = Some q)"
      using c(1) by (auto simp: in_set_conv_nth nth_list_update)
    also have "\<dots> \<longleftrightarrow> Some q \<in> set (cpu_proc S) \<and> q \<noteq> p"
      using inv c unfolding pinv_def in_set_conv_nth by (metis option.inject)
    finally show "q \<in> on_cpu ?T \<longleftrightarrow> q \<in> on_cpu S - {p}" by (simp add: on_cpu_def)
  qed
  then show ?thesis using inv t c(1) unfolding pinv_def by (auto simp: nth_list_update)
qed

text \<open>An idle CPU takes a process.\<close>

lemma pinv_on:
  assumes inv: "pinv stops lay S" and c: "c < length (cpu_proc S)" "cpu_proc S ! c = None"
    and t: "tinv stops lay t (insert p (on_cpu S))" "length (procs t) = length (procs (tbl S))"
      "p \<notin> on_cpu S" "p < length (procs t)"
  shows "pinv stops lay (S\<lparr>tbl := t, cpu_proc := (cpu_proc S)[c := Some p]\<rparr>)"
proof -
  let ?T = "S\<lparr>tbl := t, cpu_proc := (cpu_proc S)[c := Some p]\<rparr>"
  have "on_cpu ?T = insert p (on_cpu S)"
  proof (rule set_eqI)
    fix q
    have "Some q \<in> set ((cpu_proc S)[c := Some p]) \<longleftrightarrow> q = p \<or> (\<exists>d < length (cpu_proc S). d \<noteq> c \<and> cpu_proc S ! d = Some q)"
      using c(1) by (auto simp: in_set_conv_nth nth_list_update)
    also have "\<dots> \<longleftrightarrow> q = p \<or> Some q \<in> set (cpu_proc S)"
      using c unfolding in_set_conv_nth by (metis option.distinct(1))
    finally show "q \<in> on_cpu ?T \<longleftrightarrow> q \<in> insert p (on_cpu S)" by (simp add: on_cpu_def)
  qed
  moreover have "cpu_proc S ! d \<noteq> Some p" if "d < length (cpu_proc S)" for d
    using t(3) that by (metis mem_Collect_eq nth_mem on_cpu_def)
  ultimately show ?thesis using inv t c unfolding pinv_def by (auto simp: nth_list_update)
qed

lemma runs_on:
  assumes "pinv stops lay S" "c < length (cpu_proc S)" "cpu_proc S ! c = Some p"
  shows "p \<in> on_cpu S" "p < length (procs (tbl S))" "state (procs (tbl S) ! p) = RUNNING"
proof -
  show on: "p \<in> on_cpu S" using assms(2,3) nth_mem by (fastforce simp: on_cpu_def)
  show l: "p < length (procs (tbl S))" using on assms(1) by (simp add: pinv_def)
  show "state (procs (tbl S) ! p) = RUNNING" using tinv_off_cpu(1) [of stops lay "tbl S" "on_cpu S" p] on l assms(1) by (simp add: pinv_def)
qed

lemma length_ops [simp]:
  "length (procs (sleep_begin lay p ch s)) = length (procs s)" "length (procs (sleep_end lay p s)) = length (procs s)"
  "length (procs (mlfq_timer_charge (Some p) s)) = length (procs s)"
  "length (procs (fork_ready par p s)) = length (procs s)"
  "length (procs (proc_note_signal_locked (Some p) signo s)) = length (procs s)"
  by (simp_all add: sleep_begin_def sleep_end_def hash_inc_def hash_dec_def Let_def mlfq_timer_charge_def fork_ready_def
      proc_note_signal_locked_def tick_enter tick_leave)

lemma length_apply [simp]: "length (procs (proc_apply_pending_signals (Some p) s)) = length (procs s)"
proof -
  obtain x pd where xp: "fold catch_one [1..<NSIG] (procs s ! p, deliverable (procs s ! p)) = (x, pd)" by fastforce
  show ?thesis unfolding proc_apply_pending_signals_def option.case xp prod.case Let_def by simp
qed

lemma length_scans:
  assumes "tinv stops lay s R"
  shows "length (procs (mlfq_apply_global_boost now s)) = length (procs s)"
    "length (procs (proc_check_alarms now s)) = length (procs s)"
  using scan_invariant [of "\<lambda>s. tinv stops lay s R" "s\<lparr>mlfq_last_boost_tick := now\<rparr>" boost_one "length (procs s)"] tinv_boost_one
    scan_invariant [of "\<lambda>s. tinv stops lay s R" s "alarm_one now" "length (procs s)"] tinv_alarm_one assms
  by (auto simp: mlfq_apply_global_boost_def proc_check_alarms_def Let_def)

lemma length_wait_child: "wait_child options p s = Some (r, st, t) \<Longrightarrow> length (procs t) = length (procs s)"
  by (auto simp: wait_child_def Let_def split: if_splits)

lemma length_wait_scan: "length (procs (snd (wait_scan i options cur kids ps s))) = length (procs s)"
  by (induction ps arbitrary: kids) (auto simp: wait_rest_def split: option.split dest: length_wait_child)

lemma length_waitpid: "length (procs (snd (waitpid_round i options cur s))) = length (procs s)"
  by (auto simp: waitpid_round_def wait_for_pid_def wait_rest_def length_wait_scan split: option.split dest: length_wait_child)

lemma length_adopt:
  assumes "tinv stops lay s R" "slots_ok lay (length (procs s))"
  shows "length (procs (fold (adopt_one lay addr initp p) [0..<length (procs s)] s)) = length (procs s)"
proof -
  let ?I = "\<lambda>t. tinv stops lay t R \<and> length (procs t) = length (procs s)"
  have ad: "?I (adopt_one lay addr initp p q t) \<and> length (procs (adopt_one lay addr initp p q t)) = length (procs t)" if "?I t" for q t
    using tinv_adopt [OF assms(2), of stops t R addr initp p q] that by simp
  have "?I (fold (adopt_one lay addr initp p) [0..<length (procs s)] s) \<and>
    length (procs (fold (adopt_one lay addr initp p) [0..<length (procs s)] s)) = length (procs s)"
    by (rule scan_invariant [of ?I]) (use assms(1) ad in simp_all)
  then show ?thesis by simp
qed

text \<open>Every step keeps the invariant while no stop signal is applied.\<close>

lemma pinv_step:
  assumes "proc_step False lay addr initp S T" "pinv False lay S"
  shows "pinv False lay T"
  using assms
proof (cases rule: proc_step.cases)
  case (st_dispatch c)
  have inv: "tinv False lay (tbl S) (on_cpu S)" using assms(2) by (simp add: pinv_def)
  show ?thesis
  proof (cases "schedq_pick_next_locked (tbl S)")
    case (Pair r t)
    show ?thesis
    proof (cases r)
      case None
      obtain Q where "sinv (tbl S) Q" using inv by (auto simp: tinv_def)
      then have "t = tbl S" using pick_rep [OF sinvD(1)] Pair None by fastforce
      then show ?thesis using st_dispatch Pair None assms(2) by (simp add: dispatch_def)
    next
      case (Some p)
      note d = tinv_dispatch [OF inv Pair [unfolded Some]]
      show ?thesis
        using pinv_on [OF assms(2) st_dispatch(2,3) d(1)] d(2-4) st_dispatch Pair Some by (simp add: dispatch_def)
    qed
  qed
next
  case (st_yield c p)
  have r: "c < length (cpu_proc S)" "cpu_proc S ! c = Some p" using st_yield by (auto simp: runs_def)
  note on = runs_on [OF assms(2) r]
  have "tinv False lay (make_ready p ENQ_YIELD (tbl S)) (on_cpu S - {p})"
    by (rule tinv_make_ready) (use assms(2) on in \<open>simp_all add: pinv_def\<close>)
  then show ?thesis using pinv_off [OF assms(2) r] st_yield(1) r by (simp add: yield_def)
next
  case (st_sleep c p ch)
  have r: "c < length (cpu_proc S)" "cpu_proc S ! c = Some p" "chan (procs (tbl S) ! p) = 0" using st_sleep by (auto simp: runs_def)
  note on = runs_on [OF assms(2) r(1,2)]
  have "tinv False lay (sleep_begin lay p ch (tbl S)) (on_cpu S - {p})"
    by (rule tinv_sleep_begin) (use assms(2) on r(3) st_sleep in \<open>simp_all add: pinv_def\<close>)
  then show ?thesis using pinv_off [OF assms(2) r(1,2)] st_sleep(4) r by (auto simp: sleep_def)
next
  case (st_resume c p)
  note on = runs_on [OF assms(2) st_resume(2,3)]
  have "tinv False lay (sleep_end lay p (tbl S)) (on_cpu S)"
    by (rule tinv_sleep_end) (use assms(2) on st_resume in \<open>simp_all add: pinv_def\<close>)
  then show ?thesis using pinv_tbl(1) [OF assms(2)] st_resume by simp
next
  case (st_wakeup ch)
  then show ?thesis using pinv_tbl(1) [OF assms(2)] tinv_wakeup1 [of False lay "tbl S" "on_cpu S" ch] assms(2) by (simp add: pinv_def)
next
  case (st_charge c p)
  then show ?thesis using pinv_tbl(1) [OF assms(2)] tinv_charge assms(2) by (simp add: pinv_def)
next
  case (st_boost now)
  then show ?thesis
    using pinv_tbl(1) [OF assms(2) tinv_boost length_scans(1)] assms(2) by (auto simp: pinv_def)
next
  case st_tick
  then show ?thesis using pinv_tbl(1) [OF assms(2)] assms(2) by (simp add: pinv_def)
next
  case (st_alarms now)
  then show ?thesis
    using pinv_tbl(1) [OF assms(2) tinv_check_alarms length_scans(2)] assms(2) by (auto simp: pinv_def)
next
  case (st_set_alarm c p d i)
  then show ?thesis using pinv_tbl(1) [OF assms(2) tinv_alarm_state] assms(2) by (auto simp: pinv_def)
next
  case (st_signal p signo)
  then show ?thesis using pinv_tbl(1) [OF assms(2) tinv_note_signal] assms(2) by (auto simp: pinv_def)
next
  case (st_apply c p)
  have r: "c < length (cpu_proc S)" "cpu_proc S ! c = Some p" using st_apply by (auto simp: runs_def)
  note on = runs_on [OF assms(2) r]
  have "tinv False lay (proc_apply_pending_signals (Some p) (tbl S)) (on_cpu S)"
    by (rule tinv_apply) (use assms(2) on st_apply in \<open>simp_all add: pinv_def\<close>)
  then show ?thesis using pinv_tbl(1) [OF assms(2)] st_apply by simp
next
  case (st_stop c p)
  have r: "c < length (cpu_proc S)" "cpu_proc S ! c = Some p" using st_stop by (auto simp: runs_def)
  show ?thesis using runs_on [OF assms(2) r] st_stop r assms(2) by (simp add: proc_maybe_stop_current_def)
next
  case (st_alloc r)
  show ?thesis
  proof (cases "first_index (\<lambda>x. state x = UNUSED) (procs (tbl S))")
    case None
    then show ?thesis using st_alloc assms(2) unfolding allocproc_def None by simp
  next
    case (Some p)
    have p: "p < length (procs (tbl S))" "state (procs (tbl S) ! p) = UNUSED" using first_index_SomeD [OF Some] by simp_all
    have "tinv False lay (setp p (embryo i) (tbl S)) (on_cpu S)" for i
      by (rule tinv_embryo [OF _ p]) (use assms(2) in \<open>simp add: pinv_def\<close>)
    then show ?thesis using st_alloc pinv_tbl(2) [OF assms(2)] unfolding allocproc_def Some by (auto split: option.splits)
  qed
next
  case (st_fork p par)
  then show ?thesis using pinv_tbl(1) [OF assms(2) tinv_fork_ready] assms(2) by (auto simp: pinv_def)
next
  case (st_exit c p code)
  have r: "c < length (cpu_proc S)" "cpu_proc S ! c = Some p" "chan (procs (tbl S) ! p) = 0" using st_exit by (auto simp: runs_def)
  note on = runs_on [OF assms(2) r(1,2)]
  define ch where "ch = addr_of addr (parent (procs (tbl S) ! p))"
  have inv: "tinv False lay (tbl S) (on_cpu S)" "slots_ok lay (length (procs (tbl S)))" using assms(2) by (simp_all add: pinv_def)
  have w: "tinv False lay (wakeup1 lay ch (tbl S)) (on_cpu S)" "length (procs (wakeup1 lay ch (tbl S))) = length (procs (tbl S))"
    using tinv_wakeup1 [OF inv] by simp_all
  note ex = tinv_exit [OF inv(1) on(2,1) r(3) inv(2), where addr = addr and initp = initp and ch = ch and e = "\<lambda>x. exit_status (xstatus x) code"]
  show ?thesis
    using pinv_off [OF assms(2) r(1,2) ex] length_adopt [OF w(1), of addr initp p] w inv(2) st_exit(2) r
    by (auto simp: exit_proc_def Let_def ch_def split: if_splits)
next
  case (st_wait c p i options)
  then show ?thesis using pinv_tbl(1) [OF assms(2) tinv_waitpid length_waitpid] assms(2) by (auto simp: pinv_def)
qed

subsection \<open>The properties\<close>

text \<open>The table at boot: all slots free, all CPUs idle.\<close>

definition unused_proc :: proc where
  "unused_proc = \<lparr>state = UNUSED, pid = 0, pgid = 0, parent = None, chan = 0, killed = False, xstatus = 0, wait_event = 0,
     wait_status = 0, sig_pending = 0, sig_caught = 0, sig_mask = 0, sig_ignored = 0, sig_handler = replicate NSIG 0,
     alarm_ticks = 0, alarm_interval_ticks = 0, sched_q = 0, sched_flags = 0, sched_budget_left = 0, sched_enq_tick = 0,
     sched_last_block_tick = 0, sched_last_wake_tick = 0, sched_next = None, sched_prev = None,
     tick_next = None, on_tickq = False\<rparr>"

definition boot_table :: "proc list \<Rightarrow> ptable" where
  "boot_table ps = \<lparr>procs = ps, mlfq_qs = replicate 5 \<lparr>qhead = None, qtail = None, qcount = 0\<rparr>,
     mlfq_last_boost_tick = 0, mlfq_boost_interval_ticks = 200, stat_promotions = 0, stat_demotions = 0, stat_boosts = 0,
     stat_budget_expired = 0, ticks = 0, active_alarm_count = 0, chan_wait_hash = replicate 256 0,
     tick_sleepq_head = None, active_tick_sleepers = 0\<rparr>"

definition boot :: "nat \<Rightarrow> nat \<Rightarrow> procsys" where
  "boot n ncpu = \<lparr>tbl = boot_table (replicate n unused_proc), cpu_proc = replicate ncpu None, nextpid = 1\<rparr>"

lemma boot_table_tinv:
  assumes len: "length ps < 2 ^ 32"
    and ps: "\<And>p. p < length ps \<Longrightarrow> state (ps ! p) \<noteq> RUNNABLE \<and> chan (ps ! p) = 0 \<and> sched_next (ps ! p) = None \<and> sched_prev (ps ! p) = None \<and>
      unat (sched_q (ps ! p)) < MLFQ_NQUEUES \<and> sched_budget_left (ps ! p) \<le> 16 \<and> (state (ps ! p) = RUNNING \<longleftrightarrow> p \<in> R) \<and>
      state (ps ! p) \<noteq> SLEEPING \<and> (state (ps ! p) = STOPPED \<longrightarrow> stops) \<and> \<not> on_tickq (ps ! p)"
  shows "tinv stops lay (boot_table ps) R"
proof -
  have "sinv (boot_table ps) (\<lambda>_. [])"
    using ps len by (simp add: sinv_def qrep_def queue_ok_def queued_def boot_table_def MLFQ_NQUEUES_def)
  moreover have c: "chans (boot_table ps) = replicate (length ps) 0"
    by (rule nth_equalityI) (simp_all add: chans_def boot_table_def ps)
  moreover have "tickq_ok lay (boot_table ps)"
    unfolding tickq_ok_def by (rule exI [of _ "[]"]) (use ps in \<open>auto simp: tick_rep_def nth_chans\<close>, auto simp: boot_table_def)
  moreover from c have "hash_ok (boot_table ps)" by (simp add: hash_ok_def) (simp add: boot_table_def)
  ultimately show ?thesis using ps by (auto simp: tinv_def nth_chans pok_def) (auto simp: boot_table_def)
qed

lemma boot_pinv: "n < 2 ^ 32 \<Longrightarrow> slots_ok lay n \<Longrightarrow> pinv False lay (boot n ncpu)"
  using boot_table_tinv [of "replicate n unused_proc" "{}" False lay]
  by (auto simp: pinv_def boot_def on_cpu_def unused_proc_def MLFQ_NQUEUES_def boot_table_def)

text \<open>
  Claim C2. From boot on, under every interleaving of dispatches, yields, sleeps, wakeups, timer work, signals,
  alarms, forks, exits and waits in which no stop signal is applied, a process runs on at most one CPU, a process on a CPU is
  in no run queue, and the run queues hold exactly the runnable processes, each once.
\<close>

theorem proc_run_once:
  assumes "(proc_step False lay addr initp)\<^sup>*\<^sup>* (boot n ncpu) S" "n < 2 ^ 32" "slots_ok lay n"
  shows "(\<forall>c < length (cpu_proc S). \<forall>d < length (cpu_proc S). \<forall>p. cpu_proc S ! c = Some p \<longrightarrow> cpu_proc S ! d = Some p \<longrightarrow> c = d) \<and>
    (\<exists>Q. qrep (tbl S) Q \<and> (\<forall>p < length (procs (tbl S)). state (procs (tbl S) ! p) = RUNNABLE \<longleftrightarrow> p \<in> queued Q) \<and>
      (\<forall>p. Some p \<in> set (cpu_proc S) \<longrightarrow> state (procs (tbl S) ! p) = RUNNING \<and> p \<notin> queued Q))"
proof -
  from assms(1) have inv: "pinv False lay S"
    by (induction rule: rtranclp_induct) (auto intro: boot_pinv pinv_step assms(2,3))
  then obtain Q where Q: "sinv (tbl S) Q" by (auto simp: pinv_def tinv_def)
  have "state (procs (tbl S) ! p) = RUNNING \<and> p \<notin> queued Q" if "Some p \<in> set (cpu_proc S)" for p
  proof -
    obtain c where "c < length (cpu_proc S)" "cpu_proc S ! c = Some p" using \<open>Some p \<in> set (cpu_proc S)\<close> by (metis in_set_conv_nth)
    from runs_on [OF inv this] show ?thesis using sinvD(2) [OF Q, of p] by simp
  qed
  then show ?thesis using inv Q sinvD [OF Q] unfolding pinv_def by blast
qed

text \<open>A short run of a machine with one process slot and two CPUs: the first process is allocated, made ready and dispatched.\<close>

definition first_ready :: procsys where
  "first_ready = (let S = boot 1 2; T = S\<lparr>tbl := setp 0 (embryo 1) (tbl S), nextpid := 2\<rparr>
     in T\<lparr>tbl := fork_ready None 0 (tbl T)\<rparr>)"

definition first_up :: procsys where
  "first_up = dispatch 0 first_ready"

definition some_map :: kmap where
  "some_map = \<lparr>slot_at = \<lambda>_. None, ticks_at = 0x8000\<rparr>"

lemma first_alloc:
  "allocproc (boot 1 2) = Ok (Some 0, (boot 1 2)\<lparr>tbl := setp 0 (embryo 1) (tbl (boot 1 2)), nextpid := 2\<rparr>)"
proof -
  have ps: "procs (tbl (boot 1 2)) = [unused_proc]" "nextpid (boot 1 2) = 1" by (simp_all add: boot_def boot_table_def)
  have i: "first_index (\<lambda>x. state x = UNUSED) [unused_proc] = Some 0" by (simp add: unused_proc_def)
  have n: "nat PID_MAX = Suc 32766" by (simp add: PID_MAX_def)
  have "find_pid (nat PID_MAX) 0 [unused_proc] 1 = Some (1, 2)" unfolding n find_pid.simps(2) by (simp add: Let_def PID_MAX_def)
  then show ?thesis unfolding allocproc_def ps i by simp
qed

lemma first_eval:
  "cpu_proc first_ready = [None, None]" "cpu_proc first_up = [Some 0, None]" "length (procs (tbl first_up)) = 1"
  "state (procs (tbl first_up) ! 0) = RUNNING" "chan (procs (tbl first_up) ! 0) = 0"
  by code_simp+

lemma first_reach: "(proc_step stops lay addr initp)\<^sup>*\<^sup>* (boot 1 2) first_up"
proof -
  let ?T = "(boot 1 2)\<lparr>tbl := setp 0 (embryo 1) (tbl (boot 1 2)), nextpid := 2\<rparr>"
  have "proc_step stops lay addr initp (boot 1 2) ?T" by (rule st_alloc [OF first_alloc])
  moreover have "proc_step stops lay addr initp ?T first_ready"
    unfolding first_ready_def Let_def by (rule st_fork) code_simp+
  moreover have "proc_step stops lay addr initp first_ready first_up"
    unfolding first_up_def by (rule st_dispatch) (simp_all add: first_eval)
  ultimately show ?thesis by (meson converse_rtranclp_into_rtranclp rtranclp.rtrancl_refl)
qed

lemma some_map_slots: "slots_ok some_map n"
  by (simp add: slots_ok_def some_map_def)

theorem proc_run_once_witness:
  "\<exists>S. (proc_step False some_map (\<lambda>_. 0) 0)\<^sup>*\<^sup>* (boot 1 2) S \<and> cpu_proc S = [Some 0, None] \<and>
     state (procs (tbl S) ! 0) = RUNNING \<and> (\<exists>Q. qrep (tbl S) Q \<and> 0 \<notin> queued Q)"
  using proc_run_once [OF first_reach [of False some_map "\<lambda>_. 0" 0] _ some_map_slots] first_reach [of False some_map "\<lambda>_. 0" 0]
  by (intro exI [of _ first_up]) (auto simp: first_eval)

text \<open>
  A process that CPU \<open>c\<close> runs while it stands in a run queue: an idle CPU that finds no other process to run takes it too.
\<close>

definition doubly_bound :: "nat \<Rightarrow> nat \<Rightarrow> procsys \<Rightarrow> bool" where
  "doubly_bound c p T \<longleftrightarrow> cpu_proc T ! c = Some p \<and> (\<exists>Q. qrep (tbl T) Q \<and> p \<in> queued Q) \<and>
     (\<forall>d < length (cpu_proc T). cpu_proc T ! d = None \<longrightarrow>
        (\<forall>q < length (procs (tbl T)). q \<noteq> p \<longrightarrow> state (procs (tbl T) ! q) \<noteq> RUNNABLE) \<longrightarrow>
        cpu_proc (dispatch d T) ! c = Some p \<and> cpu_proc (dispatch d T) ! d = Some p)"

lemma doubly_boundI:
  assumes inv: "tinv stops lay (tbl T) R" and p: "p < length (procs (tbl T))" "state (procs (tbl T) ! p) = RUNNABLE"
    and c: "cpu_proc T ! c = Some p"
  shows "doubly_bound c p T"
proof -
  obtain Q where Q: "sinv (tbl T) Q" using inv by (auto simp: tinv_def)
  have q: "p \<in> queued Q" using sinvD(2) [OF Q p(1)] p(2) by simp
  have "cpu_proc (dispatch d T) ! c = Some p \<and> cpu_proc (dispatch d T) ! d = Some p"
    if d: "d < length (cpu_proc T)" "cpu_proc T ! d = None"
      and alone: "\<forall>q < length (procs (tbl T)). q \<noteq> p \<longrightarrow> state (procs (tbl T) ! q) \<noteq> RUNNABLE" for d
  proof -
    from pick_rep [OF sinvD(1) [OF Q]] q obtain k r xs where
      r: "k < MLFQ_NQUEUES" "Q k = r # xs" "schedq_pick_next_locked (tbl T) = (Some r, mlfq_list_remove k r (tbl T))" by blast
    have "r \<in> queued Q" using r(1,2) by (intro queuedI [of k]) simp_all
    moreover have "r < length (procs (tbl T))" using r(1,2) sinvD(1) [OF Q] by (auto simp: qrep_def)
    ultimately have "r = p" using alone sinvD(2) [OF Q] by blast
    moreover have "d \<noteq> c" using c d(2) by auto
    ultimately show ?thesis using c d r(3) by (simp add: dispatch_def)
  qed
  then show ?thesis using c q sinvD(1) [OF Q] by (auto simp: doubly_bound_def)
qed

text \<open>A running process without handlers to which a stop signal is deliverable.\<close>

lemma no_handlers:
  assumes "\<forall>sg \<in> {1..<NSIG}. sig_handler x ! sg \<le> 1" "set sgs \<subseteq> {1..<NSIG}"
  shows "fold catch_one sgs (x, pd) = (x, pd)"
  using assms(2)
proof (induction sgs)
  case (Cons sg sgs)
  then have "sig_handler x ! sg \<le> 1" using assms(1) by auto
  then have "\<not> 1 < sig_handler x ! sg" by simp
  then have "catch_one sg (x, pd) = (x, pd)" by (simp add: catch_one_def Let_def)
  then show ?case using Cons by simp
qed simp

lemma signal_sets:
  "(pd AND NOT (SIGBIT SIGCONT)) AND stopset = pd AND stopset"
  "((pd AND NOT (SIGBIT SIGCONT)) AND NOT stopset) AND fatalset = pd AND fatalset"
proof -
  have "NOT (SIGBIT SIGCONT) AND stopset = stopset" "NOT (SIGBIT SIGCONT) AND (NOT stopset AND fatalset) = fatalset" by code_simp+
  then show "(pd AND NOT (SIGBIT SIGCONT)) AND stopset = pd AND stopset"
    "((pd AND NOT (SIGBIT SIGCONT)) AND NOT stopset) AND fatalset = pd AND fatalset" by (simp_all only: and.assoc)
qed

lemma tinv_stops: "tinv False lay s R \<Longrightarrow> tinv True lay s R"
  by (auto simp: tinv_def pok_def)

lemma stop_applied:
  assumes inv: "tinv False lay s R" and p: "p < length (procs s)" "state (procs s ! p) = RUNNING"
    and h: "\<forall>sg \<in> {1..<NSIG}. sig_handler (procs s ! p) ! sg \<le> 1" and stop: "deliverable (procs s ! p) AND stopset \<noteq> 0"
  shows "tinv True lay (proc_apply_pending_signals (Some p) s) (R - {p})"
    "state (procs (proc_apply_pending_signals (Some p) s) ! p) =
       (if deliverable (procs s ! p) AND fatalset \<noteq> 0 then RUNNABLE else STOPPED)"
proof -
  let ?pd = "deliverable (procs s ! p)" and ?t = "proc_apply_pending_signals (Some p) s"
  define k where "k = signal_pick_fatal ((?pd AND NOT (SIGBIT SIGCONT)) AND NOT stopset)"
  define s1 where "s1 = (if ?pd AND SIGBIT SIGCONT \<noteq> 0
    then setp p (\<lambda>x. x\<lparr>sig_pending := sig_pending x AND NOT (SIGBIT SIGCONT)\<rparr>) s else s)"
  define s2 where "s2 = setp p (\<lambda>x. x\<lparr>sig_pending := sig_pending x AND NOT stopset\<rparr>) s1"
  define s3 where "s3 = setp p (\<lambda>x. x\<lparr>state := STOPPED, wait_event := WAIT_EVENT_STOPPED,
    wait_status := WSTATUS_STOP (signal_pick_stop (?pd AND NOT (SIGBIT SIGCONT)))\<rparr>) s2"
  define s4 where "s4 = setp p (\<lambda>x. x\<lparr>killed := True\<rparr>) s3"
  define s5 where "s5 = (if valid_signo (int k) then setp p (\<lambda>x. x\<lparr>xstatus := WSTATUS_SIG k\<rparr>) s4 else s4)"
  have c: "fold catch_one [1..<NSIG] (procs s ! p, ?pd) = (procs s ! p, ?pd)" by (rule no_handlers [OF h]) auto
  have id: "setp p (\<lambda>_. procs s ! p) s = s" by (simp add: setp_def)
  have 2: "tinv True lay s2 R" unfolding s2_def s1_def using tinv_stops [OF inv] by (auto intro!: tinv_setp keeps_fields)
  have l: "length (procs s1) = length (procs s)" "length (procs s2) = length (procs s)" "length (procs s3) = length (procs s)"
    "length (procs s5) = length (procs s)" by (simp_all add: s1_def s2_def s3_def s4_def s5_def)
  have st: "state (procs s1 ! p) = RUNNING" "state (procs s2 ! p) = RUNNING" "state (procs s3 ! p) = STOPPED" "state (procs s5 ! p) = STOPPED"
    using p l by (simp_all add: s1_def s2_def s3_def s4_def s5_def nth_setp)
  have 3: "tinv True lay s3 (R - {p})"
    using tinv_restate [OF 2, of p "\<lambda>x. x\<lparr>state := STOPPED, wait_event := WAIT_EVENT_STOPPED,
        wait_status := WSTATUS_STOP (signal_pick_stop (?pd AND NOT (SIGBIT SIGCONT)))\<rparr>"]
      tinv_quiet_links [OF 2, of p] tinv_off_cpu(2) [OF 2, of p] p l st by (simp add: s3_def pok_def)
  then have "tinv True lay s5 (R - {p})" unfolding s5_def s4_def by (auto intro!: tinv_setp keeps_fields)
  then have 6: "tinv True lay (make_ready p ENQ_SIGNAL s5) (R - {p})" by (rule tinv_make_ready_off) (use p l st in simp_all)
  have t: "?t = (if ?pd AND fatalset \<noteq> 0
      then setp p (\<lambda>x. x\<lparr>sig_pending := sig_pending x AND NOT fatalset\<rparr>) (make_ready p ENQ_SIGNAL s5) else s3)"
  proof -
    have n: "state (procs (setp p (\<lambda>x. x\<lparr>sig_pending := sig_pending x AND NOT (SIGBIT SIGCONT)\<rparr>) s) ! p) \<noteq> STOPPED"
      using p by (simp add: nth_setp)
    have r: "state (procs s2 ! p) \<in> {RUNNING, RUNNABLE, SLEEPING}" using st by simp
    show ?thesis
      unfolding proc_apply_pending_signals_def option.case c prod.case Let_def id if_not_P [OF n] s1_def [symmetric] s2_def [symmetric]
        signal_sets if_P [OF stop] if_P [OF r] s3_def [symmetric] s4_def [symmetric] k_def [symmetric] s5_def [symmetric] if_P [OF st(4)] ..
  qed
  show "tinv True lay ?t (R - {p})" unfolding t using 3 6 by (auto intro!: tinv_setp keeps_fields)
  have "state (procs (make_ready p ENQ_SIGNAL s5) ! p) = RUNNABLE"
    by (rule make_ready_state) (use p l in simp)
  then show "state (procs ?t ! p) = (if ?pd AND fatalset \<noteq> 0 then RUNNABLE else STOPPED)"
    unfolding t using st p l by (simp add: nth_setp)
qed

lemma cont_noted:
  assumes inv: "tinv True lay s R" and p: "p < length (procs s)" "state (procs s ! p) = STOPPED"
  shows "tinv True lay (proc_note_signal_locked (Some p) (int SIGCONT) s) R"
    "state (procs (proc_note_signal_locked (Some p) (int SIGCONT) s) ! p) = RUNNABLE"
proof -
  show "tinv True lay (proc_note_signal_locked (Some p) (int SIGCONT) s) R" by (rule tinv_note_signal [OF inv p(1)])
  define u where "u = setp p (\<lambda>x. x\<lparr>sig_pending := sig_pending x AND NOT (SIGBIT SIGSTOP OR SIGBIT SIGTSTP)\<rparr>)
    (setp p (\<lambda>x. x\<lparr>sig_pending := sig_pending x OR SIGBIT SIGCONT\<rparr>) s)"
  have u: "state (procs u ! p) = STOPPED" "length (procs u) = length (procs s)" using p by (simp_all add: u_def nth_setp)
  have m: "state (procs (make_ready p ENQ_SIGNAL u) ! p) = RUNNABLE"
    by (rule make_ready_state) (use p u in simp)
  have "valid_signo (int SIGCONT)" "SIGCONT \<noteq> SIGKILL" by (simp_all add: valid_signo_def NSIG_def SIGCONT_def SIGKILL_def)
  then have "proc_note_signal_locked (Some p) (int SIGCONT) s = make_ready p ENQ_SIGNAL u"
    using u(1) m by (simp add: proc_note_signal_locked_def Let_def u_def)
  then show "state (procs (proc_note_signal_locked (Some p) (int SIGCONT) s) ! p) = RUNNABLE" using m by simp
qed


text \<open>The first process with a terminal stop and a termination signal posted to it.\<close>

definition first_signalled :: procsys where
  "first_signalled = (let S = first_up\<lparr>tbl := proc_note_signal_locked (Some 0) 20 (tbl first_up)\<rparr>
     in S\<lparr>tbl := proc_note_signal_locked (Some 0) 15 (tbl S)\<rparr>)"

lemma first_signalled_eval:
  "runs first_signalled 0 0" "list_all (\<lambda>sg. sig_handler (procs (tbl first_signalled) ! 0) ! sg \<le> 1) [1..<NSIG]"
  "deliverable (procs (tbl first_signalled) ! 0) AND stopset \<noteq> 0" "deliverable (procs (tbl first_signalled) ! 0) AND fatalset \<noteq> 0"
  "cpu_proc first_signalled ! 1 = None" "length (cpu_proc first_signalled) = 2" "length (procs (tbl first_signalled)) = 1"
  by code_simp+


text \<open>A wakeup moves its sleepers and touches nobody else's state.\<close>

lemma wake_scan:
  assumes "n \<le> length (procs s)"
  shows "length (procs (fold (wake_one ch) [0..<n] s)) = length (procs s) \<and> chans (fold (wake_one ch) [0..<n] s) = chans s \<and>
    (\<forall>p < length (procs s). states (fold (wake_one ch) [0..<n] s) ! p =
      (if p < n \<and> states s ! p = SLEEPING \<and> chans s ! p = ch then RUNNABLE else states s ! p))"
  using assms
proof (induction n)
  case 0
  then show ?case by simp
next
  case (Suc n)
  let ?t = "fold (wake_one ch) [0..<n] s"
  have ih: "length (procs ?t) = length (procs s)" "chans ?t = chans s"
    "\<forall>p < length (procs s). states ?t ! p = (if p < n \<and> states s ! p = SLEEPING \<and> chans s ! p = ch then RUNNABLE else states s ! p)"
    using Suc by simp_all
  have n: "n < length (procs ?t)" using Suc.prems ih(1) by simp
  have t: "state (procs ?t ! n) = states s ! n" "chan (procs ?t ! n) = chans s ! n"
    using nth_chans [OF n] ih n by simp_all
  have st: "states (wake_one ch n ?t) = (if states s ! n = SLEEPING \<and> chans s ! n = ch then (states ?t)[n := RUNNABLE] else states ?t)"
    unfolding states_wake_one t ..
  have "chans (wake_one ch n ?t) = chans s" using ih(2) by (simp add: wake_one_def)
  moreover have "length (procs (wake_one ch n ?t)) = length (procs s)" using ih(1) by (simp add: wake_one_def)
  moreover have "states (wake_one ch n ?t) ! p = (if p < Suc n \<and> states s ! p = SLEEPING \<and> chans s ! p = ch then RUNNABLE else states s ! p)"
    if "p < length (procs s)" for p
    unfolding st using ih(3) that n ih(1) by (auto simp: nth_list_update less_Suc_eq)
  ultimately show ?case by simp
qed

lemma wakeup_other:
  assumes inv: "tinv stops lay s R" "slots_ok lay (length (procs s))" and ch: "ch \<noteq> 0" "ch \<noteq> ticks_at lay" and p: "p < length (procs s)"
  shows "states (wakeup1 lay ch s) ! p = (if states s ! p = SLEEPING \<and> chans s ! p = ch then RUNNABLE else states s ! p)"
proof (cases "chan_wait_hash s ! chan_wait_hash_idx ch = 0")
  case True
  let ?P = "\<lambda>c. c \<noteq> 0 \<and> chan_wait_hash_idx c = chan_wait_hash_idx ch"
  have h: "chan_wait_hash s ! chan_wait_hash_idx ch = of_nat (length (filter ?P (chans s)))"
    using inv(1) idx_bound [of ch] by (simp add: tinv_def hash_ok_def)
  have small: "length (filter ?P (chans s)) < 2 ^ 32"
    using length_filter_le [of ?P "chans s"] inv(1) by (auto simp: tinv_def sinv_def qrep_def)
  have "unat (of_nat (length (filter ?P (chans s))) :: u32) = length (filter ?P (chans s))"
    using small by (intro unat_of_nat_len) simp
  then have none: "filter ?P (chans s) = []" unfolding h [symmetric] True by simp
  have "chans s ! p \<noteq> ch"
  proof
    assume "chans s ! p = ch"
    then have "ch \<in> set (filter ?P (chans s))" using ch(1) p nth_mem [of p "chans s"] by simp
    then show False unfolding none by simp
  qed
  then show ?thesis using True ch(2) by (simp add: wakeup1_def)
next
  case False
  show ?thesis
  proof (cases "slot_at lay ch")
    case None
    then show ?thesis using False wake_scan [of "length (procs s)" s ch] p ch(2) by (simp add: wakeup1_def)
  next
    case (Some q)
    then have q: "q < length (procs s)" using inv(2) by (auto simp: slots_ok_def)
    have only: "chans s ! p = ch \<Longrightarrow> p = q"
      using inv(1) ch(1) p Some by (auto simp: tinv_def pok_def)
    have "states (wake_one ch q s) ! p = (if states s ! p = SLEEPING \<and> chans s ! p = ch then RUNNABLE else states s ! p)"
      unfolding states_wake_one using only q p by (auto simp: nth_list_update nth_chans)
    then show ?thesis using False Some ch(2) by (simp add: wakeup1_def)
  qed
qed

lemma wakeup_clock:
  assumes inv: "tinv stops lay s R"
  shows "p < length (procs s) \<Longrightarrow> states (wakeup1 lay (ticks_at lay) s) ! p =
      (if states s ! p = SLEEPING \<and> chans s ! p = ticks_at lay then RUNNABLE else states s ! p)"
    "tick_rep (wakeup1 lay (ticks_at lay) s) []"
proof -
  obtain T where T: "tick_rep s T" "\<forall>p < length (procs s). states s ! p = SLEEPING \<and> chans s ! p = ticks_at lay \<longrightarrow> p \<in> set T"
    using inv by (auto simp: tinv_def tickq_ok_def)
  have h: "tick_sleepq_head s = hde T None" using T by (simp add: tick_rep_def)
  note w = wake_ticks_spec [OF inv T(1) tick_rep_bound [OF T(1)]]
  show "p < length (procs s) \<Longrightarrow> states (wakeup1 lay (ticks_at lay) s) ! p =
      (if states s ! p = SLEEPING \<and> chans s ! p = ticks_at lay then RUNNABLE else states s ! p)"
    using w T(2) by (simp add: wakeup1_def h)
  show "tick_rep (wakeup1 lay (ticks_at lay) s) []" using w by (simp add: wakeup1_def h)
qed


text \<open>The first process asleep on a channel.\<close>

definition first_asleep :: "u32 \<Rightarrow> procsys" where
  "first_asleep ch = first_up\<lparr>tbl := sleep_begin some_map 0 ch (tbl first_up), cpu_proc := [None, None]\<rparr>"

lemma first_asleep_eval:
  "list_all (\<lambda>ch. length (procs (tbl (first_asleep ch))) = 1 \<and> state (procs (tbl (first_asleep ch)) ! 0) = SLEEPING \<and>
     chan (procs (tbl (first_asleep ch)) ! 0) = ch) [0x8000, 64]"
  by code_simp

lemma first_asleep_reach:
  assumes "ch \<noteq> 0" shows "(proc_step False some_map (\<lambda>_. 0) 0)\<^sup>*\<^sup>* (boot 1 2) (first_asleep ch)"
proof -
  have "sleep some_map 0 ch first_up = Ok (first_asleep ch)" by (simp add: sleep_def first_eval first_asleep_def)
  moreover have "runs first_up 0 0" by (simp add: runs_def first_eval)
  ultimately have "proc_step False some_map (\<lambda>_. 0) 0 first_up (first_asleep ch)"
    using assms by (intro st_sleep [of first_up 0 0 ch]) (simp_all add: some_map_def)
  then show ?thesis using first_reach [of False some_map "\<lambda>_. 0" 0] by (meson rtranclp.rtrancl_into_rtrancl)
qed


text \<open>The identifiers that are tried, in order.\<close>

definition next_pid :: "int \<Rightarrow> int" where
  "next_pid np = (if np \<ge> PID_MAX then 2 else np + 1)"

lemma next_pid_iter:
  assumes "1 \<le> np" "np \<le> PID_MAX" "int k < PID_MAX - 1"
  shows "(next_pid ^^ k) np = (if np + int k \<le> PID_MAX then np + int k else np + int k - PID_MAX + 1)"
  using assms(3)
proof (induction k)
  case 0
  then show ?case using assms by simp
next
  case (Suc k)
  then have "(next_pid ^^ k) np = (if np + int k \<le> PID_MAX then np + int k else np + int k - PID_MAX + 1)" by simp
  then have e: "(next_pid ^^ Suc k) np = next_pid (if np + int k \<le> PID_MAX then np + int k else np + int k - PID_MAX + 1)" by simp
  show ?case unfolding e using assms Suc.prems by (auto simp: next_pid_def PID_MAX_def)
qed

lemma next_pid_range: "1 \<le> np \<Longrightarrow> np \<le> PID_MAX \<Longrightarrow> 1 \<le> next_pid np \<and> next_pid np \<le> PID_MAX"
  by (simp add: next_pid_def PID_MAX_def)

lemma next_pid_inj:
  assumes "1 \<le> np" "np \<le> PID_MAX" "int j < PID_MAX - 1" "int k < PID_MAX - 1" "(next_pid ^^ j) np = (next_pid ^^ k) np"
  shows "j = k"
  using assms(5) unfolding next_pid_iter [OF assms(1-3)] next_pid_iter [OF assms(1,2,4)]
  using assms(1-4) by (auto split: if_splits)

definition pid_taken :: "nat \<Rightarrow> proc list \<Rightarrow> int \<Rightarrow> bool" where
  "pid_taken p ps i \<longleftrightarrow> (\<exists>q < length ps. q \<noteq> p \<and> state (ps ! q) \<noteq> UNUSED \<and> pid (ps ! q) = i)"

lemma find_pid_step:
  "find_pid (Suc tries) p ps np = (if pid_taken p ps np then find_pid tries p ps (next_pid np) else Some (np, next_pid np))"
  by (auto simp: pid_taken_def next_pid_def Let_def)

lemma find_pid_finds:
  assumes "k < tries" "\<not> pid_taken p ps ((next_pid ^^ k) np)"
  shows "\<exists>j \<le> k. find_pid tries p ps np = Some ((next_pid ^^ j) np, (next_pid ^^ Suc j) np) \<and> \<not> pid_taken p ps ((next_pid ^^ j) np)"
  using assms
proof (induction tries arbitrary: k np)
  case 0
  then show ?case by simp
next
  case (Suc tries)
  show ?case
  proof (cases "pid_taken p ps np")
    case True
    then obtain k' where k: "k = Suc k'" using Suc.prems(2) by (cases k) auto
    have "k' < tries" "\<not> pid_taken p ps ((next_pid ^^ k') (next_pid np))"
      using Suc.prems k by (simp_all add: funpow_swap1)
    from Suc.IH [OF this] obtain j where "j \<le> k'"
      "find_pid tries p ps (next_pid np) = Some ((next_pid ^^ j) (next_pid np), (next_pid ^^ Suc j) (next_pid np))"
      "\<not> pid_taken p ps ((next_pid ^^ j) (next_pid np))" by blast
    then show ?thesis
      using True k unfolding find_pid_step by (intro exI [of _ "Suc j"]) (simp add: funpow_swap1)
  next
    case False
    then show ?thesis unfolding find_pid_step by (intro exI [of _ 0]) simp
  qed
qed

text \<open>More candidates than processes: one of them is free.\<close>

lemma pid_pigeonhole:
  assumes "1 \<le> np" "np \<le> PID_MAX" "int (length ps) < PID_MAX - 1"
  shows "\<exists>k \<le> length ps. \<not> pid_taken p ps ((next_pid ^^ k) np)"
proof (rule ccontr)
  assume "\<not> ?thesis"
  then have "\<forall>k \<in> {..length ps}. \<exists>q. q < length ps \<and> pid (ps ! q) = (next_pid ^^ k) np"
    by (auto simp: pid_taken_def)
  then obtain q where q: "\<And>k. k \<le> length ps \<Longrightarrow> q k < length ps \<and> pid (ps ! q k) = (next_pid ^^ k) np"
    by (metis atMost_iff)
  have "inj_on q {..length ps}"
  proof (rule inj_onI)
    fix j k assume jk: "j \<in> {..length ps}" "k \<in> {..length ps}" "q j = q k"
    then have "(next_pid ^^ j) np = (next_pid ^^ k) np" using q [of j] q [of k] by simp
    then show "j = k" using next_pid_inj [OF assms(1,2), of j k] jk assms(3) by auto
  qed
  moreover have "q ` {..length ps} \<subseteq> {..<length ps}" using q by auto
  ultimately have "card {..length ps} \<le> card {..<length ps}" by (metis card_inj_on_le finite_lessThan)
  then show False by simp
qed

text \<open>
  Claim C36. With a table smaller than the range of identifiers \<open>allocproc\<close> never panics: it returns no process exactly when no slot is free, and
  otherwise a slot whose identifier is between 1 and \<open>PID_MAX\<close> and differs from that of every other live process; the search
  needs at most one try more than there are slots, and the next candidate stays in range.
\<close>

theorem allocproc_pid_unique:
  assumes "int (length (procs (tbl S))) < PID_MAX - 1" "1 \<le> nextpid S" "nextpid S \<le> PID_MAX"
  shows "\<exists>r T. allocproc S = Ok (r, T) \<and> 1 \<le> nextpid T \<and> nextpid T \<le> PID_MAX \<and>
    (case r of
       None \<Rightarrow> T = S \<and> (\<forall>x \<in> set (procs (tbl S)). state x \<noteq> UNUSED)
     | Some p \<Rightarrow> p < length (procs (tbl S)) \<and> state (procs (tbl S) ! p) = UNUSED \<and> state (procs (tbl T) ! p) = EMBRYO \<and>
         1 \<le> pid (procs (tbl T) ! p) \<and> pid (procs (tbl T) ! p) \<le> PID_MAX \<and>
         (\<forall>q < length (procs (tbl T)). q \<noteq> p \<longrightarrow> state (procs (tbl T) ! q) \<noteq> UNUSED \<longrightarrow>
            pid (procs (tbl T) ! q) \<noteq> pid (procs (tbl T) ! p)))"
proof (cases "first_index (\<lambda>x. state x = UNUSED) (procs (tbl S))")
  case None
  then have "\<forall>x \<in> set (procs (tbl S)). state x \<noteq> UNUSED" by simp
  then show ?thesis using assms unfolding allocproc_def None by auto
next
  case (Some p)
  have p: "p < length (procs (tbl S))" "state (procs (tbl S) ! p) = UNUSED" using first_index_SomeD [OF Some] by simp_all
  obtain k where k: "k \<le> length (procs (tbl S))" "\<not> pid_taken p (procs (tbl S)) ((next_pid ^^ k) (nextpid S))"
    using pid_pigeonhole [OF assms(2,3,1)] by blast
  have "k < nat PID_MAX" using k(1) assms(1) by (simp add: PID_MAX_def)
  from find_pid_finds [OF this k(2)] obtain j where
    j: "j \<le> k" "find_pid (nat PID_MAX) p (procs (tbl S)) (nextpid S) = Some ((next_pid ^^ j) (nextpid S), (next_pid ^^ Suc j) (nextpid S))"
      "\<not> pid_taken p (procs (tbl S)) ((next_pid ^^ j) (nextpid S))" by blast
  have range: "1 \<le> (next_pid ^^ i) (nextpid S) \<and> (next_pid ^^ i) (nextpid S) \<le> PID_MAX" for i
    by (induction i) (use assms(2,3) next_pid_range in auto)
  have "allocproc S = Ok (Some p, S\<lparr>tbl := setp p (embryo ((next_pid ^^ j) (nextpid S))) (tbl S), nextpid := (next_pid ^^ Suc j) (nextpid S)\<rparr>)"
    unfolding allocproc_def Some option.case j(2) prod.case ..
  then show ?thesis using p j(3) range [of j] range [of "Suc j"] by (auto simp: nth_setp embryo_def pid_taken_def)
qed

theorem allocproc_pid_unique_witness:
  "\<exists>r T. allocproc (boot 128 8) = Ok (r, T) \<and> nextpid T \<le> PID_MAX"
proof -
  have "int (length (procs (tbl (boot 128 8)))) < PID_MAX - 1" "1 \<le> nextpid (boot 128 8)" "nextpid (boot 128 8) \<le> PID_MAX"
    by (simp_all add: boot_def boot_table_def PID_MAX_def)
  from allocproc_pid_unique [OF this] show ?thesis by blast
qed

lemma signal_statuses:
  "list_all (\<lambda>sig. classify (WSTATUS_SIG sig) = Signaled (of_nat sig) \<and> classify (WSTATUS_STOP sig) = Stopped (of_nat sig) \<and>
     wait_status_has_valid_signal (WSTATUS_SIG sig) \<and> WSTATUS_SIG sig \<noteq> 0) [1..<32]"
  by code_simp

lemma bit_7f [simp]: "bit (0x7f :: u32) j \<longleftrightarrow> j < 7" "bit (0x7f :: int) j \<longleftrightarrow> j < 7"
  using bit_mask_iff [where 'a = u32, of 7 j] bit_mask_iff [where 'a = int, of 7 j] by (auto simp: mask_eq_exp_minus_1)

text \<open>
  What \<open>exit\<close>, a fatal signal, a stop and a continuation store as the wait status is what \<open>proc_waitid\<close> reads out of it: the
  four kinds are told apart, and the exit code (its low eight bits) and the signal number come back.
\<close>

theorem wait_status_roundtrip:
  "classify (WSTATUS_EXIT ec) = Exited (ec AND 0xff) \<and>
   (\<forall>sig \<in> {1..<NSIG}. classify (WSTATUS_SIG sig) = Signaled (of_nat sig) \<and> classify (WSTATUS_STOP sig) = Stopped (of_nat sig) \<and>
      exit_status (WSTATUS_SIG sig) ec = WSTATUS_SIG sig) \<and>
   classify WSTATUS_CONT = Continued \<and> exit_status 0 ec = WSTATUS_EXIT ec"
proof -
  have shifted: "push_bit 8 x AND 0xff = 0" "push_bit 8 x AND 0x7f = 0" for x :: u32
    by (rule word_eq_bitI, auto simp: bit_simps)+
  have restore: "drop_bit 8 (push_bit 8 x) AND 0xff = x" if "\<And>n. bit x n \<Longrightarrow> n < 8" for x :: u32
  proof (rule word_eq_bitI)
    fix n :: nat assume "n < LENGTH(32)"
    moreover have "bit x n \<Longrightarrow> n < 24" using that [of n] by linarith
    ultimately show "bit (drop_bit 8 (push_bit 8 x) AND 0xff) n = bit x n" using that [of n] by (auto simp: bit_simps)
  qed
  have restore: "drop_bit 8 (push_bit 8 (ec AND 0xff)) AND 0xff = ec AND 0xff"
    by (rule restore) (simp add: bit_and_iff)
  note low = shifted [of "ec AND 0xff"]
  have "push_bit 8 (ec AND 0xff) \<noteq> 0xffff"
  proof
    assume "push_bit 8 (ec AND 0xff) = 0xffff"
    then have "(0xffff :: u32) AND 0xff = 0" using low(1) by simp
    then show False by simp
  qed
  then have "classify (WSTATUS_EXIT ec) = Exited (ec AND 0xff)"
    using low restore by (simp add: classify_def WSTATUS_EXIT_def WIFSIGNALED_def)
  moreover have "classify (WSTATUS_SIG sig) = Signaled (of_nat sig) \<and> classify (WSTATUS_STOP sig) = Stopped (of_nat sig) \<and>
      exit_status (WSTATUS_SIG sig) ec = WSTATUS_SIG sig" if "sig \<in> {1..<NSIG}" for sig
  proof -
    have "sig \<in> set [1..<32]" using that by (simp add: NSIG_def)
    then show ?thesis using signal_statuses unfolding list_all_iff by (simp add: exit_status_def)
  qed
  moreover have "classify WSTATUS_CONT = Continued" by code_simp
  ultimately show ?thesis by (simp add: exit_status_def)
qed

theorem wait_status_roundtrip_witness: "classify (WSTATUS_STOP SIGTSTP) = Stopped 20 \<and> classify (WSTATUS_EXIT 0x1ff) = Exited 0xff"
  using wait_status_roundtrip [of "0x1ff"] by (simp add: NSIG_def SIGTSTP_def)

lemma pick_signal_zero: "0 \<notin> set sgs \<Longrightarrow> pick_signal sgs pending = 0 \<longleftrightarrow> (\<forall>sg \<in> set sgs. pending AND SIGBIT sg = 0)"
  by (induction sgs) auto

lemma pick_signal_member: "pick_signal sgs pending \<noteq> 0 \<Longrightarrow> pick_signal sgs pending \<in> set sgs \<and> pending AND SIGBIT (pick_signal sgs pending) \<noteq> 0"
  by (induction sgs) (auto split: if_splits)

lemma and_or_zero: "(a :: u32) AND (b OR c) = 0 \<longleftrightarrow> a AND b = 0 \<and> a AND c = 0"
  by (simp add: bit.conj_disj_distrib or_eq_0_iff)

lemma fatalset_zero: "pending AND fatalset = 0 \<longleftrightarrow> (\<forall>sg \<in> set fatal_order. pending AND SIGBIT sg = 0)"
  by (simp add: fatalset_def and_or_zero fatal_order_def) blast

lemma stopset_zero: "pending AND stopset = 0 \<longleftrightarrow> (\<forall>sg \<in> set stop_order. pending AND SIGBIT sg = 0)"
  by (simp add: stopset_def and_or_zero stop_order_def)

lemma SIGBIT_nonzero: "sg \<le> 32 \<Longrightarrow> SIGBIT sg \<noteq> 0"
proof
  assume sg: "sg \<le> 32" and "SIGBIT sg = 0"
  then have "bit (SIGBIT sg) (sg - 1) = False" by simp
  then show False using sg by (simp add: SIGBIT_def bit_simps)
qed

text \<open>
  The termination signal that \<open>signal_pick_fatal\<close> reports is 0 exactly when none of the signals that
  \<open>proc_apply_pending_signals\<close> treats as fatal is pending; otherwise it is a valid pending fatal signal, and \<open>SIGKILL\<close> whenever that is pending. The same
  holds of the stop signals.
\<close>

theorem signal_choice:
  "(signal_pick_fatal pending = 0 \<longleftrightarrow> pending AND fatalset = 0) \<and>
   (pending AND fatalset \<noteq> 0 \<longrightarrow> valid_signo (int (signal_pick_fatal pending)) \<and>
      pending AND SIGBIT (signal_pick_fatal pending) \<noteq> 0 \<and> SIGBIT (signal_pick_fatal pending) AND fatalset \<noteq> 0) \<and>
   (pending AND SIGBIT SIGKILL \<noteq> 0 \<longrightarrow> signal_pick_fatal pending = SIGKILL) \<and>
   (signal_pick_stop pending = 0 \<longleftrightarrow> pending AND stopset = 0) \<and>
   (pending AND stopset \<noteq> 0 \<longrightarrow> pending AND SIGBIT (signal_pick_stop pending) \<noteq> 0 \<and> SIGBIT (signal_pick_stop pending) AND stopset \<noteq> 0)"
proof -
  have nz: "0 \<notin> set fatal_order" "0 \<notin> set stop_order" by (simp_all add: fatal_order_def stop_order_def SIGKILL_def SIGALRM_def
      SIGSTOP_def SIGTSTP_def SIGTTIN_def SIGTTOU_def)
  have f: "signal_pick_fatal pending = 0 \<longleftrightarrow> pending AND fatalset = 0"
    unfolding signal_pick_fatal_def fatalset_zero by (rule pick_signal_zero [OF nz(1)])
  have st: "signal_pick_stop pending = 0 \<longleftrightarrow> pending AND stopset = 0"
    unfolding signal_pick_stop_def stopset_zero by (rule pick_signal_zero [OF nz(2)])
  have lim: "\<forall>sg \<in> set fatal_order. sg < NSIG \<and> 0 < sg" "\<forall>sg \<in> set stop_order. sg < NSIG"
    by (simp_all add: fatal_order_def stop_order_def NSIG_def SIGKILL_def SIGALRM_def SIGSTOP_def SIGTSTP_def SIGTTIN_def SIGTTOU_def)
  have self: "SIGBIT sg AND SIGBIT sg \<noteq> 0" if "sg < NSIG" for sg using SIGBIT_nonzero [of sg] that by (simp add: NSIG_def)
  have fm: "signal_pick_fatal pending \<in> set fatal_order \<and> pending AND SIGBIT (signal_pick_fatal pending) \<noteq> 0"
    if "pending AND fatalset \<noteq> 0"
    using pick_signal_member [of fatal_order pending] f that by (simp add: signal_pick_fatal_def)
  have sm: "signal_pick_stop pending \<in> set stop_order \<and> pending AND SIGBIT (signal_pick_stop pending) \<noteq> 0"
    if "pending AND stopset \<noteq> 0"
    using pick_signal_member [of stop_order pending] st that by (simp add: signal_pick_stop_def)
  have "pending AND SIGBIT SIGKILL \<noteq> 0 \<longrightarrow> signal_pick_fatal pending = SIGKILL"
    by (simp add: signal_pick_fatal_def fatal_order_def)
  moreover have "valid_signo (int (signal_pick_fatal pending)) \<and> SIGBIT (signal_pick_fatal pending) AND fatalset \<noteq> 0"
    if "pending AND fatalset \<noteq> 0"
    using fm [OF that] lim(1) self unfolding valid_signo_def fatalset_zero by fastforce
  moreover have "SIGBIT (signal_pick_stop pending) AND stopset \<noteq> 0" if "pending AND stopset \<noteq> 0"
    using sm [OF that] lim(2) self unfolding stopset_zero by blast
  ultimately show ?thesis using f st fm sm by blast
qed

theorem signal_choice_witness:
  "valid_signo (int (signal_pick_fatal (SIGBIT 15))) \<and> signal_pick_fatal (SIGBIT SIGKILL OR SIGBIT 15) = SIGKILL"
proof -
  have "SIGBIT 15 AND fatalset \<noteq> 0" "(SIGBIT SIGKILL OR SIGBIT 15) AND SIGBIT SIGKILL \<noteq> 0" by code_simp+
  then show ?thesis using signal_choice [of "SIGBIT 15"] signal_choice [of "SIGBIT SIGKILL OR SIGBIT 15"] by blast
qed

end
