(* ===== verification/Byteorder.thy ===== *)
theory Byteorder
  imports Prelude
begin

text \<open>
  The byte order of \<open>include/net.h\<close>. The machine stores a word with its low byte first; \<open>net_htons\<close> and \<open>net_htonl\<close> reverse the
  bytes, so that a converted word in memory has its high byte first.
\<close>

definition net_htons :: "u16 \<Rightarrow> u16" where
  "net_htons x = push_bit 8 (x AND 0x00ff) OR (drop_bit 8 x AND 0x00ff)"

definition net_ntohs :: "u16 \<Rightarrow> u16" where "net_ntohs x = net_htons x"

definition net_htonl :: "u32 \<Rightarrow> u32" where
  "net_htonl x = push_bit 24 (x AND 0x000000ff) OR push_bit 8 (x AND 0x0000ff00) OR
     drop_bit 8 (x AND 0x00ff0000) OR drop_bit 24 (x AND 0xff000000)"

definition net_ntohl :: "u32 \<Rightarrow> u32" where "net_ntohl x = net_htonl x"

text \<open>Words in memory: what a store of a word leaves there, and what a load finds.\<close>

definition st16 :: "u16 \<Rightarrow> bytes" where "st16 w = [ucast w, ucast (drop_bit 8 w)]"

definition ld16 :: "bytes \<Rightarrow> u16" where "ld16 bs = ucast (bs ! 0) OR push_bit 8 (ucast (bs ! 1))"

definition st32 :: "u32 \<Rightarrow> bytes" where
  "st32 w = [ucast w, ucast (drop_bit 8 w), ucast (drop_bit 16 w), ucast (drop_bit 24 w)]"

definition ld32 :: "bytes \<Rightarrow> u32" where
  "ld32 bs = ucast (bs ! 0) OR push_bit 8 (ucast (bs ! 1)) OR push_bit 16 (ucast (bs ! 2)) OR push_bit 24 (ucast (bs ! 3))"

definition be16 :: "u16 \<Rightarrow> bytes" where "be16 w = st16 (net_htons w)"

definition de16 :: "bytes \<Rightarrow> u16" where "de16 bs = net_ntohs (ld16 bs)"

definition be32 :: "u32 \<Rightarrow> bytes" where "be32 w = st32 (net_htonl w)"

definition de32 :: "bytes \<Rightarrow> u32" where "de32 bs = net_ntohl (ld32 bs)"

lemmas byteorder_defs = net_htons_def net_ntohs_def net_htonl_def net_ntohl_def st16_def ld16_def st32_def ld32_def
  be16_def de16_def be32_def de32_def

lemma length_stores [simp]: "length (st16 v) = 2" "length (st32 w) = 4" "length (be16 v) = 2" "length (be32 w) = 4"
  by (simp_all add: byteorder_defs)

lemma ld16_st16 [simp]: "ld16 (st16 w) = w"
proof (rule word_eq_bitI)
  fix n :: nat assume "n < LENGTH(16)"
  then consider "n < 8" | "8 \<le> n" "n < 16" by fastforce
  then show "bit (ld16 (st16 w)) n = bit w n"
    by cases (auto simp: ld16_def st16_def bit_simps less_diff_conv2 dest: bit_imp_le_length)
qed

lemma ld32_st32 [simp]: "ld32 (st32 w) = w"
proof (rule word_eq_bitI)
  fix n :: nat assume "n < LENGTH(32)"
  then consider "n < 8" | "8 \<le> n" "n < 16" | "16 \<le> n" "n < 24" | "24 \<le> n" "n < 32" by fastforce
  then show "bit (ld32 (st32 w)) n = bit w n"
    by cases (auto simp: ld32_def st32_def bit_simps less_diff_conv2 dest: bit_imp_le_length)
qed

text \<open>Bit by bit, and hence: reversing the bytes twice gives the word back.\<close>

lemma bit_net_htons: "bit (net_htons x) n \<longleftrightarrow> (if n < 8 then bit x (n + 8) else n < 16 \<and> bit x (n - 8))"
proof -
  have m: "(0xff :: u16) = mask 8" by (simp add: mask_eq_exp_minus_1)
  show ?thesis unfolding net_htons_def m take_bit_eq_mask [symmetric]
    by (auto simp: bit_simps add.commute dest: bit_imp_le_length)
qed

lemma bit_net_htonl:
  "bit (net_htonl x) n \<longleftrightarrow> (if n < 8 then bit x (n + 24) else if n < 16 then bit x (n + 8) else if n < 24 then bit x (n - 8)
     else n < 32 \<and> bit x (n - 24))"
proof -
  have s: "(0xff :: u32) = mask 8" "(0xff00 :: u32) = push_bit 8 (mask 8)" "(0xff0000 :: u32) = push_bit 16 (mask 8)"
      "(0xff000000 :: u32) = push_bit 24 (mask 8)"
    by (simp_all add: mask_eq_exp_minus_1 push_bit_eq_mult)
  show ?thesis unfolding net_htonl_def s
    by (auto simp: bit_simps add.commute dest: bit_imp_le_length)
qed

lemma net_htons_htons [simp]: "net_htons (net_htons x) = x"
  by (rule word_eq_bitI) (auto simp: bit_net_htons)

lemma net_htonl_htonl [simp]: "net_htonl (net_htonl x) = x"
  by (rule word_eq_bitI) (auto simp: bit_net_htonl)

lemma de16_be16 [simp]: "de16 (be16 w) = w"
  by (simp add: de16_def be16_def net_ntohs_def)

lemma de32_be32 [simp]: "de32 (be32 w) = w"
  by (simp add: de32_def be32_def net_ntohl_def)

end
