(* ===== verification/Xdr.thy ===== *)
theory Xdr
  imports Byteorder
begin

text \<open>
  The external data representation of \<open>kernel/net/xdr.c\<close>: a stream over a buffer that encodes values
  into it or decodes them from it. The buffer is its list of bytes; the pointer \<open>buf\<close> is its offset from
  \<open>start\<close>. A routine takes the value its pointer argument points to and returns it, changed when it decodes. The result
  \<open>None\<close> stands for an access outside the buffer, which no test of the code has prevented.
\<close>

datatype xdr_op = XDR_ENCODE | XDR_DECODE | XDR_FREE

record XDR =
  xdata :: bytes
  xcur :: u32
  xbuflen :: u32
  xpos :: u32
  xop :: xdr_op

type_synonym 'a xdr_result = "(bool \<times> XDR \<times> 'a) option"

definition xdr_init :: "bytes \<Rightarrow> u32 \<Rightarrow> xdr_op \<Rightarrow> XDR" where
  "xdr_init bs len opr = \<lparr>xdata = bs, xcur = 0, xbuflen = len, xpos = 0, xop = opr\<rparr>"

definition xdr_reset :: "XDR \<Rightarrow> XDR" where
  "xdr_reset xs = xs\<lparr>xpos := 0, xcur := 0\<rparr>"

definition xdr_getpos :: "XDR \<Rightarrow> u32" where "xdr_getpos xs = xpos xs"

definition xdr_setpos :: "XDR \<Rightarrow> u32 \<Rightarrow> bool \<times> XDR" where
  "xdr_setpos xs p = (if p > xbuflen xs then (False, xs) else (True, xs\<lparr>xpos := p, xcur := p\<rparr>))"

definition xdr_check_bytes :: "XDR \<Rightarrow> u32 \<Rightarrow> bool" where
  "xdr_check_bytes xs needed \<longleftrightarrow> \<not> xpos xs + needed > xbuflen xs"

definition xdr_advance :: "XDR \<Rightarrow> u32 \<Rightarrow> u32 \<times> XDR" where
  "xdr_advance xs n = (xcur xs, xs\<lparr>xcur := xcur xs + n, xpos := xpos xs + n\<rparr>)"

text \<open>The accesses through a pointer into the buffer.\<close>

definition xload :: "XDR \<Rightarrow> u32 \<Rightarrow> nat \<Rightarrow> bytes option" where
  "xload xs off n = (if unat off + n \<le> length (xdata xs) then Some (take n (drop (unat off) (xdata xs))) else None)"

definition xstore :: "XDR \<Rightarrow> u32 \<Rightarrow> bytes \<Rightarrow> XDR option" where
  "xstore xs off bs = (if unat off + length bs \<le> length (xdata xs)
     then Some (xs\<lparr>xdata := splice (unat off) bs (xdata xs)\<rparr>) else None)"

definition xdr_int_internal :: "XDR \<Rightarrow> u32 \<Rightarrow> u32 xdr_result" where
  "xdr_int_internal xs v =
     (if \<not> xdr_check_bytes xs 4 then Some (False, xs, v)
      else let (p, xs1) = xdr_advance xs 4 in
        case xop xs1 of
          XDR_ENCODE \<Rightarrow> map_option (\<lambda>xs2. (True, xs2, v)) (xstore xs1 p (be32 v))
        | XDR_DECODE \<Rightarrow> map_option (\<lambda>bs. (True, xs1, de32 bs)) (xload xs1 p 4)
        | XDR_FREE \<Rightarrow> Some (True, xs1, v))"

definition xdr_int :: "XDR \<Rightarrow> u32 \<Rightarrow> u32 xdr_result" where "xdr_int xs v = xdr_int_internal xs v"
definition xdr_uint :: "XDR \<Rightarrow> u32 \<Rightarrow> u32 xdr_result" where "xdr_uint xs v = xdr_int_internal xs v"
definition xdr_long :: "XDR \<Rightarrow> u32 \<Rightarrow> u32 xdr_result" where "xdr_long xs v = xdr_int_internal xs v"
definition xdr_ulong :: "XDR \<Rightarrow> u32 \<Rightarrow> u32 xdr_result" where "xdr_ulong xs v = xdr_int_internal xs v"
definition xdr_enum :: "XDR \<Rightarrow> u32 \<Rightarrow> u32 xdr_result" where "xdr_enum xs v = xdr_int xs v"
definition xdr_float :: "XDR \<Rightarrow> u32 \<Rightarrow> u32 xdr_result" where "xdr_float xs v = xdr_int_internal xs v"

definition xdr_short :: "XDR \<Rightarrow> u16 \<Rightarrow> u16 xdr_result" where
  "xdr_short xs v =
     (case xop xs of
        XDR_ENCODE \<Rightarrow> map_option (\<lambda>(ok, xs1, _). (ok, xs1, v)) (xdr_int_internal xs (scast v))
      | XDR_DECODE \<Rightarrow> map_option (\<lambda>(ok, xs1, w). (ok, xs1, if ok then ucast (signed_drop_bit 16 w) else v)) (xdr_int_internal xs 0)
      | XDR_FREE \<Rightarrow> Some (False, xs, v))"

definition xdr_ushort :: "XDR \<Rightarrow> u16 \<Rightarrow> u16 xdr_result" where
  "xdr_ushort xs v =
     (case xop xs of
        XDR_ENCODE \<Rightarrow> map_option (\<lambda>(ok, xs1, _). (ok, xs1, v)) (xdr_int_internal xs (ucast v))
      | XDR_DECODE \<Rightarrow> map_option (\<lambda>(ok, xs1, w). (ok, xs1, if ok then ucast (drop_bit 16 w) else v)) (xdr_int_internal xs 0)
      | XDR_FREE \<Rightarrow> Some (False, xs, v))"

definition xdr_bool :: "XDR \<Rightarrow> u32 \<Rightarrow> u32 xdr_result" where
  "xdr_bool xs v =
     (case xop xs of
        XDR_ENCODE \<Rightarrow> map_option (\<lambda>(ok, xs1, _). (ok, xs1, v)) (xdr_int_internal xs (if v \<noteq> 0 then 1 else 0))
      | XDR_DECODE \<Rightarrow> map_option (\<lambda>(ok, xs1, w). (ok, xs1, if ok then (if w \<noteq> 0 then 1 else 0) else v)) (xdr_int_internal xs 0)
      | XDR_FREE \<Rightarrow> Some (False, xs, v))"

definition xdr_double :: "XDR \<Rightarrow> u32 \<times> u32 \<Rightarrow> (u32 \<times> u32) xdr_result" where
  "xdr_double xs v =
     Option.bind (xdr_int_internal xs (fst v)) (\<lambda>(ok, xs1, a).
       if \<not> ok then Some (False, xs1, v)
       else map_option (\<lambda>(ok2, xs2, b). (ok2, xs2, (a, b))) (xdr_int_internal xs1 (snd v)))"

definition rndup :: "u32 \<Rightarrow> u32" where "rndup cnt = (cnt + 3) AND NOT 3"

text \<open>The encoder's copy of \<open>cnt\<close> bytes at \<open>p\<close> followed by zeros up to the rounded length.\<close>

definition put_padded :: "XDR \<Rightarrow> u32 \<Rightarrow> bytes \<Rightarrow> u32 \<Rightarrow> XDR option" where
  "put_padded xs p bs r =
     Option.bind (xstore xs p bs) (\<lambda>xs1. xstore xs1 (p + of_nat (length bs)) (replicate (unat (r - of_nat (length bs))) 0))"

definition xdr_opaque :: "XDR \<Rightarrow> bytes \<Rightarrow> bytes xdr_result" where
  "xdr_opaque xs bs =
     (let cnt = of_nat (length bs); r = rndup cnt in
      if \<not> xdr_check_bytes xs r then Some (False, xs, bs)
      else let (p, xs1) = xdr_advance xs r in
        case xop xs1 of
          XDR_ENCODE \<Rightarrow> map_option (\<lambda>xs2. (True, xs2, bs)) (put_padded xs1 p bs r)
        | XDR_DECODE \<Rightarrow> map_option (\<lambda>cs. (True, xs1, cs)) (xload xs1 p (length bs))
        | XDR_FREE \<Rightarrow> Some (True, xs1, bs))"

text \<open>
  Variable-length bytes. The value is the memory the caller's pointer and size describe: when decoding, the \<open>len\<close>
  bytes at the place in the buffer to which the pointer is set.
\<close>

definition xdr_bytes :: "XDR \<Rightarrow> bytes \<Rightarrow> u32 \<Rightarrow> bytes xdr_result" where
  "xdr_bytes xs bs maxsize =
     (let len0 = (if xop xs = XDR_ENCODE then of_nat (length bs) else 0) in
      if xop xs = XDR_ENCODE \<and> len0 > maxsize then Some (False, xs, bs)
      else Option.bind (xdr_uint xs len0) (\<lambda>(ok, xs1, len).
        if \<not> ok then Some (False, xs1, bs)
        else if xop xs = XDR_DECODE \<and> len > maxsize then Some (False, xs1, bs)
        else if \<not> xdr_check_bytes xs1 (rndup len) then Some (False, xs1, bs)
        else let (p, xs2) = xdr_advance xs1 (rndup len) in
          case xop xs2 of
            XDR_ENCODE \<Rightarrow> map_option (\<lambda>xs3. (True, xs3, bs)) (put_padded xs2 p bs (rndup len))
          | XDR_DECODE \<Rightarrow> map_option (\<lambda>cs. (True, xs2, cs)) (xload xs2 p (unat len))
          | XDR_FREE \<Rightarrow> Some (True, xs2, bs)))"

text \<open>
  A string is the bytes before its terminator; the terminator is encoded with it. The decoder sets the pointer to the place in
  the buffer, and the string there ends at the next zero byte, wherever that is.
\<close>

definition xdr_string :: "XDR \<Rightarrow> bytes \<Rightarrow> u32 \<Rightarrow> bytes xdr_result" where
  "xdr_string xs str maxsize =
     (let n = of_nat (length str); len0 = (if xop xs = XDR_ENCODE then n + 1 else 0) in
      if xop xs = XDR_ENCODE \<and> n \<ge> maxsize then Some (False, xs, str)
      else Option.bind (xdr_uint xs len0) (\<lambda>(ok, xs1, len).
        if \<not> ok then Some (False, xs1, str)
        else if xop xs = XDR_DECODE \<and> (len > maxsize \<or> len = 0) then Some (False, xs1, str)
        else if \<not> xdr_check_bytes xs1 (rndup len) then Some (False, xs1, str)
        else let (p, xs2) = xdr_advance xs1 (rndup len) in
          case xop xs2 of
            XDR_ENCODE \<Rightarrow> map_option (\<lambda>xs3. (True, xs3, str)) (put_padded xs2 p (str @ [0]) (rndup len))
          | XDR_DECODE \<Rightarrow> Some (True, xs2, takeWhile (\<lambda>b. b \<noteq> 0) (drop (unat p) (xdata xs2)))
          | XDR_FREE \<Rightarrow> Some (True, xs2, str)))"

text \<open>Elements one after the other, by the routine of the element type.\<close>

fun xdr_vector :: "(XDR \<Rightarrow> 'a \<Rightarrow> 'a xdr_result) \<Rightarrow> XDR \<Rightarrow> 'a list \<Rightarrow> 'a list xdr_result" where
  "xdr_vector elem xs [] = Some (True, xs, [])"
| "xdr_vector elem xs (v # vs) =
     Option.bind (elem xs v) (\<lambda>(ok, xs1, w).
       if \<not> ok then Some (False, xs1, w # vs)
       else map_option (\<lambda>(ok2, xs2, ws). (ok2, xs2, w # ws)) (xdr_vector elem xs1 vs))"

text \<open>
  A counted array. The decoder writes into \<open>room\<close> elements of memory that hold \<open>fill\<close>: the caller's array, or what fits in
  the one page that is allocated when the caller has none (\<open>room\<close> is \<open>None\<close> when that fails). The elements past that memory
  are written outside it.
\<close>

definition xdr_array :: "(XDR \<Rightarrow> 'a \<Rightarrow> 'a xdr_result) \<Rightarrow> XDR \<Rightarrow> 'a list \<Rightarrow> u32 \<Rightarrow> nat option \<Rightarrow> 'a \<Rightarrow> 'a list xdr_result" where
  "xdr_array elem xs vs maxsize room fill =
     (let len0 = (if xop xs = XDR_ENCODE then of_nat (length vs) else 0) in
      if xop xs = XDR_ENCODE \<and> len0 > maxsize then Some (False, xs, vs)
      else Option.bind (xdr_uint xs len0) (\<lambda>(ok, xs1, len).
        if \<not> ok then Some (False, xs1, vs)
        else if xop xs = XDR_DECODE then
          (if len > maxsize then Some (False, xs1, vs)
           else case room of
             None \<Rightarrow> Some (False, xs1, vs)
           | Some n \<Rightarrow> Option.bind (xdr_vector elem xs1 (replicate (min (unat len) n) fill)) (\<lambda>(ok2, xs2, ws).
               if ok2 \<and> unat len > n then None else Some (ok2, xs2, ws)))
        else xdr_vector elem xs1 vs))"

fun find_arm :: "(u32 \<times> 'p) list \<Rightarrow> u32 \<Rightarrow> 'p option" where
  "find_arm [] d = None"
| "find_arm ((v, p) # cs) d = (if v = d then Some p else find_arm cs d)"

definition xdr_union :: "XDR \<Rightarrow> u32 \<Rightarrow> 'a \<Rightarrow> (u32 \<times> (XDR \<Rightarrow> 'a \<Rightarrow> 'a xdr_result)) list \<Rightarrow>
    (XDR \<Rightarrow> 'a \<Rightarrow> 'a xdr_result) option \<Rightarrow> (u32 \<times> 'a) xdr_result" where
  "xdr_union xs d v choices defaultarm =
     Option.bind (xdr_int xs d) (\<lambda>(ok, xs1, d1).
       if \<not> ok then Some (False, xs1, (d, v))
       else let d2 = (if xop xs = XDR_DECODE then d1 else d) in
         case (case find_arm choices d1 of Some p \<Rightarrow> Some p | None \<Rightarrow> defaultarm) of
           Some p \<Rightarrow> map_option (\<lambda>(ok2, xs2, w). (ok2, xs2, (d2, w))) (p xs1 v)
         | None \<Rightarrow> Some (False, xs1, (d2, v)))"

text \<open>
  The size of an encoding, found by encoding into a local buffer (whatever it holds), and the call that releases a value.
\<close>

definition xdr_sizeof :: "(XDR \<Rightarrow> 'a \<Rightarrow> 'a xdr_result) \<Rightarrow> bytes \<Rightarrow> 'a \<Rightarrow> u32 option" where
  "xdr_sizeof func buf v = map_option (\<lambda>(ok, xs, _). if ok then xdr_getpos xs else 0) (func (xdr_init buf 4096 XDR_ENCODE) v)"

definition xdr_free :: "(XDR \<Rightarrow> 'a \<Rightarrow> 'a xdr_result) \<Rightarrow> bytes \<Rightarrow> 'a \<Rightarrow> 'a option" where
  "xdr_free func buf v = map_option (\<lambda>(_, _, w). w) (func (xdr_init buf 1 XDR_FREE) v)"

subsection \<open>Streams\<close>

definition stream_ok :: "XDR \<Rightarrow> bool" where
  "stream_ok xs \<longleftrightarrow> xcur xs = xpos xs \<and> unat (xbuflen xs) = length (xdata xs) \<and> xpos xs \<le> xbuflen xs \<and>
     length (xdata xs) \<le> 2 ^ 31"

definition fits :: "XDR \<Rightarrow> nat \<Rightarrow> bool" where
  "fits xs n \<longleftrightarrow> unat (xpos xs) + n \<le> length (xdata xs)"

text \<open>The stream after \<open>n\<close> more bytes, and after writing \<open>bs\<close>; the bytes ahead of the position.\<close>

definition skip_bytes :: "nat \<Rightarrow> XDR \<Rightarrow> XDR" where
  "skip_bytes n xs = xs\<lparr>xcur := xcur xs + of_nat n, xpos := xpos xs + of_nat n\<rparr>"

definition put_bytes :: "bytes \<Rightarrow> XDR \<Rightarrow> XDR" where
  "put_bytes bs xs = skip_bytes (length bs) (xs\<lparr>xdata := splice (unat (xpos xs)) bs (xdata xs)\<rparr>)"

definition ahead :: "nat \<Rightarrow> XDR \<Rightarrow> bytes" where
  "ahead n xs = take n (drop (unat (xpos xs)) (xdata xs))"

lemma pos_bound: "stream_ok xs \<Longrightarrow> unat (xpos xs) \<le> length (xdata xs) \<and> length (xdata xs) \<le> 2 ^ 31"
  by (auto simp: stream_ok_def word_le_nat_alt)

lemma stream_ok_init: "length bs \<le> 2 ^ 31 \<Longrightarrow> stream_ok (xdr_init bs (of_nat (length bs)) opr)"
  by (simp add: stream_ok_def xdr_init_def unat_of_nat_len)

lemma fits_init: "fits (xdr_init bs len opr) n \<longleftrightarrow> n \<le> length bs"
  by (simp add: fits_def xdr_init_def)

lemma unat_pos_add:
  assumes "stream_ok xs" "fits xs n"
  shows "unat (xpos xs + of_nat n) = unat (xpos xs) + n"
proof -
  have b: "unat (xpos xs) + n \<le> 2 ^ 31" using assms pos_bound [OF assms(1)] by (simp add: fits_def)
  then have "unat (of_nat n :: u32) = n" by (intro unat_of_nat_len) simp
  then show ?thesis using b by (subst unat_add_no_wrap) auto
qed

lemma check_bytes_iff:
  assumes "stream_ok xs" "unat n \<le> 2 ^ 31 - 1"
  shows "xdr_check_bytes xs n \<longleftrightarrow> fits xs (unat n)"
proof -
  have "unat (xpos xs) + unat n < 2 ^ 32" using pos_bound [OF assms(1)] assms(2) by simp
  then have "unat (xpos xs + n) = unat (xpos xs) + unat n" by (intro unat_add_no_wrap) simp
  then show ?thesis using assms(1) by (simp add: xdr_check_bytes_def fits_def stream_ok_def word_less_nat_alt not_less)
qed

lemma stream_ok_skip [simp]:
  assumes "stream_ok xs" "fits xs n"
  shows "stream_ok (skip_bytes n xs)" "xop (skip_bytes n xs) = xop xs" "xdata (skip_bytes n xs) = xdata xs"
    "unat (xpos (skip_bytes n xs)) = unat (xpos xs) + n"
  using assms unat_pos_add [OF assms]
  by (auto simp: stream_ok_def skip_bytes_def word_le_nat_alt fits_def)

lemma put_bytes_props:
  assumes "stream_ok xs" "fits xs (length bs)"
  shows "stream_ok (put_bytes bs xs)" "xop (put_bytes bs xs) = xop xs" "length (xdata (put_bytes bs xs)) = length (xdata xs)"
    "unat (xpos (put_bytes bs xs)) = unat (xpos xs) + length bs"
    "xdata (put_bytes bs xs) = splice (unat (xpos xs)) bs (xdata xs)"
proof -
  let ?xs = "xs\<lparr>xdata := splice (unat (xpos xs)) bs (xdata xs)\<rparr>"
  have l: "length (splice (unat (xpos xs)) bs (xdata xs)) = length (xdata xs)" using assms(2) by (simp add: fits_def)
  have ok: "stream_ok ?xs" "fits ?xs (length bs)" using assms l by (simp_all add: stream_ok_def fits_def)
  show "stream_ok (put_bytes bs xs)" "xop (put_bytes bs xs) = xop xs" "length (xdata (put_bytes bs xs)) = length (xdata xs)"
    "unat (xpos (put_bytes bs xs)) = unat (xpos xs) + length bs"
    "xdata (put_bytes bs xs) = splice (unat (xpos xs)) bs (xdata xs)"
    using stream_ok_skip [OF ok] l by (simp_all add: put_bytes_def)
qed

lemma fits_put: "stream_ok xs \<Longrightarrow> fits xs (length bs + n) \<Longrightarrow> fits (put_bytes bs xs) n"
  using put_bytes_props [of xs bs] by (simp add: fits_def)

lemma fits_skip: "stream_ok xs \<Longrightarrow> fits xs (m + n) \<Longrightarrow> fits (skip_bytes m xs) n"
  using stream_ok_skip [of xs m] by (simp add: fits_def)

lemma splice_splice:
  "p + length as + length bs \<le> length xs \<Longrightarrow> splice (p + length as) bs (splice p as xs) = splice p (as @ bs) xs"
  by (intro nth_equalityI) (auto simp: nth_splice nth_append)

lemma put_put:
  assumes "stream_ok xs" "fits xs (length as + length bs)"
  shows "put_bytes bs (put_bytes as xs) = put_bytes (as @ bs) xs"
proof -
  have f: "fits xs (length as)" using assms(2) by (simp add: fits_def)
  note p = put_bytes_props [OF assms(1) f]
  have "splice (unat (xpos xs) + length as) bs (splice (unat (xpos xs)) as (xdata xs)) =
      splice (unat (xpos xs)) (as @ bs) (xdata xs)"
    by (rule splice_splice) (use assms(2) in \<open>simp add: fits_def\<close>)
  then show ?thesis
    unfolding put_bytes_def [of bs] p(4,5) by (simp add: put_bytes_def skip_bytes_def add.assoc)
qed

lemma skip_skip: "skip_bytes n (skip_bytes m xs) = skip_bytes (m + n) xs"
  by (simp add: skip_bytes_def add.assoc)

lemma ahead_split:
  assumes "stream_ok xs" "fits xs (length as + length bs)"
  shows "ahead (length as + length bs) xs = as @ bs \<longleftrightarrow>
    ahead (length as) xs = as \<and> ahead (length bs) (skip_bytes (length as) xs) = bs"
proof -
  have f: "fits xs (length as)" using assms(2) by (simp add: fits_def)
  have "ahead (length as + length bs) xs = ahead (length as) xs @ ahead (length bs) (skip_bytes (length as) xs)"
    using stream_ok_skip [OF assms(1) f] by (simp add: ahead_def take_add add.commute)
  moreover have "length (ahead (length as) xs) = length as" using f by (simp add: ahead_def fits_def)
  ultimately show ?thesis by (auto simp: append_eq_append_conv)
qed

subsection \<open>What an encoding routine promises\<close>

text \<open>
  The contract of a routine of this interface, for values that satisfy \<open>ok\<close>: encoding writes \<open>enc v\<close> at the position and moves
  past it, decoding bytes that are \<open>enc v\<close> moves past them and gives \<open>v\<close>.
\<close>

locale xdr_filter =
  fixes f :: "XDR \<Rightarrow> 'a \<Rightarrow> 'a xdr_result"
    and enc :: "'a \<Rightarrow> bytes"
    and ok :: "'a \<Rightarrow> bool"
  assumes encodes: "stream_ok xs \<Longrightarrow> xop xs = XDR_ENCODE \<Longrightarrow> ok v \<Longrightarrow> fits xs (length (enc v)) \<Longrightarrow>
      f xs v = Some (True, put_bytes (enc v) xs, v)"
    and decodes: "stream_ok xs \<Longrightarrow> xop xs = XDR_DECODE \<Longrightarrow> ok v \<Longrightarrow> fits xs (length (enc v)) \<Longrightarrow>
      ahead (length (enc v)) xs = enc v \<Longrightarrow> f xs u = Some (True, skip_bytes (length (enc v)) xs, v)"
begin

lemma vector_encodes:
  "stream_ok xs \<Longrightarrow> xop xs = XDR_ENCODE \<Longrightarrow> (\<forall>v \<in> set vs. ok v) \<Longrightarrow> fits xs (length (concat (map enc vs))) \<Longrightarrow>
   xdr_vector f xs vs = Some (True, put_bytes (concat (map enc vs)) xs, vs)"
proof (induction vs arbitrary: xs)
  case Nil
  then show ?case by (simp add: put_bytes_def skip_bytes_def)
next
  case (Cons v vs)
  have fit: "fits xs (length (enc v))" using Cons.prems(4) by (simp add: fits_def)
  have "f xs v = Some (True, put_bytes (enc v) xs, v)" by (rule encodes) (use Cons.prems fit in auto)
  moreover have "xdr_vector f (put_bytes (enc v) xs) vs =
      Some (True, put_bytes (concat (map enc vs)) (put_bytes (enc v) xs), vs)"
    by (rule Cons.IH) (use Cons.prems fit put_bytes_props [OF Cons.prems(1) fit] fits_put in auto)
  ultimately show ?case using put_put Cons.prems by simp
qed

lemma vector_decodes:
  "stream_ok xs \<Longrightarrow> xop xs = XDR_DECODE \<Longrightarrow> (\<forall>v \<in> set vs. ok v) \<Longrightarrow> fits xs (length (concat (map enc vs))) \<Longrightarrow>
   ahead (length (concat (map enc vs))) xs = concat (map enc vs) \<Longrightarrow> length us = length vs \<Longrightarrow>
   xdr_vector f xs us = Some (True, skip_bytes (length (concat (map enc vs))) xs, vs)"
proof (induction vs arbitrary: xs us)
  case Nil
  then show ?case by (simp add: skip_bytes_def)
next
  case (Cons v vs)
  then obtain u us' where us: "us = u # us'" "length us' = length vs" by (cases us) auto
  have fit: "fits xs (length (enc v))" using Cons.prems(4) by (simp add: fits_def)
  have fits2: "fits xs (length (enc v) + length (concat (map enc vs)))" using Cons.prems(4) by simp
  have a: "ahead (length (enc v)) xs = enc v" "ahead (length (concat (map enc vs))) (skip_bytes (length (enc v)) xs) = concat (map enc vs)"
    using Cons.prems(5) ahead_split [OF Cons.prems(1) fits2] by simp_all
  have "f xs u = Some (True, skip_bytes (length (enc v)) xs, v)" by (rule decodes) (use Cons.prems fit a in auto)
  moreover have "xdr_vector f (skip_bytes (length (enc v)) xs) us' =
      Some (True, skip_bytes (length (concat (map enc vs))) (skip_bytes (length (enc v)) xs), vs)"
    by (rule Cons.IH) (use Cons.prems fit us a stream_ok_skip [OF Cons.prems(1) fit] fits_skip [OF Cons.prems(1) fits2] in auto)
  ultimately show ?case using us by (simp add: skip_skip)
qed

end

subsection \<open>Integers\<close>

lemma advance_skip: "xdr_advance xs (of_nat n) = (xcur xs, skip_bytes n xs)"
  by (simp add: xdr_advance_def skip_bytes_def)

lemma xload_ahead:
  "stream_ok xs \<Longrightarrow> fits xs n \<Longrightarrow> m \<le> n \<Longrightarrow> xload (skip_bytes n xs) (xcur xs) m = Some (ahead m xs)"
  by (auto simp: xload_def ahead_def fits_def stream_ok_def skip_bytes_def)

lemma xstore_put:
  "stream_ok xs \<Longrightarrow> fits xs (length bs) \<Longrightarrow> xstore (skip_bytes (length bs) xs) (xcur xs) bs = Some (put_bytes bs xs)"
  by (simp add: xstore_def put_bytes_def fits_def stream_ok_def skip_bytes_def)

lemma int_encodes:
  assumes "stream_ok xs" "xop xs = XDR_ENCODE" "fits xs 4"
  shows "xdr_int_internal xs v = Some (True, put_bytes (be32 v) xs, v)"
  using assms check_bytes_iff [OF assms(1), of 4] xstore_put [OF assms(1), of "be32 v"] advance_skip [of xs 4]
    stream_ok_skip(2) [OF assms(1,3)]
  by (simp add: xdr_int_internal_def)

lemma int_decodes:
  assumes "stream_ok xs" "xop xs = XDR_DECODE" "fits xs 4" "ahead 4 xs = be32 v"
  shows "xdr_int_internal xs u = Some (True, skip_bytes 4 xs, v)"
  using assms check_bytes_iff [OF assms(1), of 4] xload_ahead [OF assms(1,3), of 4] advance_skip [of xs 4]
    stream_ok_skip(2) [OF assms(1,3)]
  by (simp add: xdr_int_internal_def)

interpretation int_filter: xdr_filter xdr_int_internal be32 "\<lambda>_. True"
  by unfold_locales (simp_all add: int_encodes int_decodes)

interpretation uint_filter: xdr_filter xdr_uint be32 "\<lambda>_. True"
  by unfold_locales (simp_all add: xdr_uint_def int_encodes int_decodes)

interpretation bool_filter: xdr_filter xdr_bool be32 "\<lambda>v. v = 0 \<or> v = 1"
  by unfold_locales (auto simp: xdr_bool_def int_encodes int_decodes)

interpretation double_filter: xdr_filter xdr_double "\<lambda>(a, b). be32 a @ be32 b" "\<lambda>_. True"
proof unfold_locales
  fix xs and v :: "u32 \<times> u32"
  assume ok: "stream_ok xs" and op: "xop xs = XDR_ENCODE" and fit: "fits xs (length (case v of (a, b) \<Rightarrow> be32 a @ be32 b))"
  obtain a b where v: "v = (a, b)" by fastforce
  have f: "fits xs 4" "fits xs (length (be32 a) + 4)" using fit v by (auto simp: fits_def)
  note p = put_bytes_props [OF ok, of "be32 a"]
  have "xdr_int_internal (put_bytes (be32 a) xs) b = Some (True, put_bytes (be32 b) (put_bytes (be32 a) xs), b)"
    by (rule int_encodes) (use p f fits_put [OF ok f(2)] op in simp_all)
  then show "xdr_double xs v = Some (True, put_bytes (case v of (a, b) \<Rightarrow> be32 a @ be32 b) xs, v)"
    using int_encodes [OF ok op f(1), of a] put_put [OF ok, of "be32 a" "be32 b"] f(2) by (simp add: xdr_double_def v)
next
  fix xs and v u :: "u32 \<times> u32"
  assume ok: "stream_ok xs" and op: "xop xs = XDR_DECODE" and fit: "fits xs (length (case v of (a, b) \<Rightarrow> be32 a @ be32 b))"
    and ah: "ahead (length (case v of (a, b) \<Rightarrow> be32 a @ be32 b)) xs = (case v of (a, b) \<Rightarrow> be32 a @ be32 b)"
  obtain a b where v: "v = (a, b)" by fastforce
  have f: "fits xs 4" "fits xs (4 + 4)" using fit v by (auto simp: fits_def)
  have a: "ahead 4 xs = be32 a" "ahead 4 (skip_bytes 4 xs) = be32 b"
    using ah ahead_split [OF ok, of "be32 a" "be32 b"] f(2) by (simp_all add: v)
  have "xdr_int_internal (skip_bytes 4 xs) (snd u) = Some (True, skip_bytes 4 (skip_bytes 4 xs), b)"
    by (rule int_decodes) (use stream_ok_skip [OF ok f(1)] op fits_skip [OF ok f(2)] a in simp_all)
  then show "xdr_double xs u = Some (True, skip_bytes (length (case v of (a, b) \<Rightarrow> be32 a @ be32 b)) xs, v)"
    using int_decodes [OF ok op f(1) a(1), of "fst u"] by (simp add: xdr_double_def v skip_skip)
qed

context xdr_filter
begin

text \<open>The counted array: the count, then the elements.\<close>

lemma array_encodes:
  assumes "stream_ok xs" "xop xs = XDR_ENCODE" "\<forall>v \<in> set vs. ok v" "fits xs (4 + length (concat (map enc vs)))"
    "of_nat (length vs) \<le> maxsize" "length vs < 2 ^ 32"
  shows "xdr_array f xs vs maxsize room fill = Some (True, put_bytes (be32 (of_nat (length vs)) @ concat (map enc vs)) xs, vs)"
proof -
  let ?n = "be32 (of_nat (length vs))"
  have f4: "fits xs 4" and f4': "fits xs (length ?n + length (concat (map enc vs)))" using assms(4) by (simp_all add: fits_def)
  have "xdr_uint xs (of_nat (length vs)) = Some (True, put_bytes ?n xs, of_nat (length vs))"
    using int_encodes [OF assms(1,2) f4] by (simp add: xdr_uint_def)
  moreover have "xdr_vector f (put_bytes ?n xs) vs = Some (True, put_bytes (concat (map enc vs)) (put_bytes ?n xs), vs)"
    by (rule vector_encodes) (use assms f4 put_bytes_props [OF assms(1), of ?n] fits_put [OF assms(1) f4'] in auto)
  moreover have "\<not> maxsize < of_nat (length vs)" using assms(5) by simp
  ultimately show ?thesis using assms(2) put_put [OF assms(1) f4'] by (simp add: xdr_array_def Let_def)
qed

lemma array_decodes:
  assumes "stream_ok xs" "xop xs = XDR_DECODE" "\<forall>v \<in> set vs. ok v" "fits xs (4 + length (concat (map enc vs)))"
    "ahead (4 + length (concat (map enc vs))) xs = be32 (of_nat (length vs)) @ concat (map enc vs)"
    "of_nat (length vs) \<le> maxsize" "length vs < 2 ^ 32" "length vs \<le> room"
  shows "xdr_array f xs us maxsize (Some room) fill = Some (True, skip_bytes (4 + length (concat (map enc vs))) xs, vs)"
proof -
  let ?n = "be32 (of_nat (length vs))"
  have f4: "fits xs 4" and f4': "fits xs (length ?n + length (concat (map enc vs)))" using assms(4) by (simp_all add: fits_def)
  have a: "ahead 4 xs = ?n" "ahead (length (concat (map enc vs))) (skip_bytes 4 xs) = concat (map enc vs)"
    using assms(5) ahead_split [OF assms(1) f4'] by simp_all
  have un: "unat (of_nat (length vs) :: u32) = length vs" using assms(7) by (intro unat_of_nat_len) simp
  have "xdr_uint xs 0 = Some (True, skip_bytes 4 xs, of_nat (length vs))"
    using int_decodes [OF assms(1,2) f4 a(1)] by (simp add: xdr_uint_def)
  moreover have "xdr_vector f (skip_bytes 4 xs) (replicate (length vs) fill) =
      Some (True, skip_bytes (length (concat (map enc vs))) (skip_bytes 4 xs), vs)"
    by (rule vector_decodes) (use assms f4 a stream_ok_skip [OF assms(1) f4] fits_skip [OF assms(1), of 4] f4' in auto)
  moreover have "\<not> maxsize < of_nat (length vs)" using assms(6) by simp
  ultimately show ?thesis using assms(2,8) by (simp add: xdr_array_def Let_def un skip_skip min_def)
qed

text \<open>So the array of a well-behaved element type is well-behaved itself.\<close>

lemma array_filter:
  "xdr_filter (\<lambda>xs vs. xdr_array f xs vs maxsize (Some room) fill) (\<lambda>vs. be32 (of_nat (length vs)) @ concat (map enc vs))
     (\<lambda>vs. (\<forall>v \<in> set vs. ok v) \<and> of_nat (length vs) \<le> maxsize \<and> length vs < 2 ^ 32 \<and> length vs \<le> room)"
  by unfold_locales (simp_all add: array_encodes array_decodes)

text \<open>What is encoded into an empty buffer with room for it is decoded from that buffer.\<close>

lemma filter_roundtrip:
  assumes "ok v" "length (enc v) \<le> length buf" "length buf \<le> 2 ^ 31"
  shows "\<exists>xs ys. f (xdr_init buf (of_nat (length buf)) XDR_ENCODE) v = Some (True, xs, v) \<and>
    f (xdr_init (xdata xs) (xbuflen xs) XDR_DECODE) u = Some (True, ys, v) \<and> xdr_getpos ys = xdr_getpos xs"
proof -
  let ?xs = "xdr_init buf (of_nat (length buf)) XDR_ENCODE" and ?ys = "put_bytes (enc v) (xdr_init buf (of_nat (length buf)) XDR_ENCODE)"
  let ?zs = "xdr_init (xdata ?ys) (xbuflen ?ys) XDR_DECODE"
  have ok1: "stream_ok ?xs" "fits ?xs (length (enc v))" using assms(2,3) by (simp_all add: stream_ok_init fits_init)
  note p = put_bytes_props [OF ok1]
  have bl: "xbuflen ?ys = of_nat (length buf)" "xpos ?xs = 0" "xdata ?xs = buf"
    by (simp_all add: put_bytes_def skip_bytes_def xdr_init_def)
  have d: "xdata ?ys = splice 0 (enc v) buf" "length (xdata ?ys) = length buf" using p(3,5) by (simp_all add: bl)
  have ok2: "stream_ok ?zs" "fits ?zs (length (enc v))"
    using assms(2,3) d(2) stream_ok_init [of "xdata ?ys"] by (simp_all add: fits_init bl(1))
  have "f ?xs v = Some (True, ?ys, v)" by (rule encodes) (use ok1 assms in \<open>simp_all add: xdr_init_def\<close>)
  moreover have "ahead (length (enc v)) ?zs = enc v"
    unfolding d(1) using assms(2) by (simp add: ahead_def xdr_init_def splice_def)
  then have "f ?zs u = Some (True, skip_bytes (length (enc v)) ?zs, v)"
    by (intro decodes) (use ok2 assms in \<open>simp_all add: xdr_init_def\<close>)
  moreover have "xdr_getpos (skip_bytes (length (enc v)) ?zs) = xdr_getpos ?ys"
    by (simp add: xdr_getpos_def put_bytes_def skip_bytes_def xdr_init_def)
  ultimately show ?thesis by blast
qed

end

subsection \<open>Counted bytes\<close>

lemma unat_rndup:
  assumes "unat n \<le> 2 ^ 31"
  shows "unat (rndup n) = 4 * ((unat n + 3) div 4)"
proof -
  have u: "unat (n + 3) = unat n + 3" using assms by (subst unat_add_no_wrap) auto
  have m: "(3 :: u32) = mask 2" by (simp add: mask_eq_exp_minus_1)
  have "rndup n = (n + 3) - take_bit 2 (n + 3)"
    using and_not_split [of "n + 3" "mask 2"] unfolding rndup_def m by (simp add: take_bit_eq_mask algebra_simps)
  moreover have "unat (take_bit 2 (n + 3)) = (unat n + 3) mod 4" by (simp add: unat_take_bit u)
  moreover from this have "take_bit 2 (n + 3) \<le> n + 3" by (simp add: word_le_nat_alt u)
  ultimately have "unat (rndup n) = unat n + 3 - (unat n + 3) mod 4" by (simp add: unat_diff_le u)
  then show ?thesis by (simp add: minus_mod_eq_mult_div)
qed

definition pad :: "bytes \<Rightarrow> bytes" where
  "pad bs = bs @ replicate (4 * ((length bs + 3) div 4) - length bs) 0"

lemma length_pad: "length (pad bs) = 4 * ((length bs + 3) div 4)"
  by (simp add: pad_def)

lemma rndup_len:
  assumes "length bs \<le> 2 ^ 31 - 4"
  shows "unat (rndup (of_nat (length bs))) = length (pad bs)" "rndup (of_nat (length bs)) = of_nat (length (pad bs))"
    "unat (of_nat (length bs) :: u32) = length bs" "length (pad bs) \<le> 2 ^ 31 - 1" "length bs \<le> length (pad bs)"
proof -
  show u: "unat (of_nat (length bs) :: u32) = length bs" using assms by (intro unat_of_nat_len) simp
  show r: "unat (rndup (of_nat (length bs))) = length (pad bs)" using assms u by (subst unat_rndup) (simp_all add: length_pad)
  show "rndup (of_nat (length bs)) = of_nat (length (pad bs))" unfolding r [symmetric] by simp
  show "length (pad bs) \<le> 2 ^ 31 - 1" "length bs \<le> length (pad bs)" using assms by (simp_all add: length_pad)
qed

lemma put_padded_pad:
  assumes ok: "stream_ok xs" and len: "length bs \<le> 2 ^ 31 - 4" and fit: "fits xs (length (pad bs))"
  shows "put_padded (skip_bytes (length (pad bs)) xs) (xcur xs) bs (rndup (of_nat (length bs))) = Some (put_bytes (pad bs) xs)"
proof -
  note r = rndup_len [OF len]
  define z where "z = length (pad bs) - length bs"
  have z: "pad bs = bs @ replicate z 0" "length bs + z = length (pad bs)" using r(5) by (simp_all add: pad_def z_def length_pad)
  have "(rndup (of_nat (length bs)) :: u32) - of_nat (length bs) = of_nat z"
    unfolding r(2) using r(5) by (simp add: z_def of_nat_diff)
  moreover have "unat (of_nat z :: u32) = z" using r(4) by (intro unat_of_nat_len) (simp add: z_def)
  ultimately have zn: "unat (rndup (of_nat (length bs)) - of_nat (length bs)) = z" by simp
  have cur: "xcur xs = xpos xs" using ok by (simp add: stream_ok_def)
  have up: "unat (xpos xs + of_nat (length bs)) = unat (xpos xs) + length bs"
    by (rule unat_pos_add [OF ok]) (use fit r(5) in \<open>simp add: fits_def\<close>)
  have sp: "splice (unat (xpos xs) + length bs) (replicate z 0) (splice (unat (xpos xs)) bs (xdata xs)) =
      splice (unat (xpos xs)) (pad bs) (xdata xs)"
    unfolding z(1) by (rule splice_splice) (use fit z(2) in \<open>simp add: fits_def\<close>)
  show ?thesis
    using fit z(2) up sp unfolding put_padded_def zn
    by (simp add: xstore_def skip_bytes_def cur fits_def put_bytes_def)
qed

text \<open>The counted, padded encoding that byte strings and character strings share.\<close>

definition counted :: "bytes \<Rightarrow> bytes" where
  "counted bs = be32 (of_nat (length bs)) @ pad bs"

lemma length_counted: "length (counted bs) = 4 + length (pad bs)"
  by (simp add: counted_def)

lemma counted_put:
  assumes ok: "stream_ok xs" and op: "xop xs = XDR_ENCODE" and len: "length bs \<le> 2 ^ 31 - 4" and fit: "fits xs (length (counted bs))"
  defines "xs1 \<equiv> put_bytes (be32 (of_nat (length bs))) xs"
  shows "xdr_uint xs (of_nat (length bs)) = Some (True, xs1, of_nat (length bs))"
    "xdr_check_bytes xs1 (rndup (of_nat (length bs)))" "xop xs1 = XDR_ENCODE"
    "xdr_advance xs1 (rndup (of_nat (length bs))) = (xcur xs1, skip_bytes (length (pad bs)) xs1)"
    "xop (skip_bytes (length (pad bs)) xs1) = XDR_ENCODE"
    "put_padded (skip_bytes (length (pad bs)) xs1) (xcur xs1) bs (rndup (of_nat (length bs))) = Some (put_bytes (counted bs) xs)"
proof -
  note r = rndup_len [OF len]
  have f: "fits xs 4" "fits xs (length (be32 (of_nat (length bs))) + length (pad bs))" using fit by (simp_all add: fits_def length_counted)
  note p = put_bytes_props [OF ok, of "be32 (of_nat (length bs))", folded xs1_def]
  have ok1: "stream_ok xs1" "fits xs1 (length (pad bs))" using p f fits_put [OF ok f(2)] by (simp_all add: xs1_def)
  show "xdr_uint xs (of_nat (length bs)) = Some (True, xs1, of_nat (length bs))"
    using int_encodes [OF ok op f(1)] by (simp add: xdr_uint_def xs1_def)
  show "xdr_check_bytes xs1 (rndup (of_nat (length bs)))"
    using check_bytes_iff [OF ok1(1), of "rndup (of_nat (length bs))"] ok1(2) r by simp
  show op1: "xop xs1 = XDR_ENCODE" using p f op by simp
  show "xdr_advance xs1 (rndup (of_nat (length bs))) = (xcur xs1, skip_bytes (length (pad bs)) xs1)"
    unfolding r(2) by (rule advance_skip)
  show "xop (skip_bytes (length (pad bs)) xs1) = XDR_ENCODE" using op1 by (simp add: skip_bytes_def)
  show "put_padded (skip_bytes (length (pad bs)) xs1) (xcur xs1) bs (rndup (of_nat (length bs))) = Some (put_bytes (counted bs) xs)"
    using put_padded_pad [OF ok1(1) len ok1(2)] put_put [OF ok f(2)] by (simp add: counted_def xs1_def)
qed

lemma counted_get:
  assumes ok: "stream_ok xs" and op: "xop xs = XDR_DECODE" and len: "length bs \<le> 2 ^ 31 - 4" and fit: "fits xs (length (counted bs))"
    and ah: "ahead (length (counted bs)) xs = counted bs"
  defines "xs1 \<equiv> skip_bytes 4 xs"
  shows "xdr_uint xs 0 = Some (True, xs1, of_nat (length bs))"
    "xdr_check_bytes xs1 (rndup (of_nat (length bs)))" "xop xs1 = XDR_DECODE"
    "xdr_advance xs1 (rndup (of_nat (length bs))) = (xcur xs1, skip_bytes (length (pad bs)) xs1)"
    "xop (skip_bytes (length (pad bs)) xs1) = XDR_DECODE"
    "xload (skip_bytes (length (pad bs)) xs1) (xcur xs1) (length bs) = Some bs"
    "skip_bytes (length (pad bs)) xs1 = skip_bytes (length (counted bs)) xs"
proof -
  note r = rndup_len [OF len]
  have f: "fits xs 4" "fits xs (length (be32 (of_nat (length bs))) + length (pad bs))" using fit by (simp_all add: fits_def length_counted)
  have a: "ahead 4 xs = be32 (of_nat (length bs))" "ahead (length (pad bs)) xs1 = pad bs"
    using ah ahead_split [OF ok f(2)] by (simp_all add: length_counted counted_def xs1_def)
  have ok1: "stream_ok xs1" "fits xs1 (length (pad bs))"
    using stream_ok_skip [OF ok f(1)] fits_skip [OF ok, of 4] f(2) by (simp_all add: xs1_def)
  show "xdr_uint xs 0 = Some (True, xs1, of_nat (length bs))"
    using int_decodes [OF ok op f(1) a(1)] by (simp add: xdr_uint_def xs1_def)
  show "xdr_check_bytes xs1 (rndup (of_nat (length bs)))"
    using check_bytes_iff [OF ok1(1), of "rndup (of_nat (length bs))"] ok1(2) r by simp
  show op1: "xop xs1 = XDR_DECODE" using stream_ok_skip(2) [OF ok f(1)] op by (simp add: xs1_def)
  show "xdr_advance xs1 (rndup (of_nat (length bs))) = (xcur xs1, skip_bytes (length (pad bs)) xs1)"
    unfolding r(2) by (rule advance_skip)
  show "xop (skip_bytes (length (pad bs)) xs1) = XDR_DECODE" using op1 by (simp add: skip_bytes_def)
  have "ahead (length bs) xs1 = take (length bs) (ahead (length (pad bs)) xs1)" using r(5) by (simp add: ahead_def min_def)
  then have "ahead (length bs) xs1 = bs" unfolding a(2) by (simp add: pad_def)
  then show "xload (skip_bytes (length (pad bs)) xs1) (xcur xs1) (length bs) = Some bs"
    using xload_ahead [OF ok1 r(5)] by simp
  show "skip_bytes (length (pad bs)) xs1 = skip_bytes (length (counted bs)) xs" by (simp add: xs1_def skip_skip length_counted)
qed

lemma bytes_encodes:
  assumes "stream_ok xs" "xop xs = XDR_ENCODE" "length bs \<le> 2 ^ 31 - 4" "fits xs (length (counted bs))" "of_nat (length bs) \<le> maxsize"
  shows "xdr_bytes xs bs maxsize = Some (True, put_bytes (counted bs) xs, bs)"
  using counted_put [OF assms(1-4)] assms(2,5) by (simp add: xdr_bytes_def leD)

lemma bytes_decodes:
  assumes "stream_ok xs" "xop xs = XDR_DECODE" "length bs \<le> 2 ^ 31 - 4" "fits xs (length (counted bs))"
    "ahead (length (counted bs)) xs = counted bs" "of_nat (length bs) \<le> maxsize"
  shows "xdr_bytes xs u maxsize = Some (True, skip_bytes (length (counted bs)) xs, bs)"
  using counted_get [OF assms(1-5)] rndup_len(3) [OF assms(3)] assms(2,6) by (simp add: xdr_bytes_def leD)

lemma string_encodes:
  assumes "stream_ok xs" "xop xs = XDR_ENCODE" "length str < 2 ^ 31 - 4" "fits xs (length (counted (str @ [0])))" "of_nat (length str) < maxsize"
  shows "xdr_string xs str maxsize = Some (True, put_bytes (counted (str @ [0])) xs, str)"
proof -
  have l: "length (str @ [0]) \<le> 2 ^ 31 - 4" using assms(3) by simp
  have n: "(of_nat (length str) + 1 :: u32) = of_nat (length (str @ [0]))" by simp
  show ?thesis using counted_put [OF assms(1,2) l assms(4)] assms(2,5) unfolding xdr_string_def Let_def n by (simp del: length_append of_nat_Suc of_nat_add)
qed

lemma string_decodes:
  assumes "stream_ok xs" "xop xs = XDR_DECODE" "length str < 2 ^ 31 - 4" "fits xs (length (counted (str @ [0])))"
    "ahead (length (counted (str @ [0]))) xs = counted (str @ [0])" "of_nat (length str) < maxsize" "0 \<notin> set str"
  shows "xdr_string xs u maxsize = Some (True, skip_bytes (length (counted (str @ [0]))) xs, str)"
proof -
  let ?s = "str @ [0]" and ?xs = "skip_bytes 4 xs"
  have l: "length ?s \<le> 2 ^ 31 - 4" using assms(3) by simp
  note g = counted_get [OF assms(1,2) l assms(4,5)] and r = rndup_len [OF l]
  have u: "unat (of_nat (length str) :: u32) = length str" using assms(3) by (intro unat_of_nat_len) simp
  have le: "(of_nat (length ?s) :: u32) \<le> maxsize" "(of_nat (length ?s) :: u32) \<noteq> 0"
    using assms(6) u r(3) by (auto simp: word_le_nat_alt word_less_nat_alt simp flip: unat_0_iff)
  have "take (length ?s) (drop (unat (xcur ?xs)) (xdata ?xs)) = ?s"
    using g(6) by (simp add: xload_def skip_bytes_def split: if_splits)
  then obtain rest where "drop (unat (xcur ?xs)) (xdata ?xs) = ?s @ rest" by (metis append_take_drop_id)
  then have "takeWhile (\<lambda>b. b \<noteq> 0) (drop (unat (xcur ?xs)) (xdata ?xs)) = str"
    using assms(7) takeWhile_append2 [of str "\<lambda>b. b \<noteq> 0" "0 # rest"] by fastforce
  moreover have "xdata (skip_bytes (length (pad ?s)) ?xs) = xdata ?xs" by (simp add: skip_bytes_def)
  ultimately show ?thesis
    using g le assms(2) unfolding xdr_string_def by (simp del: length_append of_nat_Suc of_nat_add)
qed

interpretation bytes_filter: xdr_filter "\<lambda>xs bs. xdr_bytes xs bs maxsize" counted
  "\<lambda>bs. length bs \<le> 2 ^ 31 - 4 \<and> of_nat (length bs) \<le> maxsize" for maxsize
  by unfold_locales (simp_all add: bytes_encodes bytes_decodes)

interpretation string_filter: xdr_filter "\<lambda>xs str. xdr_string xs str maxsize" "\<lambda>str. counted (str @ [0])"
  "\<lambda>str. length str < 2 ^ 31 - 4 \<and> of_nat (length str) < maxsize \<and> 0 \<notin> set str" for maxsize
  by unfold_locales (simp_all add: string_encodes string_decodes del: One_nat_def)

interpretation strings_filter: xdr_filter "\<lambda>xs strs. xdr_array (\<lambda>xs str. xdr_string xs str smax) xs strs maxsize (Some room) fill"
  "\<lambda>strs. be32 (of_nat (length strs)) @ concat (map (\<lambda>str. counted (str @ [0])) strs)"
  "\<lambda>strs. (\<forall>str \<in> set strs. length str < 2 ^ 31 - 4 \<and> of_nat (length str) < smax \<and> 0 \<notin> set str) \<and>
     of_nat (length strs) \<le> maxsize \<and> length strs < 2 ^ 32 \<and> length strs \<le> room" for smax maxsize room fill
  by (rule string_filter.array_filter)

subsection \<open>Decoding arbitrary bytes\<close>

text \<open>
  A decoder must cope with any buffer. It keeps the stream well formed, changes none of its bytes, only moves forward, and
  makes no access outside the buffer, whether it accepts the bytes or not.
\<close>

definition decoded_ok :: "XDR \<Rightarrow> 'a xdr_result \<Rightarrow> bool" where
  "decoded_ok xs r = (case r of None \<Rightarrow> False
     | Some (_, ys, _) \<Rightarrow> stream_ok ys \<and> xop ys = XDR_DECODE \<and> xdata ys = xdata xs \<and> xpos xs \<le> xpos ys)"

lemma decoded_ok_stay: "stream_ok xs \<Longrightarrow> xop xs = XDR_DECODE \<Longrightarrow> decoded_ok xs (Some (r, xs, v))"
  by (simp add: decoded_ok_def)

lemma decoded_ok_skip: "stream_ok xs \<Longrightarrow> xop xs = XDR_DECODE \<Longrightarrow> fits xs n \<Longrightarrow> decoded_ok xs (Some (r, skip_bytes n xs, v))"
  using stream_ok_skip [of xs n] by (simp add: decoded_ok_def word_le_nat_alt)

lemma decoded_ok_bind:
  assumes "decoded_ok xs r"
    and "\<And>ok ys v. stream_ok ys \<Longrightarrow> xop ys = XDR_DECODE \<Longrightarrow> xdata ys = xdata xs \<Longrightarrow> r = Some (ok, ys, v) \<Longrightarrow> decoded_ok ys (g (ok, ys, v))"
  shows "decoded_ok xs (Option.bind r g)"
proof (cases r)
  case (Some a)
  obtain ok ys v where a: "a = (ok, ys, v)" by (cases a)
  have ys: "stream_ok ys" "xop ys = XDR_DECODE" "xdata ys = xdata xs" "xpos xs \<le> xpos ys"
    using assms(1) by (simp_all add: Some a decoded_ok_def)
  have "decoded_ok ys (g (ok, ys, v))" using assms(2) [OF ys(1-3)] by (simp add: Some a)
  then show ?thesis using ys by (fastforce simp: Some a decoded_ok_def split: option.splits intro: order_trans)
qed (use assms in \<open>simp add: decoded_ok_def\<close>)

lemma decoded_ok_map [simp]: "decoded_ok xs (map_option (\<lambda>(ok, ys, v). (h ok v, ys, k ok v)) r) = decoded_ok xs r"
  by (cases r) (auto simp: decoded_ok_def)

locale safe_decoder =
  fixes f :: "XDR \<Rightarrow> 'a \<Rightarrow> 'a xdr_result"
  assumes safe: "stream_ok xs \<Longrightarrow> xop xs = XDR_DECODE \<Longrightarrow> decoded_ok xs (f xs v)"
begin

lemma vector_safe: "stream_ok xs \<Longrightarrow> xop xs = XDR_DECODE \<Longrightarrow> decoded_ok xs (xdr_vector f xs vs)"
proof (induction vs arbitrary: xs)
  case Nil
  then show ?case by (simp add: decoded_ok_stay)
next
  case (Cons v vs)
  show ?case unfolding xdr_vector.simps
    by (rule decoded_ok_bind [OF safe [OF Cons.prems]])
      (use Cons.IH decoded_ok_map [of _ "\<lambda>ok _. ok"] in \<open>auto simp: decoded_ok_stay\<close>)
qed

end

lemma uint_safe:
  assumes "stream_ok xs" "xop xs = XDR_DECODE"
  shows "decoded_ok xs (xdr_uint xs v)"
proof (cases "fits xs 4")
  case True
  then show ?thesis
    using assms check_bytes_iff [OF assms(1), of 4] xload_ahead [OF assms(1) True, of 4] advance_skip [of xs 4]
      stream_ok_skip(2) [OF assms(1) True] decoded_ok_skip [OF assms True]
    by (simp add: xdr_uint_def xdr_int_internal_def)
qed (use assms check_bytes_iff [OF assms(1), of 4] in \<open>simp add: xdr_uint_def xdr_int_internal_def decoded_ok_stay\<close>)

text \<open>The reservation of a rounded length that is not close to the end of the number range.\<close>

lemma reserve:
  assumes "stream_ok xs" "unat len \<le> 2 ^ 31 - 4" "xdr_check_bytes xs (rndup len)"
  obtains n where "fits xs n" "unat len \<le> n" "xdr_advance xs (rndup len) = (xcur xs, skip_bytes n xs)"
proof
  let ?n = "unat (rndup len)"
  have r: "?n = 4 * ((unat len + 3) div 4)" using assms(2) by (intro unat_rndup) simp
  then show "fits xs ?n" using check_bytes_iff [OF assms(1), of "rndup len"] assms(2,3) by simp
  show "unat len \<le> ?n" unfolding r by simp
  show "xdr_advance xs (rndup len) = (xcur xs, skip_bytes ?n xs)" using advance_skip [of xs ?n] by simp
qed

lemma counted_safe:
  assumes xs: "stream_ok xs" "xop xs = XDR_DECODE"
    and bad: "\<And>len. \<not> bad len \<Longrightarrow> unat len \<le> 2 ^ 31 - 4"
    and h: "\<And>ys n len. stream_ok ys \<Longrightarrow> xop ys = XDR_DECODE \<Longrightarrow> fits ys n \<Longrightarrow> unat len \<le> n \<Longrightarrow>
      decoded_ok ys (h len (xcur ys) (skip_bytes n ys))"
  shows "decoded_ok xs (Option.bind (xdr_uint xs 0) (\<lambda>(ok, xs1, len).
    if \<not> ok then Some (False, xs1, v) else if bad len then Some (False, xs1, v)
    else if \<not> xdr_check_bytes xs1 (rndup len) then Some (False, xs1, v)
    else case xdr_advance xs1 (rndup len) of (p, xs2) \<Rightarrow> h len p xs2))"
proof (rule decoded_ok_bind [OF uint_safe [OF xs]], unfold prod.case)
  fix ok ys len
  assume ys: "stream_ok ys" "xop ys = XDR_DECODE"
  show "decoded_ok ys (if \<not> ok then Some (False, ys, v) else if bad len then Some (False, ys, v)
      else if \<not> xdr_check_bytes ys (rndup len) then Some (False, ys, v)
      else case xdr_advance ys (rndup len) of (p, xs2) \<Rightarrow> h len p xs2)"
  proof (cases "ok \<and> \<not> bad len \<and> xdr_check_bytes ys (rndup len)")
    case True
    then obtain n where n: "fits ys n" "unat len \<le> n" "xdr_advance ys (rndup len) = (xcur ys, skip_bytes n ys)"
      using reserve [OF ys(1) bad] by blast
    show ?thesis using True n h [OF ys n(1,2)] by simp
  qed (auto simp: decoded_ok_stay ys)
qed

lemma bytes_safe:
  assumes "stream_ok xs" "xop xs = XDR_DECODE" "unat maxsize \<le> 2 ^ 31 - 4"
  shows "decoded_ok xs (xdr_bytes xs v maxsize)"
  by (simp only: xdr_bytes_def Let_def assms(2) xdr_op.simps simp_thms if_False, rule counted_safe [OF assms(1,2)])
    (use assms(3) in \<open>auto simp: not_less word_le_nat_alt xload_ahead decoded_ok_skip\<close>)

lemma string_safe:
  assumes "stream_ok xs" "xop xs = XDR_DECODE" "unat maxsize \<le> 2 ^ 31 - 4"
  shows "decoded_ok xs (xdr_string xs v maxsize)"
  by (simp only: xdr_string_def Let_def assms(2) xdr_op.simps simp_thms if_False, rule counted_safe [OF assms(1,2)])
    (use assms(3) in \<open>auto simp: not_less word_le_nat_alt decoded_ok_skip\<close>)

context safe_decoder
begin

lemma array_safe:
  assumes "stream_ok xs" "xop xs = XDR_DECODE" "unat maxsize \<le> room"
  shows "decoded_ok xs (xdr_array f xs vs maxsize (Some room) fill)"
proof -
  have "decoded_ok ys (if \<not> ok then Some (False, ys, vs) else if len > maxsize then Some (False, ys, vs)
      else Option.bind (xdr_vector f ys (replicate (min (unat len) room) fill)) (\<lambda>(ok2, xs2, ws).
        if ok2 \<and> room < unat len then None else Some (ok2, xs2, ws)))"
    if ys: "stream_ok ys" "xop ys = XDR_DECODE" for ok ys len
  proof (cases "ok \<and> \<not> len > maxsize")
    case True
    then have "unat len \<le> room" using assms(3) by (auto simp: not_less word_le_nat_alt)
    then have "decoded_ok ys (Option.bind (xdr_vector f ys (replicate (min (unat len) room) fill)) (\<lambda>(ok2, xs2, ws).
        if ok2 \<and> room < unat len then None else Some (ok2, xs2, ws)))"
      by (intro decoded_ok_bind [OF vector_safe [OF ys]]) (auto simp: decoded_ok_stay)
    then show ?thesis using True by (simp only: simp_thms if_False)
  qed (auto simp: decoded_ok_stay ys)
  then show ?thesis
    by (simp only: xdr_array_def Let_def assms(2) xdr_op.simps simp_thms if_False if_True option.case)
      (intro decoded_ok_bind [OF uint_safe [OF assms(1,2)]], simp only: prod.case)
qed

end

interpretation uint_decoder: safe_decoder xdr_uint
  by unfold_locales (rule uint_safe)

interpretation string_decoder: safe_decoder "\<lambda>xs str. xdr_string xs str (if smax \<le> 0x7ffffffc then smax else 0)" for smax
  by unfold_locales (rule string_safe, auto simp: word_le_nat_alt)

subsection \<open>Properties\<close>

text \<open>The size of an encoding: the count, and for each string its own count, its bytes, the terminator and the padding.\<close>

definition strings_size :: "bytes list \<Rightarrow> nat" where
  "strings_size strs = 4 + sum_list (map (\<lambda>str. 4 + 4 * ((length str + 4) div 4)) strs)"

lemma length_strings: "length (be32 (of_nat (length strs)) @ concat (map (\<lambda>str. counted (str @ [0])) strs)) = strings_size strs"
  by (simp add: strings_size_def length_concat length_counted length_pad comp_def add.commute)

text \<open>
  Claim C17. An array of strings encoded into a buffer with room for it is decoded again from that buffer: both calls
  succeed, the strings are the ones encoded, and the decoder stops exactly where the encoder did. The strings are shorter than
  their maximum and hold no zero byte, there are at most \<open>maxsize\<close> of them, and the decoder's memory has room for them.
\<close>

theorem xdr_strings_roundtrip:
  assumes "\<forall>str \<in> set strs. length str < 2 ^ 31 - 4 \<and> of_nat (length str) < smax \<and> 0 \<notin> set str"
    and "of_nat (length strs) \<le> maxsize" "length strs < 2 ^ 32" "length strs \<le> room"
    and "strings_size strs \<le> length buf" "length buf \<le> 2 ^ 31"
  shows "\<exists>xs ys. xdr_array (\<lambda>xs str. xdr_string xs str smax) (xdr_init buf (of_nat (length buf)) XDR_ENCODE) strs maxsize (Some room) fill =
      Some (True, xs, strs) \<and>
    xdr_array (\<lambda>xs str. xdr_string xs str smax) (xdr_init (xdata xs) (xbuflen xs) XDR_DECODE) old maxsize (Some room) fill =
      Some (True, ys, strs) \<and> xdr_getpos ys = xdr_getpos xs"
  by (rule strings_filter.filter_roundtrip) (use assms(1-4) in blast, unfold length_strings, fact+)

theorem xdr_strings_roundtrip_witness:
  "(\<exists>xs ys. xdr_array (\<lambda>xs str. xdr_string xs str 8) (xdr_init (replicate 64 1) (of_nat 64) XDR_ENCODE) [[97], [98, 99]] 4 (Some 4) [] =
      Some (True, xs, [[97], [98, 99]]) \<and>
    xdr_array (\<lambda>xs str. xdr_string xs str 8) (xdr_init (xdata xs) (xbuflen xs) XDR_DECODE) [] 4 (Some 4) [] =
      Some (True, ys, [[97], [98, 99]]) \<and> xdr_getpos ys = xdr_getpos xs)"
  using xdr_strings_roundtrip [of "[[97], [98, 99]]" 8 4 4 "replicate 64 1" "[]" "[]"] by (simp add: strings_size_def)

text \<open>
  Claim C18. Decoding an array of strings is safe on every buffer: whatever the bytes say, the call returns without an access
  outside the buffer or the array's memory, leaves the stream well formed and its bytes unchanged, and never moves backwards,
  provided the maximal string length stays below the end of the number range and the memory holds the maximal count.
\<close>

theorem xdr_strings_in_bounds:
  assumes "stream_ok xs" "xop xs = XDR_DECODE" "smax \<le> 0x7ffffffc" "unat maxsize \<le> room"
  shows "decoded_ok xs (xdr_array (\<lambda>xs str. xdr_string xs str smax) xs old maxsize (Some room) fill)"
  using string_decoder.array_safe [OF assms(1,2,4), of smax] assms(3) by simp

theorem xdr_strings_in_bounds_witness:
  "stream_ok (xdr_init [0, 0, 0, 9, 255, 255, 255, 255] 8 XDR_DECODE) \<and>
   decoded_ok (xdr_init [0, 0, 0, 9, 255, 255, 255, 255] 8 XDR_DECODE)
     (xdr_array (\<lambda>xs str. xdr_string xs str 256) (xdr_init [0, 0, 0, 9, 255, 255, 255, 255] 8 XDR_DECODE) [] 16 (Some 16) [])"
proof -
  have "stream_ok (xdr_init [0, 0, 0, 9, 255, 255, 255, 255] 8 XDR_DECODE)" by (simp add: stream_ok_def xdr_init_def)
  then show ?thesis
    using xdr_strings_in_bounds [of "xdr_init [0, 0, 0, 9, 255, 255, 255, 255] 8 XDR_DECODE" 256 16 16]
    by (simp add: xdr_init_def)
qed

text \<open>
  Claim C19. The routine for unsigned short integers does not invert itself: it encodes the value in the low half of
  the word, and decodes the high half, so that every value that is encoded comes back as 0.
\<close>

theorem xdr_ushort_loses:
  assumes "4 \<le> length buf" "length buf \<le> 2 ^ 31"
  shows "\<exists>xs ys. xdr_ushort (xdr_init buf (of_nat (length buf)) XDR_ENCODE) v = Some (True, xs, v) \<and>
    xdr_ushort (xdr_init (xdata xs) (xbuflen xs) XDR_DECODE) u = Some (True, ys, 0)"
proof -
  have z: "drop_bit 16 (ucast v :: u32) = 0" by (rule word_eq_bitI) (auto simp: bit_simps dest: bit_imp_le_length)
  obtain xs ys where "xdr_int_internal (xdr_init buf (of_nat (length buf)) XDR_ENCODE) (ucast v) = Some (True, xs, ucast v)"
    "xdr_int_internal (xdr_init (xdata xs) (xbuflen xs) XDR_DECODE) 0 = Some (True, ys, ucast v)"
    using int_filter.filter_roundtrip [of "ucast v" buf 0] assms by auto
  then show ?thesis using z by (intro exI [of _ xs] exI [of _ ys]) (simp add: xdr_ushort_def xdr_init_def)
qed

theorem xdr_ushort_loses_witness:
  "\<exists>xs ys. xdr_ushort (xdr_init [1, 2, 3, 4] (of_nat 4) XDR_ENCODE) 513 = Some (True, xs, 513) \<and>
    xdr_ushort (xdr_init (xdata xs) (xbuflen xs) XDR_DECODE) 7 = Some (True, ys, 0)"
  using xdr_ushort_loses [of "[1, 2, 3, 4]" 513 7] by simp


end
