(* ===== verification/Netdev.thy ===== *)
theory Netdev
  imports Byteorder
begin

text \<open>
  The network device layer of \<open>kernel/net/device.c\<close> and the routing table of \<open>kernel/net/route.c\<close>, with the state that all the
  network code shares. An interface descriptor is an index into \<open>ifs\<close>; the chain of registered interfaces is the list of the
  indices from its head, which is what it is as long as no descriptor is registered twice. A network buffer is a number, and
  \<open>mbufs\<close> has those that are allocated: each allocation gets a new number, so that a buffer that is used or freed after it was
  freed is not found and the model panics there. The page allocator under it gives a page as long as there is one; what the page holds
  is \<open>junk\<close>.
\<close>

definition MBUF_SIZE :: nat where "MBUF_SIZE = 2048"
definition MAXNETIF :: nat where "MAXNETIF = 16"
definition ETH_ADDR_LEN :: nat where "ETH_ADDR_LEN = 6"
definition NET_ROUTE_TABLE_MAX :: nat where "NET_ROUTE_TABLE_MAX = 128"
definition NET_ARP_CACHE_MAX :: nat where "NET_ARP_CACHE_MAX = 128"

definition IFF_UP :: u32 where "IFF_UP = 0x1"
definition IFF_BROADCAST :: u32 where "IFF_BROADCAST = 0x2"
definition IFF_POINTOPOINT :: u32 where "IFF_POINTOPOINT = 0x10"
definition IFF_LOOPBACK :: u32 where "IFF_LOOPBACK = 0x8"
definition IFF_RUNNING :: u32 where "IFF_RUNNING = 0x40"
definition LINK_STATE_UNKNOWN :: u32 where "LINK_STATE_UNKNOWN = 0"
definition LINK_STATE_DOWN :: u32 where "LINK_STATE_DOWN = 1"
definition LINK_STATE_UP :: u32 where "LINK_STATE_UP = 2"
definition RTF_UP :: u32 where "RTF_UP = 0x1"

text \<open>The output routine of an interface: the loopback's or that of a hardware driver. The input routine: IP, Ethernet, or the one that drops.\<close>

datatype if_driver = Lo_ops | Hw_ops
datatype if_handler = In_ip | In_ether | In_default

record ifnet =
  if_index :: u32
  if_xname :: bytes
  if_mtu :: u32
  if_flags :: u32
  if_linkstate :: u32
  if_addr :: u32
  if_netmask :: u32
  if_hwaddr :: bytes
  if_ops :: "if_driver option"
  if_handle :: "if_handler option"
  if_ipackets :: u32
  if_opackets :: u32
  if_ibytes :: u32
  if_obytes :: u32
  if_ierrors :: u32
  if_oerrors :: u32

record route =
  rt_dst :: u32
  rt_mask :: u32
  rt_gateway :: u32
  rt_src :: u32
  rt_flags :: u32
  rt_ifp :: "nat option"

datatype arp_state = ARP_FREE | ARP_PENDING | ARP_RESOLVED

record arp_entry =
  ae_ip :: u32
  ae_mac :: bytes
  ae_expire :: u32
  ae_state :: arp_state
  ae_ifp :: "nat option"
  ae_pending :: "nat option"

record mbuf =
  mdata :: bytes
  mlen :: u32

text \<open>What the network code hands to the sockets: the addresses and ports in host order and the data.\<close>

record sockaddr_in =
  sin_port :: u16
  s_addr :: u32

datatype net_event =
  Socket_deliver sockaddr_in sockaddr_in bytes
| Socket_deliver_raw sockaddr_in sockaddr_in bytes
| Tcp_input u32 u32 bytes

record net =
  ifs :: "ifnet list"
  if_list :: "nat list"
  if_next_index :: u32
  if_list_poisoned :: bool
  rtab :: "route list"
  arptab :: "arp_entry list"
  ip_next_id :: u16
  net_ticks :: u32
  mbufs :: "nat \<Rightarrow> mbuf option"
  mnext :: nat
  mavail :: nat
  junk :: "nat \<Rightarrow> bytes"
  sent :: "(nat \<times> bytes) list"
  events :: "net_event list"

abbreviation ifp_of :: "net \<Rightarrow> nat \<Rightarrow> ifnet" where "ifp_of s i \<equiv> ifs s ! i"

definition setif :: "nat \<Rightarrow> (ifnet \<Rightarrow> ifnet) \<Rightarrow> net \<Rightarrow> net" where
  "setif i f s = s\<lparr>ifs := (ifs s)[i := f (ifs s ! i)]\<rparr>"

subsection \<open>Network buffers\<close>

definition mbuf_alloc :: "net \<Rightarrow> nat option \<times> net" where
  "mbuf_alloc s =
     (if mavail s = 0 then (None, s)
      else (Some (mnext s), s\<lparr>mbufs := (mbufs s)(mnext s \<mapsto> \<lparr>mdata = junk s (mnext s), mlen = 0\<rparr>),
        mnext := mnext s + 1, mavail := mavail s - 1\<rparr>))"

definition mbuf_free :: "nat \<Rightarrow> net \<Rightarrow> net kres" where
  "mbuf_free m s =
     (if mbufs s m = None then Panic ''double free'' else Ok (s\<lparr>mbufs := (mbufs s)(m := None), mavail := mavail s + 1\<rparr>))"

text \<open>An access through a pointer to a buffer.\<close>

definition with_mbuf :: "nat \<Rightarrow> net \<Rightarrow> (mbuf \<Rightarrow> 'a kres) \<Rightarrow> 'a kres" where
  "with_mbuf m s f = (case mbufs s m of None \<Rightarrow> Panic ''use after free'' | Some b \<Rightarrow> f b)"

definition set_mbuf :: "nat \<Rightarrow> mbuf \<Rightarrow> net \<Rightarrow> net" where
  "set_mbuf m b s = s\<lparr>mbufs := (mbufs s)(m \<mapsto> b)\<rparr>"

subsection \<open>The routing table\<close>

lemma top_bit: "(w :: u32) AND 0x80000000 \<noteq> 0 \<longleftrightarrow> 2 ^ 31 \<le> unat w"
proof -
  have "w AND 0x80000000 \<noteq> 0 \<longleftrightarrow> bit w 31" using and_exp_eq_0_iff_not_bit [of w 31] by simp
  also have "\<dots> \<longleftrightarrow> bit (unat w) 31" by (simp add: bit_unsigned_iff)
  also have "\<dots> \<longleftrightarrow> odd (unat w div 2 ^ 31)" by (simp only: bit_iff_odd)
  also have "\<dots> \<longleftrightarrow> 2 ^ 31 \<le> unat w"
  proof -
    have "unat w div 2 ^ 31 < 2" using unat_bound [of w] by (simp add: div_less_iff_less_mult)
    then have "unat w div 2 ^ 31 = 0 \<or> unat w div 2 ^ 31 = 1" by auto
    moreover have "unat w div 2 ^ 31 = 0 \<longleftrightarrow> unat w < 2 ^ 31" by (simp add: div_eq_0_iff)
    ultimately show ?thesis by auto
  qed
  finally show ?thesis .
qed

lemma shift_top:
  assumes "2 ^ 31 \<le> unat (w :: u32)"
  shows "unat (push_bit 1 w) = 2 * unat w - 2 ^ 32"
proof -
  have "unat (push_bit 1 w) = 2 * unat w mod 2 ^ 32" by (simp add: push_bit_eq_mult unat_word_ariths mult.commute)
  also have "\<dots> = 2 * unat w - 2 ^ 32" using assms unat_bound [of w] by (simp add: mod_if)
  finally show ?thesis .
qed

text \<open>The number of leading one bits, by shifting the mask to the left.\<close>

function mask_prefix_len :: "u32 \<Rightarrow> nat" where
  "mask_prefix_len msk = (if msk AND 0x80000000 \<noteq> 0 then Suc (mask_prefix_len (push_bit 1 msk)) else 0)"
  by pat_completeness auto

termination mask_prefix_len
proof (relation "measure unat", goal_cases)
  case (2 w)
  then have "2 ^ 31 \<le> unat w" using top_bit by blast
  then show ?case using shift_top [of w] unat_bound [of w] by simp
qed simp

definition route_clear :: route where
  "route_clear = \<lparr>rt_dst = 0, rt_mask = 0, rt_gateway = 0, rt_src = 0, rt_flags = 0, rt_ifp = None\<rparr>"

definition route_init :: "net \<Rightarrow> net" where
  "route_init s = s\<lparr>rtab := replicate NET_ROUTE_TABLE_MAX route_clear\<rparr>"

definition route_up :: "route \<Rightarrow> bool" where
  "route_up rt \<longleftrightarrow> rt_flags rt AND RTF_UP \<noteq> 0"

definition route_is :: "nat \<Rightarrow> u32 \<Rightarrow> u32 \<Rightarrow> route \<Rightarrow> bool" where
  "route_is ifp dst msk rt \<longleftrightarrow> rt_ifp rt = Some ifp \<and> rt_dst rt = dst \<and> rt_mask rt = msk"

definition route_add :: "u32 \<Rightarrow> u32 \<Rightarrow> u32 \<Rightarrow> u32 \<Rightarrow> nat option \<Rightarrow> u32 \<Rightarrow> net \<Rightarrow> int \<times> net" where
  "route_add dst msk gateway src ifpo flags s =
     (case ifpo of
        None \<Rightarrow> (-1, s)
      | Some ifp \<Rightarrow>
          (case first_index (\<lambda>rt. route_is ifp dst msk rt \<or> \<not> route_up rt) (rtab s) of
             None \<Rightarrow> (-1, s)
           | Some i \<Rightarrow> (0, s\<lparr>rtab := (rtab s)[i := \<lparr>rt_dst = dst, rt_mask = msk, rt_gateway = gateway, rt_src = src,
               rt_flags = flags OR RTF_UP, rt_ifp = Some ifp\<rparr>]\<rparr>)))"

definition route_delete :: "u32 \<Rightarrow> u32 \<Rightarrow> nat option \<Rightarrow> net \<Rightarrow> int \<times> net" where
  "route_delete dst msk ifpo s =
     (case ifpo of
        None \<Rightarrow> (-1, s)
      | Some ifp \<Rightarrow>
          (case first_index (\<lambda>rt. route_up rt \<and> route_is ifp dst msk rt) (rtab s) of
             None \<Rightarrow> (-1, s)
           | Some i \<Rightarrow> (0, s\<lparr>rtab := (rtab s)[i := route_clear]\<rparr>)))"

text \<open>A route that serves an address: up, over an interface that is up, and equal on the bits of the mask.\<close>

definition route_serves :: "net \<Rightarrow> u32 \<Rightarrow> route \<Rightarrow> bool" where
  "route_serves s dst rt \<longleftrightarrow> route_up rt \<and>
     (case rt_ifp rt of None \<Rightarrow> False | Some i \<Rightarrow> if_flags (ifp_of s i) AND IFF_UP \<noteq> 0) \<and>
     dst AND rt_mask rt = rt_dst rt AND rt_mask rt"

text \<open>The scan keeps the best route so far and its length.\<close>

fun lookup_loop :: "net \<Rightarrow> u32 \<Rightarrow> route list \<Rightarrow> (route \<times> nat) option \<Rightarrow> (route \<times> nat) option" where
  "lookup_loop s dst [] best = best"
| "lookup_loop s dst (rt # rts) best =
     (if \<not> route_serves s dst rt then lookup_loop s dst rts best
      else let rlen = mask_prefix_len (rt_mask rt) in
        case best of
          None \<Rightarrow> lookup_loop s dst rts (Some (rt, rlen))
        | Some (_, bestlen) \<Rightarrow> lookup_loop s dst rts (if rlen > bestlen then Some (rt, rlen) else best))"

text \<open>The interface, with the source address and the gateway of the route; the caller's variables stay as they are without one.\<close>

definition route_lookup :: "u32 \<Rightarrow> net \<Rightarrow> (nat option \<times> u32 \<times> u32) option" where
  "route_lookup dst s = map_option (\<lambda>(rt, _). (rt_ifp rt, rt_src rt, rt_gateway rt)) (lookup_loop s dst (rtab s) None)"

record route_info =
  ri_dst :: u32
  ri_mask :: u32
  ri_gateway :: u32
  ri_src :: u32
  ri_flags :: u32
  ri_index :: u32

definition route_dump :: "int \<Rightarrow> net \<Rightarrow> (int \<times> route_info list)" where
  "route_dump maxn s =
     (if maxn \<le> 0 then (-1, [])
      else let out = map (\<lambda>rt. \<lparr>ri_dst = rt_dst rt, ri_mask = rt_mask rt, ri_gateway = rt_gateway rt, ri_src = rt_src rt,
          ri_flags = rt_flags rt, ri_index = (case rt_ifp rt of None \<Rightarrow> 0 | Some i \<Rightarrow> if_index (ifp_of s i))\<rparr>)
          (take (nat maxn) (filter route_up (rtab s)))
        in (int (length out), out))"

subsection \<open>Interfaces\<close>

text \<open>What registering fills in before it takes the lock: the input routine that drops, and the link state that the flags tell.\<close>

definition if_prepare :: "ifnet \<Rightarrow> ifnet" where
  "if_prepare f =
     (let g = (if if_handle f = None then f\<lparr>if_handle := Some In_default\<rparr> else f) in
      if if_linkstate g = LINK_STATE_UNKNOWN then
        (if if_flags g AND (IFF_UP OR IFF_RUNNING) = IFF_UP OR IFF_RUNNING then g\<lparr>if_linkstate := LINK_STATE_UP\<rparr>
         else if if_flags g AND IFF_UP = 0 then g\<lparr>if_linkstate := LINK_STATE_DOWN\<rparr> else g)
      else g)"

definition if_register :: "nat \<Rightarrow> net \<Rightarrow> int \<times> net" where
  "if_register ifp s =
     (if if_ops (ifp_of s ifp) = None then (-1, s)
      else let s1 = setif ifp if_prepare s in
        if if_next_index s1 = 0 \<or> unat (if_next_index s1) > MAXNETIF then (-1, s1)
        else (0, (setif ifp (\<lambda>f. f\<lparr>if_index := if_next_index s1\<rparr>) s1)
          \<lparr>if_next_index := if_next_index s1 + 1, if_list := ifp # if_list s1\<rparr>))"

definition if_unregister :: "nat \<Rightarrow> net \<Rightarrow> int \<times> net" where
  "if_unregister ifp s =
     (if ifp \<notin> set (if_list s) then (-1, s)
      else
        let old_addr = if_addr (ifp_of s ifp); old_mask = if_netmask (ifp_of s ifp);
          s1 = (setif ifp (\<lambda>f. f\<lparr>if_addr := 0, if_netmask := 0, if_flags := if_flags f AND NOT (IFF_UP OR IFF_RUNNING),
            if_linkstate := LINK_STATE_DOWN\<rparr>) s)\<lparr>if_list := remove1 ifp (if_list s)\<rparr>
        in (0, if old_addr \<noteq> 0 \<and> old_mask \<noteq> 0 then snd (route_delete (old_addr AND old_mask) old_mask (Some ifp) s1) else s1))"

text \<open>A name is its bytes before the terminator; the comparison looks at 16 of them.\<close>

definition if_get :: "bytes \<Rightarrow> net \<Rightarrow> nat option" where
  "if_get name s = find (\<lambda>i. take 16 name = take 16 (if_xname (ifp_of s i))) (if_list s)"

definition if_byindex :: "u32 \<Rightarrow> net \<Rightarrow> nat option" where
  "if_byindex ifindex s = (if ifindex = 0 then None else find (\<lambda>i. if_index (ifp_of s i) = ifindex) (if_list s))"

definition if_first :: "net \<Rightarrow> nat option" where
  "if_first s = (case if_list s of [] \<Rightarrow> None | i # _ \<Rightarrow> Some i)"

definition if_next :: "nat \<Rightarrow> net \<Rightarrow> nat option" where
  "if_next ifp s = (case dropWhile (\<lambda>i. i \<noteq> ifp) (if_list s) of _ # j # _ \<Rightarrow> Some j | _ \<Rightarrow> None)"

definition if_output :: "(nat \<Rightarrow> nat \<Rightarrow> net \<Rightarrow> (int \<times> net) kres) \<Rightarrow> nat \<Rightarrow> nat \<Rightarrow> net \<Rightarrow> (int \<times> net) kres" where
  "if_output out ifp m s =
     (if if_ops (ifp_of s ifp) = None then Ok (-1, s)
      else if if_flags (ifp_of s ifp) AND IFF_UP = 0 then Ok (-1, s)
      else out ifp m s)"

definition if_set_addr :: "nat \<Rightarrow> u32 \<Rightarrow> u32 \<Rightarrow> net \<Rightarrow> int \<times> net" where
  "if_set_addr ifp addr msk s =
     (let old_addr = if_addr (ifp_of s ifp); old_mask = if_netmask (ifp_of s ifp);
        s1 = setif ifp (\<lambda>f. f\<lparr>if_addr := addr, if_netmask := msk\<rparr>) s;
        s2 = (if old_addr \<noteq> 0 \<and> old_mask \<noteq> 0 \<and> (old_addr \<noteq> addr \<or> old_mask \<noteq> msk)
          then snd (route_delete (old_addr AND old_mask) old_mask (Some ifp) s1) else s1)
      in if addr \<noteq> 0 \<and> msk \<noteq> 0 then route_add (addr AND msk) msk 0 addr (Some ifp) RTF_UP s2 else (0, s2))"

definition if_link_state_update :: "nat \<Rightarrow> u32 \<Rightarrow> net \<Rightarrow> net" where
  "if_link_state_update ifp state s =
     setif ifp (\<lambda>f. let g = f\<lparr>if_linkstate := state\<rparr> in
       if state = LINK_STATE_UP then g\<lparr>if_flags := if_flags g OR IFF_RUNNING\<rparr>
       else if state = LINK_STATE_DOWN then g\<lparr>if_flags := if_flags g AND NOT IFF_RUNNING\<rparr> else g) s"

definition if_set_addr_byindex :: "u32 \<Rightarrow> u32 \<Rightarrow> u32 \<Rightarrow> net \<Rightarrow> int \<times> net" where
  "if_set_addr_byindex ifindex addr msk s =
     (case if_byindex ifindex s of None \<Rightarrow> (-1, s) | Some ifp \<Rightarrow> if_set_addr ifp addr msk s)"

text \<open>
  The poll: a snapshot of at most \<open>MAXNETIF\<close> interfaces under the lock, cut off at the first pointer that is not \<open>valid\<close>, then the
  poll routines of those that are up and have one (\<open>polls\<close>).
\<close>

fun poll_snapshot :: "(nat \<Rightarrow> bool) \<Rightarrow> nat \<Rightarrow> nat list \<Rightarrow> nat list \<times> nat option" where
  "poll_snapshot valid n [] = ([], None)"
| "poll_snapshot valid 0 (i # is) = ([], None)"
| "poll_snapshot valid (Suc n) (i # is) =
     (if \<not> valid i then ([], Some 0)
      else case is of [] \<Rightarrow> ([i], None)
        | j # _ \<Rightarrow> if \<not> valid j then ([i], Some 1)
            else (case poll_snapshot valid n is of (snap, cutoff) \<Rightarrow> (i # snap, map_option Suc cutoff)))"

definition netdev_poll :: "(nat \<Rightarrow> bool) \<Rightarrow> (nat \<Rightarrow> bool) \<Rightarrow> net \<Rightarrow> nat list \<times> net" where
  "netdev_poll valid polls s =
     (if if_list_poisoned s then ([], s)
      else case poll_snapshot valid MAXNETIF (if_list s) of (snap, cutoff) \<Rightarrow>
        let s1 = (case cutoff of None \<Rightarrow> s | Some k \<Rightarrow> s\<lparr>if_list_poisoned := True, if_list := take k (if_list s)\<rparr>)
        in (filter (\<lambda>i. polls i \<and> if_flags (ifp_of s i) AND IFF_UP \<noteq> 0) snap, s1))"

record netif_info =
  ni_index :: u32
  ni_name :: bytes
  ni_link_state :: u32
  ni_addr :: u32
  ni_netmask :: u32
  ni_hwaddr :: bytes
  ni_mtu :: u32
  ni_flags :: u32

definition if_dump :: "int \<Rightarrow> net \<Rightarrow> (int \<times> netif_info list)" where
  "if_dump maxn s =
     (if maxn \<le> 0 then (-1, [])
      else let out = map (\<lambda>i. let f = ifp_of s i in \<lparr>ni_index = if_index f, ni_name = take 15 (if_xname f), ni_link_state = if_linkstate f,
          ni_addr = if_addr f, ni_netmask = if_netmask f, ni_hwaddr = if_hwaddr f, ni_mtu = if_mtu f, ni_flags = if_flags f\<rparr>)
          (take (nat maxn) (if_list s))
        in (int (length out), out))"


subsection \<open>Longest prefix\<close>

declare mask_prefix_len.simps [simp del]

text \<open>For a contiguous mask the length is the number of its ones.\<close>

lemma push_contiguous: "n < 32 \<Longrightarrow> push_bit 1 (NOT (mask (31 - n)) :: u32) = NOT (mask (32 - n))"
proof (rule word_eq_bitI)
  fix k :: nat assume "n < 32" "k < LENGTH(32)"
  then show "bit (push_bit 1 (NOT (mask (31 - n)) :: u32)) k = bit (NOT (mask (32 - n)) :: u32) k"
    unfolding bit_push_bit_iff bit_not_iff bit_mask_iff by auto
qed

lemma mask_prefix_len_contiguous: "n \<le> 32 \<Longrightarrow> mask_prefix_len (NOT (mask (32 - n))) = n"
proof (induction n)
  case 0
  have "NOT (mask 32 :: u32) = 0" by (rule word_eq_bitI) (simp add: bit_simps)
  then show ?case by (simp add: mask_prefix_len.simps [of 0])
next
  case (Suc n)
  let ?m = "NOT (mask (31 - n)) :: u32"
  have "bit ?m 31" using Suc.prems by (simp add: bit_simps)
  then have "?m AND 0x80000000 \<noteq> 0" using and_exp_eq_0_iff_not_bit [of ?m 31] by simp
  then have "mask_prefix_len ?m = Suc (mask_prefix_len (push_bit 1 ?m))" by (simp add: mask_prefix_len.simps [of ?m])
  then show ?case using Suc push_contiguous [of n] by simp
qed

lemma find_snoc: "find P (xs @ [y]) = (case find P xs of None \<Rightarrow> if P y then Some y else None | Some x \<Rightarrow> Some x)"
  by (induction xs) auto

text \<open>The reference: the first route among those that serve the address and have the longest prefix.\<close>

definition longest_in :: "net \<Rightarrow> u32 \<Rightarrow> route list \<Rightarrow> route \<Rightarrow> bool" where
  "longest_in s dst rts rt \<longleftrightarrow> route_serves s dst rt \<and>
     (\<forall>r \<in> set rts. route_serves s dst r \<longrightarrow> mask_prefix_len (rt_mask r) \<le> mask_prefix_len (rt_mask rt))"

definition best_in :: "net \<Rightarrow> u32 \<Rightarrow> route list \<Rightarrow> (route \<times> nat) option" where
  "best_in s dst rts = map_option (\<lambda>rt. (rt, mask_prefix_len (rt_mask rt))) (find (longest_in s dst rts) rts)"

lemma best_in_None: "find (longest_in s dst rts) rts = None \<longleftrightarrow> (\<forall>r \<in> set rts. \<not> route_serves s dst r)"
proof
  assume none: "find (longest_in s dst rts) rts = None"
  show "\<forall>r \<in> set rts. \<not> route_serves s dst r"
  proof (rule ccontr)
    let ?l = "\<lambda>r. mask_prefix_len (rt_mask r)"
    assume "\<not> ?thesis"
    then have ne: "filter (route_serves s dst) rts \<noteq> []" by (auto simp: filter_empty_conv)
    let ?S = "set (filter (route_serves s dst) rts)"
    have "Max (?l ` ?S) \<in> ?l ` ?S" by (rule Max_in) (use ne in \<open>auto simp del: set_filter\<close>)
    then obtain r where r: "r \<in> ?S" "?l r = Max (?l ` ?S)" by force
    have "?l q \<le> ?l r" if "q \<in> ?S" for q unfolding r(2) using that by (intro Max_ge) (auto simp del: set_filter)
    then have "longest_in s dst rts r" using r(1) by (simp add: longest_in_def)
    then show False using none r(1) by (auto simp: find_None_iff)
  qed
qed (auto simp: find_None_iff longest_in_def)

lemma best_in_snoc:
  "best_in s dst (rts @ [rt]) =
     (if \<not> route_serves s dst rt then best_in s dst rts
      else case best_in s dst rts of None \<Rightarrow> Some (rt, mask_prefix_len (rt_mask rt))
        | Some (b, bl) \<Rightarrow> if mask_prefix_len (rt_mask rt) > bl then Some (rt, mask_prefix_len (rt_mask rt)) else Some (b, bl))"
proof -
  let ?l = "\<lambda>r. mask_prefix_len (rt_mask r)" and ?P = "longest_in s dst (rts @ [rt])"
  have snoc: "?P r \<longleftrightarrow> longest_in s dst rts r \<and> (route_serves s dst rt \<longrightarrow> ?l rt \<le> ?l r)" for r
    by (auto simp: longest_in_def)
  show ?thesis
  proof (cases "route_serves s dst rt")
    case False
    then have "?P = longest_in s dst rts" by (auto simp: snoc)
    then show ?thesis using False by (auto simp: best_in_def find_snoc longest_in_def split: option.splits)
  next
    case serves: True
    show ?thesis
    proof (cases "find (longest_in s dst rts) rts")
      case None
      then have no: "\<forall>r \<in> set rts. \<not> route_serves s dst r" by (simp add: best_in_None)
      then have "find ?P rts = None" "?P rt" using serves by (auto simp: find_None_iff longest_in_def)
      then show ?thesis using serves None by (simp add: best_in_def find_snoc)
    next
      case (Some b)
      then have b: "b \<in> set rts" "longest_in s dst rts b" by (auto simp: find_Some_iff)
      have eq: "?l r = ?l b" if "longest_in s dst rts r" "r \<in> set rts" for r
        using that b by (meson antisym longest_in_def)
      show ?thesis
      proof (cases "?l rt > ?l b")
        case True
        then have "\<not> ?P r" if "r \<in> set rts" for r using that eq [of r] serves by (auto simp: snoc)
        then have "find ?P rts = None" by (simp add: find_None_iff)
        moreover have "?l r \<le> ?l rt" if "r \<in> set rts" "route_serves s dst r" for r
          using that b(2) True unfolding longest_in_def by fastforce
        then have "?P rt" using serves by (simp add: longest_in_def)
        ultimately show ?thesis using serves Some True by (simp add: best_in_def find_snoc)
      next
        case False
        then have "find ?P rts = find (longest_in s dst rts) rts"
          by (intro find_cong refl) (use eq in \<open>auto simp: snoc\<close>)
        then show ?thesis using serves Some False by (simp add: best_in_def find_snoc)
      qed
    qed
  qed
qed

lemma lookup_loop_best: "lookup_loop s dst rts (best_in s dst scanned) = best_in s dst (scanned @ rts)"
proof (induction rts arbitrary: scanned)
  case (Cons rt rts)
  have "lookup_loop s dst (rt # rts) (best_in s dst scanned) = lookup_loop s dst rts (best_in s dst (scanned @ [rt]))"
    by (simp add: best_in_snoc Let_def split: option.split)
  then show ?case using Cons.IH [of "scanned @ [rt]"] by simp
qed simp

text \<open>
  Claim C12. The routing table answers with the longest prefix: \<open>route_lookup\<close> gives the interface, source and gateway of the first
  route whose prefix is the longest among the routes that are up, over an interface that is up, and match the address; it finds
  none exactly when there is no such route.
\<close>

theorem route_lookup_longest:
  "route_lookup dst s = map_option (\<lambda>rt. (rt_ifp rt, rt_src rt, rt_gateway rt)) (find (longest_in s dst (rtab s)) (rtab s)) \<and>
   (route_lookup dst s = None \<longleftrightarrow> filter (route_serves s dst) (rtab s) = [])"
proof -
  have "lookup_loop s dst (rtab s) None = best_in s dst (rtab s)"
    using lookup_loop_best [of s dst "rtab s" "[]"] by (simp add: best_in_def)
  then show ?thesis using best_in_None [of s dst "rtab s"]
    by (simp add: route_lookup_def best_in_def option.map_comp comp_def case_prod_beta filter_empty_conv)
qed

text \<open>
  Deleting a route need not remove it. \<open>route_add\<close> takes the first slot that is free or already holds the route, so a free slot
  before the route gets a second copy: after adding \<open>a\<close> and \<open>b\<close>, deleting \<open>a\<close>, adding \<open>b\<close> again and deleting \<open>b\<close>, the route \<open>b\<close> is still there
  and up, for every two destinations.
\<close>

theorem route_delete_leaves_copy:
  "a \<noteq> b \<Longrightarrow>
   (let add = (\<lambda>dst s. snd (route_add dst msk gw src (Some ifp) 0 s)); del = (\<lambda>dst s. snd (route_delete dst msk (Some ifp) s))
    in \<exists>rt \<in> set (rtab (del b (add b (del a (add b (add a (route_init s))))))). route_up rt \<and> route_is ifp b msk rt)"
proof -
  assume ab: "a \<noteq> b"
  let ?r = "\<lambda>dst. \<lparr>rt_dst = dst, rt_mask = msk, rt_gateway = gw, rt_src = src, rt_flags = 0 OR RTF_UP, rt_ifp = Some ifp\<rparr>"
  let ?add = "\<lambda>dst s. snd (route_add dst msk gw src (Some ifp) 0 s)" and ?del = "\<lambda>dst s. snd (route_delete dst msk (Some ifp) s)"
  have up: "route_up (?r d)" "\<not> route_up route_clear" "route_is ifp d msk (?r d)" for d
    by (simp_all add: route_up_def RTF_UP_def route_clear_def route_is_def)
  have n: "\<not> route_is ifp b msk (?r a)" "\<not> route_is ifp d msk route_clear" for d using ab by (simp_all add: route_is_def route_clear_def)
  obtain t where t: "rtab (route_init s) = route_clear # route_clear # t"
    by (simp add: route_init_def NET_ROUTE_TABLE_MAX_def numeral_eq_Suc)
  have "rtab (?add a (route_init s)) = ?r a # route_clear # t" using up by (simp add: route_add_def t)
  then have "rtab (?add b (?add a (route_init s))) = ?r a # ?r b # t" using up n by (simp add: route_add_def)
  then have "rtab (?del a (?add b (?add a (route_init s)))) = route_clear # ?r b # t" using up by (simp add: route_delete_def)
  then have "rtab (?add b (?del a (?add b (?add a (route_init s))))) = ?r b # ?r b # t" using up by (simp add: route_add_def)
  then have "rtab (?del b (?add b (?del a (?add b (?add a (route_init s)))))) = route_clear # ?r b # t" using up by (simp add: route_delete_def)
  then show ?thesis using up(1,3) by (simp add: Let_def)
qed

theorem route_delete_leaves_copy_witness:
  "\<exists>s :: net.
   let add = (\<lambda>dst s. snd (route_add dst 0xffffff00 0 0 (Some 0) 0 s)); del = (\<lambda>dst s. snd (route_delete dst 0xffffff00 (Some 0) s))
    in \<exists>rt \<in> set (rtab (del 0x0a000200 (add 0x0a000200 (del 0x0a000100 (add 0x0a000200 (add 0x0a000100 (route_init s))))))).
      route_up rt \<and> route_is 0 0x0a000200 0xffffff00 rt"
  by (rule exI, rule route_delete_leaves_copy [of "0x0a000100" "0x0a000200" "0xffffff00" 0 0 0]) simp

subsection \<open>The interface list\<close>

text \<open>Registered interfaces are known descriptors, each listed once, and their numbers are their own and below the next one.\<close>

definition iflist_ok :: "net \<Rightarrow> bool" where
  "iflist_ok s \<longleftrightarrow> distinct (if_list s) \<and> 0 < unat (if_next_index s) \<and> unat (if_next_index s) \<le> MAXNETIF + 1 \<and>
     (\<forall>i \<in> set (if_list s). i < length (ifs s) \<and> 0 < unat (if_index (ifp_of s i)) \<and> unat (if_index (ifp_of s i)) < unat (if_next_index s)) \<and>
     inj_on (\<lambda>i. if_index (ifp_of s i)) (set (if_list s))"

lemma nth_setif: "i < length (ifs s) \<Longrightarrow> ifp_of (setif i f s) j = (if i = j then f (ifp_of s i) else ifp_of s j)"
  by (auto simp: setif_def nth_list_update)

lemma setif_frame [simp, frame]:
  "if_list (setif i f s) = if_list s" "if_next_index (setif i f s) = if_next_index s" "length (ifs (setif i f s)) = length (ifs s)"
  "rtab (setif i f s) = rtab s" "arptab (setif i f s) = arptab s" "mbufs (setif i f s) = mbufs s" "net_ticks (setif i f s) = net_ticks s"
  "mnext (setif i f s) = mnext s" "mavail (setif i f s) = mavail s" "junk (setif i f s) = junk s" "sent (setif i f s) = sent s"
  "events (setif i f s) = events s" "ip_next_id (setif i f s) = ip_next_id s"
  by (simp_all add: setif_def)

lemma setif_setif: "i < length (ifs s) \<Longrightarrow> setif i g (setif i f s) = setif i (\<lambda>x. g (f x)) s"
  by (simp add: setif_def)

lemma route_delete_frame [simp, frame]:
  "ifs (snd (route_delete dst msk ifpo s)) = ifs s" "if_list (snd (route_delete dst msk ifpo s)) = if_list s"
  "if_next_index (snd (route_delete dst msk ifpo s)) = if_next_index s"
  by (auto simp: route_delete_def split: option.splits)

text \<open>A registration that succeeds gives the interface the next number, under which it is then found.\<close>

lemma if_register_found:
  assumes ok: "iflist_ok s" and new: "ifp < length (ifs s)" "ifp \<notin> set (if_list s)" and r: "if_register ifp s = (0, t)"
  shows "iflist_ok t \<and> if_byindex (if_next_index s) t = Some ifp \<and> if_list t = ifp # if_list s"
proof -
  have lim: "unat (if_next_index s) \<le> MAXNETIF" "if_next_index s \<noteq> 0"
    and t: "t = (setif ifp (\<lambda>f. (if_prepare f)\<lparr>if_index := if_next_index s\<rparr>) s)
      \<lparr>if_next_index := if_next_index s + 1, if_list := ifp # if_list s\<rparr>"
    using r new(1) by (simp_all add: if_register_def Let_def setif_setif split: if_splits)
  have idx: "if_index (ifp_of t j) = (if j = ifp then if_next_index s else if_index (ifp_of s j))" for j
    using new(1) by (simp add: t setif_def nth_list_update)
  have nx: "unat (if_next_index s + 1) = unat (if_next_index s) + 1"
    using lim(1) by (subst unat_add_no_wrap) (simp_all add: MAXNETIF_def)
  have lt: "\<forall>i \<in> set (if_list s). unat (if_index (ifp_of s i)) < unat (if_next_index s)" using ok by (simp add: iflist_ok_def)
  have "inj_on (\<lambda>i. if_index (ifp_of t i)) (set (if_list t))"
    using ok new(2) lt unfolding idx by (auto simp: t iflist_ok_def inj_on_def split: if_splits)
  moreover have "if_list t = ifp # if_list s" "if_next_index t = if_next_index s + 1" "length (ifs t) = length (ifs s)" by (simp_all add: t)
  ultimately have "iflist_ok t"
    using ok new lim lt nx unfolding iflist_ok_def idx by (auto simp: unat_gt_0 intro: less_SucI)
  then show ?thesis using lim(2) idx by (simp add: if_byindex_def t)
qed

text \<open>The numbers are never used again: after \<open>MAXNETIF\<close> registrations no interface can register, even when all have left.\<close>

lemma if_register_exhausted:
  assumes "unat (if_next_index s) > MAXNETIF"
  shows "fst (if_register ifp s) = -1"
  using assms by (simp add: if_register_def Let_def)

lemma if_unregister_ok:
  assumes ok: "iflist_ok s"
  shows "iflist_ok (snd (if_unregister ifp s)) \<and> if_next_index (snd (if_unregister ifp s)) = if_next_index s"
proof (cases "ifp \<in> set (if_list s)")
  case True
  let ?f = "\<lambda>f. f\<lparr>if_addr := 0, if_netmask := 0, if_flags := if_flags f AND NOT (IFF_UP OR IFF_RUNNING), if_linkstate := LINK_STATE_DOWN\<rparr>"
  let ?t = "(setif ifp ?f s)\<lparr>if_list := remove1 ifp (if_list s)\<rparr>"
  have idx: "if_index (ifp_of ?t j) = if_index (ifp_of s j)" for j
    using True ok by (auto simp: iflist_ok_def setif_def nth_list_update)
  have fr: "if_list ?t = remove1 ifp (if_list s)" "if_next_index ?t = if_next_index s" "length (ifs ?t) = length (ifs s)" by simp_all
  have sub: "set (remove1 ifp (if_list s)) \<subseteq> set (if_list s)" by (rule set_remove1_subset)
  have "inj_on (\<lambda>i. if_index (ifp_of s i)) (set (remove1 ifp (if_list s)))"
    using ok by (intro inj_on_subset [OF _ sub]) (simp add: iflist_ok_def)
  then have ok2: "iflist_ok ?t" using ok sub unfolding iflist_ok_def idx fr by (auto simp: distinct_remove1)
  have same: "iflist_ok u" if "ifs u = ifs ?t" "if_list u = if_list ?t" "if_next_index u = if_next_index ?t" for u
    using ok2 that by (simp add: iflist_ok_def)
  show ?thesis using True ok2 by (auto simp: if_unregister_def Let_def intro: same)
qed (use ok in \<open>simp add: if_unregister_def\<close>)

end
