(* ===== verification/Inet.thy ===== *)
theory Inet
  imports Netdev
begin

text \<open>
  The packet paths of \<open>kernel/net\<close>: Ethernet framing (\<open>ethernet.c\<close>), address resolution (\<open>arp.c\<close>), IP (\<open>ip.c\<close>), ICMP
  (\<open>icmp.c\<close>), UDP (\<open>udp.c\<close>) and the loopback interface (\<open>loopback.c\<close>). The routines call the output routine of an interface through its
  pointer: here the argument \<open>out\<close>. It is closed at the end, in \<open>drv_output\<close>, where the loopback's routine feeds the packet back into
  the input path; each such round uses one unit of the kernel stack that \<open>drv_output\<close> counts. A hardware driver takes the frames that
  \<open>hw\<close> says it takes, and a UDP socket those that \<open>accepts\<close> says. A pointer argument that no caller passes as null is the value
  itself. What goes to TCP is recorded and not answered.
\<close>

type_synonym outf = "nat \<Rightarrow> nat \<Rightarrow> net \<Rightarrow> (int \<times> net) kres"
type_synonym sockf = "sockaddr_in \<Rightarrow> sockaddr_in \<Rightarrow> bytes \<Rightarrow> bool"

subsection \<open>Ethernet output\<close>

definition ETHER_HDR_LEN :: nat where "ETHER_HDR_LEN = 14"
definition ETHER_MIN_FRAME :: nat where "ETHER_MIN_FRAME = 60"
definition ETHERTYPE_ARP :: u16 where "ETHERTYPE_ARP = 0x0806"
definition NET_PROTO_IP :: u16 where "NET_PROTO_IP = 0x0800"
definition ether_bcast :: bytes where "ether_bcast = [0xff, 0xff, 0xff, 0xff, 0xff, 0xff]"

definition ether_ipv4_broadcast :: "ifnet \<Rightarrow> u32 \<Rightarrow> bool" where
  "ether_ipv4_broadcast f ip =
     (if ip = 0xffffffff then True
      else if if_addr f = 0 \<or> if_netmask f = 0 then False
      else ip = (if_addr f AND if_netmask f) OR NOT (if_netmask f))"

definition ether_addr_equal :: "bytes \<Rightarrow> bytes \<Rightarrow> bool" where
  "ether_addr_equal a b \<longleftrightarrow> take ETH_ADDR_LEN a = take ETH_ADDR_LEN b"

text \<open>The frame: the data moved up by the length of the header, the header before it, and zeros up to the smallest frame.\<close>

definition ether_frame :: "bytes \<Rightarrow> bytes \<Rightarrow> u16 \<Rightarrow> mbuf \<Rightarrow> mbuf" where
  "ether_frame dst src ty b =
     (let d1 = splice ETHER_HDR_LEN (take (unat (mlen b)) (mdata b)) (mdata b);
        d2 = splice 0 (take ETH_ADDR_LEN dst @ take ETH_ADDR_LEN src @ be16 ty) d1;
        len = unat (mlen b) + ETHER_HDR_LEN
      in if len < ETHER_MIN_FRAME
        then \<lparr>mdata = splice len (replicate (ETHER_MIN_FRAME - len) 0) d2, mlen = of_nat ETHER_MIN_FRAME\<rparr>
        else \<lparr>mdata = d2, mlen = of_nat len\<rparr>)"

definition ether_output :: "outf \<Rightarrow> nat \<Rightarrow> nat \<Rightarrow> bytes \<Rightarrow> u16 \<Rightarrow> net \<Rightarrow> (int \<times> net) kres" where
  "ether_output out ifp m dst ty s =
     with_mbuf m s (\<lambda>b.
       if mlen b + of_nat ETHER_HDR_LEN > of_nat MBUF_SIZE then Ok (-1, s)
       else let b1 = ether_frame dst (if_hwaddr (ifp_of s ifp)) ty b in
         kbind (if_output out ifp m (set_mbuf m b1 s)) (\<lambda>(r, s1).
           if r < 0 then Ok (-1, setif ifp (\<lambda>f. f\<lparr>if_oerrors := if_oerrors f + 1\<rparr>) s1)
           else Ok (0, setif ifp (\<lambda>f. f\<lparr>if_opackets := if_opackets f + 1, if_obytes := if_obytes f + mlen b1\<rparr>) s1)))"

subsection \<open>Address resolution\<close>

definition ARP_HW_ETHER :: u16 where "ARP_HW_ETHER = 1"
definition ARP_PROTO_IP :: u16 where "ARP_PROTO_IP = 0x0800"
definition ARP_OP_REQUEST :: u16 where "ARP_OP_REQUEST = 1"
definition ARP_OP_REPLY :: u16 where "ARP_OP_REPLY = 2"
definition ARP_PENDING_TICKS :: u32 where "ARP_PENDING_TICKS = 20"
definition ARP_RESOLVED_TICKS :: u32 where "ARP_RESOLVED_TICKS = 6000"

definition arp_zero :: arp_entry where
  "arp_zero = \<lparr>ae_ip = 0, ae_mac = replicate ETH_ADDR_LEN 0, ae_expire = 0, ae_state = ARP_FREE, ae_ifp = None, ae_pending = None\<rparr>"

definition arp_init :: "net \<Rightarrow> net" where
  "arp_init s = s\<lparr>arptab := replicate NET_ARP_CACHE_MAX arp_zero\<rparr>"

definition setarp :: "nat \<Rightarrow> (arp_entry \<Rightarrow> arp_entry) \<Rightarrow> net \<Rightarrow> net" where
  "setarp i f s = s\<lparr>arptab := (arptab s)[i := f (arptab s ! i)]\<rparr>"

definition arp_lookup_locked :: "nat \<Rightarrow> u32 \<Rightarrow> net \<Rightarrow> nat option" where
  "arp_lookup_locked ifp ip s =
     first_index (\<lambda>e. \<not> ae_state e = ARP_FREE \<and> ae_ifp e = Some ifp \<and> ae_ip e = ip) (arptab s)"

text \<open>A free entry, or else the one that expires first, whose waiting buffer is freed.\<close>

definition arp_oldest :: "net \<Rightarrow> nat" where
  "arp_oldest s = fold (\<lambda>i oldest. if ae_expire (arptab s ! i) < ae_expire (arptab s ! oldest) then i else oldest) [0..<NET_ARP_CACHE_MAX] 0"

definition arp_alloc_locked :: "net \<Rightarrow> (nat \<times> net) kres" where
  "arp_alloc_locked s =
     (case first_index (\<lambda>e. ae_state e = ARP_FREE) (arptab s) of
        Some i \<Rightarrow> Ok (i, s)
      | None \<Rightarrow>
          let i = arp_oldest s in
          kbind (case ae_pending (arptab s ! i) of None \<Rightarrow> Ok s | Some m \<Rightarrow> mbuf_free m s) (\<lambda>s1.
            Ok (i, setarp i (\<lambda>_. arp_zero) s1)))"

definition arp_ip_encode :: "u32 \<Rightarrow> bytes" where "arp_ip_encode ip = be32 ip"

definition arp_ip_decode :: "bytes \<Rightarrow> u32" where "arp_ip_decode bs = de32 bs"

definition arp_packet :: "u16 \<Rightarrow> bytes \<Rightarrow> u32 \<Rightarrow> bytes \<Rightarrow> u32 \<Rightarrow> bytes" where
  "arp_packet oper sha spa tha tpa =
     be16 ARP_HW_ETHER @ be16 ARP_PROTO_IP @ [of_nat ETH_ADDR_LEN, 4] @ be16 oper @
     take ETH_ADDR_LEN sha @ arp_ip_encode spa @ take ETH_ADDR_LEN tha @ arp_ip_encode tpa"

text \<open>The common part of a request and a reply: a buffer with the packet, sent to \<open>dst\<close>, freed when that fails.\<close>

definition arp_send :: "outf \<Rightarrow> nat \<Rightarrow> bytes \<Rightarrow> bytes \<Rightarrow> net \<Rightarrow> (int \<times> net) kres" where
  "arp_send out ifp pkt dst s =
     (case mbuf_alloc s of
        (None, s1) \<Rightarrow> Ok (-1, s1)
      | (Some m, s1) \<Rightarrow>
          with_mbuf m s1 (\<lambda>b.
            kbind (ether_output out ifp m dst ETHERTYPE_ARP (set_mbuf m \<lparr>mdata = splice 0 pkt (mdata b), mlen = 28\<rparr> s1)) (\<lambda>(r, s2).
              if r < 0 then kbind (mbuf_free m s2) (\<lambda>s3. Ok (-1, s3)) else Ok (0, s2))))"

definition arp_send_request :: "outf \<Rightarrow> nat \<Rightarrow> u32 \<Rightarrow> net \<Rightarrow> (int \<times> net) kres" where
  "arp_send_request out ifp ip s =
     (let f = ifp_of s ifp in
      if if_addr f = 0 then Ok (-1, s)
      else arp_send out ifp (arp_packet ARP_OP_REQUEST (if_hwaddr f) (if_addr f) (replicate ETH_ADDR_LEN 0) ip) ether_bcast s)"

definition arp_send_reply :: "outf \<Rightarrow> nat \<Rightarrow> bytes \<Rightarrow> u32 \<Rightarrow> net \<Rightarrow> (int \<times> net) kres" where
  "arp_send_reply out ifp dst_mac dst_ip s =
     (let f = ifp_of s ifp in
      arp_send out ifp (arp_packet ARP_OP_REPLY (if_hwaddr f) (if_addr f) dst_mac dst_ip) dst_mac s)"

text \<open>
  \<open>arp_resolve\<close> has two critical sections. The first finds the address, or makes the entry wait with the buffer and tells whether a request is
  to be sent. The second, after a request that could not be sent, takes the entry back.
\<close>

datatype arp_begun = Arp_known bytes | Arp_wait bool

definition arp_begin_wait :: "nat \<Rightarrow> nat \<Rightarrow> u32 \<Rightarrow> nat option \<Rightarrow> net \<Rightarrow> (arp_begun \<times> net) kres" where
  "arp_begin_wait i ifp ip pending s =
     kbind (case pending of
         None \<Rightarrow> Ok s
       | Some m \<Rightarrow> kbind (case ae_pending (arptab s ! i) of None \<Rightarrow> Ok s | Some old \<Rightarrow> mbuf_free old s) (\<lambda>s1.
           Ok (setarp i (\<lambda>e. e\<lparr>ae_pending := Some m\<rparr>) s1))) (\<lambda>s2.
       let need_request = ae_expire (arptab s2 ! i) \<le> net_ticks s in
       Ok (Arp_wait need_request,
         setarp i (\<lambda>e. e\<lparr>ae_ip := ip, ae_ifp := Some ifp, ae_state := ARP_PENDING, ae_expire := net_ticks s + ARP_PENDING_TICKS\<rparr>) s2))"

definition arp_begin :: "nat \<Rightarrow> u32 \<Rightarrow> nat option \<Rightarrow> net \<Rightarrow> (arp_begun \<times> net) kres" where
  "arp_begin ifp ip pending s =
     (if ip = if_addr (ifp_of s ifp) then Ok (Arp_known (if_hwaddr (ifp_of s ifp)), s)
      else case arp_lookup_locked ifp ip s of
          Some i \<Rightarrow>
            if ae_state (arptab s ! i) = ARP_RESOLVED \<and> ae_expire (arptab s ! i) > net_ticks s
            then Ok (Arp_known (ae_mac (arptab s ! i)), s)
            else arp_begin_wait i ifp ip pending s
        | None \<Rightarrow> kbind (arp_alloc_locked s) (\<lambda>(i, s1). arp_begin_wait i ifp ip pending s1))"

definition arp_take_back :: "nat \<Rightarrow> u32 \<Rightarrow> nat option \<Rightarrow> net \<Rightarrow> net" where
  "arp_take_back ifp ip pending s =
     (case arp_lookup_locked ifp ip s of
        None \<Rightarrow> s
      | Some i \<Rightarrow> setarp i (\<lambda>e.
          let e1 = (if ae_pending e = pending then e\<lparr>ae_pending := None\<rparr> else e) in
          if ae_state e1 = ARP_PENDING then e1\<lparr>ae_ip := 0, ae_expire := 0, ae_state := ARP_FREE, ae_ifp := None\<rparr> else e1) s)"

definition arp_resolve :: "outf \<Rightarrow> nat \<Rightarrow> u32 \<Rightarrow> nat option \<Rightarrow> net \<Rightarrow> ((int \<times> bytes) \<times> net) kres" where
  "arp_resolve out ifp ip pending s =
     kbind (arp_begin ifp ip pending s) (\<lambda>(r, s1).
       case r of
         Arp_known mac \<Rightarrow> Ok ((0, mac), s1)
       | Arp_wait need_request \<Rightarrow>
           if \<not> need_request then Ok ((1, []), s1)
           else kbind (arp_send_request out ifp ip s1) (\<lambda>(q, s2).
             if q < 0 then Ok ((-1, []), arp_take_back ifp ip pending s2) else Ok ((1, []), s2)))"

definition ether_output_ip :: "outf \<Rightarrow> nat \<Rightarrow> nat \<Rightarrow> u32 \<Rightarrow> net \<Rightarrow> (int \<times> net) kres" where
  "ether_output_ip out ifp m next_hop s =
     (if ether_ipv4_broadcast (ifp_of s ifp) next_hop then ether_output out ifp m ether_bcast NET_PROTO_IP s
      else kbind (arp_resolve out ifp next_hop (Some m) s) (\<lambda>((ret, dst), s1).
        if ret < 0 then Ok (-1, s1)
        else if ret > 0 then Ok (0, s1)
        else ether_output out ifp m dst NET_PROTO_IP s1))"

text \<open>Learning the sender's address: the entry is resolved and gives up the buffer that waited for it.\<close>

definition arp_learn :: "nat \<Rightarrow> u32 \<Rightarrow> bytes \<Rightarrow> net \<Rightarrow> (nat option \<times> net) kres" where
  "arp_learn ifp spa sha s =
     kbind (case arp_lookup_locked ifp spa s of Some i \<Rightarrow> Ok (i, s) | None \<Rightarrow> arp_alloc_locked s) (\<lambda>(i, s1).
       Ok (ae_pending (arptab s1 ! i), setarp i (\<lambda>e. e\<lparr>ae_ip := spa, ae_ifp := Some ifp, ae_mac := sha, ae_state := ARP_RESOLVED,
         ae_expire := net_ticks s + ARP_RESOLVED_TICKS, ae_pending := None\<rparr>) s1))"

definition arp_valid :: "bytes \<Rightarrow> bool" where
  "arp_valid d \<longleftrightarrow> de16 (take 2 d) = ARP_HW_ETHER \<and> de16 (take 2 (drop 2 d)) = ARP_PROTO_IP \<and>
     d ! 4 = of_nat ETH_ADDR_LEN \<and> d ! 5 = 4"

definition arp_input :: "outf \<Rightarrow> nat \<Rightarrow> nat \<Rightarrow> net \<Rightarrow> net kres" where
  "arp_input out ifp m s =
     with_mbuf m s (\<lambda>b.
       if mlen b < 28 then mbuf_free m s
       else let d = mdata b in
         if \<not> arp_valid d then mbuf_free m s
         else
           let oper = de16 (take 2 (drop 6 d)); sha = take ETH_ADDR_LEN (drop 8 d);
             spa = arp_ip_decode (take 4 (drop 14 d)); tpa = arp_ip_decode (take 4 (drop 24 d)) in
           kbind (arp_learn ifp spa sha s) (\<lambda>(pending, s1).
           kbind (case pending of None \<Rightarrow> Ok s1
             | Some p \<Rightarrow> kbind (ether_output out ifp p sha NET_PROTO_IP s1) (\<lambda>(r, s2). if r < 0 then mbuf_free p s2 else Ok s2)) (\<lambda>s3.
           kbind (if oper = ARP_OP_REQUEST \<and> if_addr (ifp_of s3 ifp) \<noteq> 0 \<and> tpa = if_addr (ifp_of s3 ifp)
             then kbind (arp_send_reply out ifp sha spa s3) (\<lambda>(_, s4). Ok s4) else Ok s3) (\<lambda>s5.
           mbuf_free m s5))))"

record arp_info =
  ai_ip :: u32
  ai_mac :: bytes
  ai_flags :: u32
  ai_expires :: u32
  ai_index :: u32

definition arp_dump :: "int \<Rightarrow> net \<Rightarrow> (int \<times> arp_info list)" where
  "arp_dump maxn s =
     (if maxn \<le> 0 then (-1, [])
      else let out = map (\<lambda>e. \<lparr>ai_ip = ae_ip e, ai_mac = ae_mac e,
          ai_flags = (case ae_state e of ARP_PENDING \<Rightarrow> 1 | ARP_RESOLVED \<Rightarrow> 2 | ARP_FREE \<Rightarrow> 0),
          ai_expires = (if ae_expire e > net_ticks s then ae_expire e - net_ticks s else 0),
          ai_index = (case ae_ifp e of None \<Rightarrow> 0 | Some i \<Rightarrow> if_index (ifp_of s i))\<rparr>)
          (take (nat maxn) (filter (\<lambda>e. ae_state e \<noteq> ARP_FREE \<and> ae_ifp e \<noteq> None) (arptab s)))
        in (int (length out), out))"

subsection \<open>IP output\<close>

definition NET_IP_ICMP :: u8 where "NET_IP_ICMP = 1"
definition NET_IP_UDP :: u8 where "NET_IP_UDP = 17"
definition NET_IP_TCP :: u8 where "NET_IP_TCP = 6"
definition IP_HLEN :: nat where "IP_HLEN = 20"

text \<open>The Internet checksum: 16-bit words added up in 32 bits, the carries folded in, the complement.\<close>

fun sum_words :: "bytes \<Rightarrow> u32 \<Rightarrow> u32" where
  "sum_words (a # b # bs) acc = sum_words bs (acc + ucast (ld16 [a, b]))"
| "sum_words [a] acc = acc + ucast a"
| "sum_words [] acc = acc"

lemma fold_step:
  "unat ((w :: u32) AND 0xffff) = unat w mod 65536" "unat (drop_bit 16 w) = unat w div 65536"
  "unat ((w AND 0xffff) + drop_bit 16 w) = unat w mod 65536 + unat w div 65536"
proof -
  have m: "(0xffff :: u32) = mask 16" by (simp add: mask_eq_exp_minus_1)
  show a: "unat (w AND 0xffff) = unat w mod 65536" unfolding m take_bit_eq_mask [symmetric] by (simp add: unat_take_bit)
  show d: "unat (drop_bit 16 w) = unat w div 65536" unfolding unat_drop_bit_eq by (simp add: drop_bit_eq_div)
  have "unat w div 65536 < 65536" using unat_bound [of w] by (simp add: div_less_iff_less_mult)
  then show "unat ((w AND 0xffff) + drop_bit 16 w) = unat w mod 65536 + unat w div 65536"
    unfolding a [symmetric] d [symmetric] by (intro unat_add_no_wrap) (simp add: a d)
qed

function fold_carry :: "u32 \<Rightarrow> u32" where
  "fold_carry acc = (if drop_bit 16 acc \<noteq> 0 then fold_carry ((acc AND 0xffff) + drop_bit 16 acc) else acc)"
  by pat_completeness auto

termination fold_carry
proof (relation "measure unat", goal_cases)
  case (2 w)
  then have "0 < unat w div 65536" using fold_step(2) [of w] unat_gt_0 [of "drop_bit 16 w"] by simp
  moreover have "unat w = unat w div 65536 * 65536 + unat w mod 65536" by (rule div_mult_mod_eq [symmetric])
  ultimately have "unat w mod 65536 + unat w div 65536 < unat w" by linarith
  then show ?case unfolding in_measure fold_step(3) .
qed simp

definition ip_checksum :: "bytes \<Rightarrow> u16" where
  "ip_checksum bs = ucast (NOT (fold_carry (sum_words bs 0)))"

definition ip_header :: "u16 \<Rightarrow> u16 \<Rightarrow> u8 \<Rightarrow> u8 \<Rightarrow> u16 \<Rightarrow> u32 \<Rightarrow> u32 \<Rightarrow> bytes" where
  "ip_header len ident ttl proto csum src dst =
     [0x45, 0] @ be16 len @ be16 ident @ [0, 0] @ [ttl, proto] @ st16 csum @ be32 src @ be32 dst"

definition ip_build :: "u16 \<Rightarrow> u8 \<Rightarrow> u8 \<Rightarrow> u32 \<Rightarrow> u32 \<Rightarrow> bytes \<Rightarrow> bytes \<Rightarrow> bytes" where
  "ip_build ident ttl proto src dst payload d =
     (let d1 = splice 0 (ip_header (of_nat (IP_HLEN + length payload)) ident ttl proto 0 src dst) d;
        d2 = splice IP_HLEN payload d1
      in splice 10 (st16 (ip_checksum (take IP_HLEN d2))) d2)"

definition free_on_error :: "nat \<Rightarrow> int \<Rightarrow> (int \<times> net) kres \<Rightarrow> (int \<times> net) kres" where
  "free_on_error m len r = kbind r (\<lambda>(q, s). if q < 0 then kbind (mbuf_free m s) (\<lambda>s1. Ok (-1, s1)) else Ok (len, s))"

definition ip_output_ttl :: "outf \<Rightarrow> nat \<Rightarrow> u8 \<Rightarrow> u32 \<Rightarrow> u32 \<Rightarrow> bytes \<Rightarrow> u8 \<Rightarrow> net \<Rightarrow> (int \<times> net) kres" where
  "ip_output_ttl out ifp proto src dst payload ttl s =
     (let len = length payload in
      if len > MBUF_SIZE - IP_HLEN then Ok (-1, s)
      else case mbuf_alloc s of
          (None, s1) \<Rightarrow> Ok (-1, s1)
        | (Some m, s1) \<Rightarrow>
            with_mbuf m s1 (\<lambda>b.
              let d = ip_build (ip_next_id s1) ttl proto src dst payload (mdata b);
                s2 = set_mbuf m \<lparr>mdata = d, mlen = of_nat (IP_HLEN + len)\<rparr> (s1\<lparr>ip_next_id := ip_next_id s1 + 1\<rparr>);
                flags = if_flags (ifp_of s2 ifp)
              in if flags AND IFF_LOOPBACK \<noteq> 0 then free_on_error m (int len) (if_output out ifp m s2)
                else if flags AND IFF_POINTOPOINT \<noteq> 0 then free_on_error m (int len) (if_output out ifp m s2)
                else let gateway = (case route_lookup dst s2 of None \<Rightarrow> 0 | Some (_, _, g) \<Rightarrow> g)
                  in free_on_error m (int len) (ether_output_ip out ifp m (if gateway \<noteq> 0 then gateway else dst) s2)))"

definition ip_output :: "outf \<Rightarrow> nat \<Rightarrow> u8 \<Rightarrow> u32 \<Rightarrow> u32 \<Rightarrow> bytes \<Rightarrow> net \<Rightarrow> (int \<times> net) kres" where
  "ip_output out ifp proto src dst payload s = ip_output_ttl out ifp proto src dst payload 64 s"

subsection \<open>ICMP and UDP\<close>

definition ICMP_ECHO_REPLY :: u8 where "ICMP_ECHO_REPLY = 0"
definition ICMP_UNREACH :: u8 where "ICMP_UNREACH = 3"
definition ICMP_ECHO :: u8 where "ICMP_ECHO = 8"
definition ICMP_UNREACH_PORT :: u8 where "ICMP_UNREACH_PORT = 3"

definition icmp_csum :: "bytes \<Rightarrow> u16" where
  "icmp_csum bs = ucast (NOT (fold_carry (sum_words bs 0)))"

definition log_event :: "net_event \<Rightarrow> net \<Rightarrow> net" where
  "log_event e s = s\<lparr>events := events s @ [e]\<rparr>"

text \<open>
  The reply to an echo request is made in the place of the request, in the buffer that \<open>ip_input\<close> frees next; the model makes it beside
  it. The sockets have been given the request before.
\<close>

definition icmp_input :: "outf \<Rightarrow> nat \<Rightarrow> u32 \<Rightarrow> u32 \<Rightarrow> bytes \<Rightarrow> net \<Rightarrow> net kres" where
  "icmp_input out ifp ipsrc ipdst payload s =
     (if length payload < 8 then Ok s
      else let s1 = log_event (Socket_deliver_raw \<lparr>sin_port = 0, s_addr = ipsrc\<rparr> \<lparr>sin_port = 0, s_addr = ipdst\<rparr> payload) s in
        if payload ! 0 = ICMP_ECHO \<and> payload ! 1 = 0 then
          let p1 = splice 2 (st16 0) (payload[0 := ICMP_ECHO_REPLY]); p2 = splice 2 (st16 (icmp_csum p1)) p1
          in kbind (ip_output out ifp NET_IP_ICMP ipdst ipsrc p2 s1) (\<lambda>(_, s2). Ok s2)
        else Ok s1)"

text \<open>The original packet, from its IP header on, is \<open>orig\<close>; its transport part has \<open>tlen\<close> bytes.\<close>

definition icmp_send_unreach :: "outf \<Rightarrow> nat \<Rightarrow> bytes \<Rightarrow> nat \<Rightarrow> u8 \<Rightarrow> net \<Rightarrow> net kres" where
  "icmp_send_unreach out ifp orig tlen code s =
     (let ip_hdr_len = unat (orig ! 0 AND 0x0f) * 4; copy_bytes = ip_hdr_len + (if tlen < 8 then tlen else 8);
        total = 8 + copy_bytes
      in if total > MBUF_SIZE then Ok s
        else let buf = [ICMP_UNREACH, code, 0, 0, 0, 0, 0, 0] @ take copy_bytes orig;
            buf2 = splice 2 (st16 (icmp_csum buf)) buf
          in kbind (ip_output out ifp NET_IP_ICMP (if_addr (ifp_of s ifp)) (de32 (take 4 (drop 12 orig))) buf2 s) (\<lambda>(_, s1). Ok s1))"

definition udp_output :: "outf \<Rightarrow> nat \<Rightarrow> sockaddr_in \<Rightarrow> sockaddr_in \<Rightarrow> bytes \<Rightarrow> net \<Rightarrow> (int \<times> net) kres" where
  "udp_output out ifp src dst payload s =
     (if length payload > MBUF_SIZE - 8 then Ok (-1, s)
      else let buf = be16 (sin_port src) @ be16 (sin_port dst) @ be16 (of_nat (8 + length payload)) @ st16 0 @ payload
        in ip_output out ifp NET_IP_UDP (s_addr src) (s_addr dst) buf s)"

definition udp_input :: "sockf \<Rightarrow> outf \<Rightarrow> nat \<Rightarrow> bytes \<Rightarrow> bytes \<Rightarrow> net \<Rightarrow> net kres" where
  "udp_input accepts out ifp ip payload s =
     (if length payload < 8 then Ok s
      else let ulen = unat (de16 (take 2 (drop 4 payload))) in
        if ulen < 8 \<or> ulen > length payload then Ok s
        else let dlen = ulen - 8;
            src = \<lparr>sin_port = de16 (take 2 payload), s_addr = de32 (take 4 (drop 12 ip))\<rparr>;
            dst = \<lparr>sin_port = de16 (take 2 (drop 2 payload)), s_addr = de32 (take 4 (drop 16 ip))\<rparr>;
            dat = take dlen (drop 8 payload)
          in if accepts src dst dat then Ok (log_event (Socket_deliver src dst dat) s)
            else icmp_send_unreach out ifp ip (length payload) ICMP_UNREACH_PORT s)"

subsection \<open>Input\<close>

definition ierror :: "nat \<Rightarrow> net \<Rightarrow> net" where
  "ierror ifp s = setif ifp (\<lambda>f. f\<lparr>if_ierrors := if_ierrors f + 1\<rparr>) s"

definition ip_input :: "sockf \<Rightarrow> outf \<Rightarrow> nat \<Rightarrow> nat \<Rightarrow> net \<Rightarrow> net kres" where
  "ip_input accepts out ifp m s =
     with_mbuf m s (\<lambda>b.
       if mlen b < of_nat IP_HLEN then mbuf_free m s
       else let d = mdata b; hlen = unat (d ! 0 AND 0x0f) * 4 in
         if drop_bit 4 (d ! 0) \<noteq> 4 \<or> hlen < IP_HLEN \<or> hlen > unat (mlen b) then mbuf_free m s
         else if ip_checksum (take hlen d) \<noteq> 0 then mbuf_free m (ierror ifp s)
         else let total_len = unat (de16 (take 2 (drop 2 d))) in
           if total_len < hlen \<or> total_len > unat (mlen b) then mbuf_free m (ierror ifp s)
           else let plen = total_len - hlen; proto = d ! 9; payload = take plen (drop hlen d);
               src = de32 (take 4 (drop 12 d)); dst = de32 (take 4 (drop 16 d))
             in kbind (if proto = NET_IP_ICMP then icmp_input out ifp src dst payload s
                 else if proto = NET_IP_UDP then udp_input accepts out ifp d payload s
                 else if proto = NET_IP_TCP then Ok (log_event (Tcp_input src dst payload) s)
                 else Ok s) (mbuf_free m))"

definition ether_input :: "sockf \<Rightarrow> outf \<Rightarrow> nat \<Rightarrow> nat \<Rightarrow> net \<Rightarrow> net kres" where
  "ether_input accepts out ifp m s =
     with_mbuf m s (\<lambda>b.
       if mlen b < of_nat ETHER_HDR_LEN then mbuf_free m s
       else let d = mdata b in
         if \<not> ether_addr_equal d ether_bcast \<and> \<not> ether_addr_equal d (if_hwaddr (ifp_of s ifp)) \<and> d ! 0 AND 0x01 = 0
         then mbuf_free m s
         else let ty = de16 (take 2 (drop 12 d)); n = unat (mlen b) - ETHER_HDR_LEN;
             b1 = \<lparr>mdata = splice 0 (take n (drop ETHER_HDR_LEN d)) d, mlen = mlen b - of_nat ETHER_HDR_LEN\<rparr>;
             s1 = setif ifp (\<lambda>f. f\<lparr>if_ipackets := if_ipackets f + 1, if_ibytes := if_ibytes f + mlen b1\<rparr>) (set_mbuf m b1 s)
           in if ty = NET_PROTO_IP then ip_input accepts out ifp m s1
             else if ty = ETHERTYPE_ARP then arp_input out ifp m s1
             else mbuf_free m s1)"

definition if_input :: "sockf \<Rightarrow> outf \<Rightarrow> nat \<Rightarrow> nat \<Rightarrow> net \<Rightarrow> net kres" where
  "if_input accepts out ifp m s =
     (case if_handle (ifp_of s ifp) of
        None \<Rightarrow> mbuf_free m s
      | Some In_default \<Rightarrow> mbuf_free m s
      | Some In_ip \<Rightarrow> ip_input accepts out ifp m s
      | Some In_ether \<Rightarrow> ether_input accepts out ifp m s)"

subsection \<open>The output routines of the interfaces\<close>

definition lo_output :: "sockf \<Rightarrow> outf \<Rightarrow> nat \<Rightarrow> nat \<Rightarrow> net \<Rightarrow> (int \<times> net) kres" where
  "lo_output accepts out ifp m s = kbind (if_input accepts out ifp m s) (\<lambda>s1. Ok (0, s1))"

definition hw_output :: "(nat \<Rightarrow> bytes \<Rightarrow> bool) \<Rightarrow> outf" where
  "hw_output hw ifp m s =
     with_mbuf m s (\<lambda>b. let frame = take (unat (mlen b)) (mdata b) in
       if hw ifp frame then kbind (mbuf_free m s) (\<lambda>s1. Ok (0, s1\<lparr>sent := sent s1 @ [(ifp, frame)]\<rparr>)) else Ok (-1, s))"

fun drv_output :: "sockf \<Rightarrow> (nat \<Rightarrow> bytes \<Rightarrow> bool) \<Rightarrow> nat \<Rightarrow> outf" where
  "drv_output accepts hw 0 ifp m s = Panic ''stack''"
| "drv_output accepts hw (Suc n) ifp m s =
     (case if_ops (ifp_of s ifp) of
        None \<Rightarrow> Panic ''null output routine''
      | Some Lo_ops \<Rightarrow> lo_output accepts (drv_output accepts hw n) ifp m s
      | Some Hw_ops \<Rightarrow> hw_output hw ifp m s)"

definition lo0 :: ifnet where
  "lo0 = \<lparr>if_index = 0, if_xname = [108, 111, 48], if_mtu = of_nat MBUF_SIZE, if_flags = IFF_UP OR IFF_LOOPBACK, if_linkstate = 0,
     if_addr = 0x7f000001, if_netmask = 0xff000000, if_hwaddr = replicate ETH_ADDR_LEN 0, if_ops = Some Lo_ops, if_handle = Some In_ip,
     if_ipackets = 0, if_opackets = 0, if_ibytes = 0, if_obytes = 0, if_ierrors = 0, if_oerrors = 0\<rparr>"

definition loopback_attach :: "nat \<Rightarrow> net \<Rightarrow> net kres" where
  "loopback_attach lo s =
     (case if_register lo (setif lo (\<lambda>_. lo0) s) of (r, s1) \<Rightarrow>
        if r < 0 then Panic ''loopback_attach''
        else case route_add 0x7f000000 0xff000000 0 0x7f000001 (Some lo) RTF_UP s1 of (q, s2) \<Rightarrow>
          if q < 0 then Panic ''loopback_route'' else Ok s2)"

definition netdev_init :: "nat \<Rightarrow> (net \<Rightarrow> net kres) \<Rightarrow> net \<Rightarrow> net kres" where
  "netdev_init lo drivers s =
     kbind (loopback_attach lo (arp_init (route_init (s\<lparr>if_list := [], if_next_index := 1, if_list_poisoned := False\<rparr>)))) drivers"

subsection \<open>The checksum\<close>

declare fold_carry.simps [simp del]

text \<open>The sum without a bound, and what folding keeps of it: the remainder modulo 65535 and being zero.\<close>

fun words_sum :: "bytes \<Rightarrow> nat" where
  "words_sum (a # b # bs) = unat (ld16 [a, b]) + words_sum bs"
| "words_sum [a] = unat a"
| "words_sum [] = 0"

lemma words_sum_bound: "words_sum bs \<le> 65535 * ((length bs + 1) div 2)"
proof (induction bs rule: words_sum.induct)
  case (1 a b bs)
  have "unat (ld16 [a, b]) \<le> 65535" using unat_bound [of "ld16 [a, b]"] by simp
  then show ?case using 1 by simp
next
  case (2 a)
  then show ?case using unat_bound [of a] by simp
qed simp

lemma words_sum_append: "even (length as) \<Longrightarrow> words_sum (as @ bs) = words_sum as + words_sum bs"
  by (induction as rule: words_sum.induct) auto

lemma unat_ucast_up: "LENGTH('a::len) \<le> LENGTH('b::len) \<Longrightarrow> unat (ucast (x :: 'a word) :: 'b word) = unat x"
  by (simp add: unsigned_ucast_eq take_bit_nat_eq_self_iff order_less_le_trans [OF unat_bound])

lemma unat_sum_words: "unat acc + words_sum bs < 2 ^ 32 \<Longrightarrow> unat (sum_words bs acc) = unat acc + words_sum bs"
proof (induction bs acc rule: sum_words.induct)
  case (1 a b bs acc)
  have "unat (acc + ucast (ld16 [a, b])) = unat acc + unat (ld16 [a, b])"
    using 1(2) by (subst unat_add_no_wrap) (simp_all add: unat_ucast_up)
  then show ?case using 1 by simp
next
  case (2 a acc)
  then show ?case by (simp add: unat_add_no_wrap unat_ucast_up)
qed simp

lemma fold_carry_props:
  "unat (fold_carry w) < 65536 \<and> unat (fold_carry w) mod 65535 = unat w mod 65535 \<and> (unat (fold_carry w) = 0 \<longleftrightarrow> unat w = 0)"
proof (induction w rule: fold_carry.induct)
  case (1 w)
  show ?case
  proof (cases "drop_bit 16 w = 0")
    case True
    then have "unat w div 65536 = 0" using fold_step(2) [of w] by simp
    then show ?thesis using True by (simp add: fold_carry.simps [of w] div_eq_0_iff)
  next
    case False
    let ?v = "(w AND 0xffff) + drop_bit 16 w"
    have v: "unat ?v = unat w mod 65536 + unat w div 65536" by (rule fold_step)
    have e: "unat w = unat w div 65536 * 65535 + unat ?v"
      unfolding v using div_mult_mod_eq [of "unat w" 65536] by linarith
    have "unat w mod 65535 = unat ?v mod 65535" by (subst e) simp
    moreover have "unat ?v = 0 \<longleftrightarrow> unat w = 0"
      unfolding v using div_mult_mod_eq [of "unat w" 65536] by auto
    ultimately show ?thesis using False 1 [OF False] by (simp add: fold_carry.simps [of w])
  qed
qed

lemma unat_ip_checksum: "unat (ip_checksum bs) = 65535 - unat (fold_carry (sum_words bs 0))"
proof -
  let ?f = "fold_carry (sum_words bs 0)"
  have b: "unat ?f < 65536" using fold_carry_props by blast
  have "NOT ?f = -1 - ?f" by (simp add: not_eq_complement)
  then have "unat (NOT ?f) = unat (-1 :: u32) - unat ?f" by (simp only: unat_diff_le word_order.extremum)
  then have "unat (NOT ?f) = 2 ^ 32 - 1 - unat ?f" by (simp add: unsigned_minus_1_eq_mask mask_eq_exp_minus_1)
  then have "unat (NOT ?f) = (65535 - unat ?f) + 65535 * 65536" using b by simp
  then have "unat (NOT ?f) mod 65536 = 65535 - unat ?f" using b by (simp only: mod_mult_self1 mod_less)
  moreover have "unat (ucast (NOT ?f) :: u16) = unat (NOT ?f) mod 65536"
    by (simp add: unsigned_ucast_eq take_bit_eq_mod)
  ultimately show ?thesis by (simp add: ip_checksum_def)
qed

lemma ip_checksum_zero:
  assumes "0 < words_sum bs" "words_sum bs < 2 ^ 32"
  shows "ip_checksum bs = 0 \<longleftrightarrow> words_sum bs mod 65535 = 0"
proof -
  let ?f = "unat (fold_carry (sum_words bs 0))"
  have s: "unat (sum_words bs 0) = words_sum bs" using unat_sum_words [of 0 bs] assms(2) by simp
  have f: "?f < 65536" "?f mod 65535 = words_sum bs mod 65535" "?f \<noteq> 0"
    using fold_carry_props [of "sum_words bs 0"] assms(1) s by simp_all
  have "ip_checksum bs = 0 \<longleftrightarrow> ?f = 65535" using f(1) unat_ip_checksum [of bs] by (auto simp: unat_inj)
  also have "\<dots> \<longleftrightarrow> ?f mod 65535 = 0" using f(1,3) by (auto simp: mod_eq_0_iff_dvd dest: dvd_imp_le)
  finally show ?thesis using f(2) by simp
qed

lemma words_sum_header:
  "words_sum (ip_header len ident ttl proto csum src dst) = words_sum (ip_header len ident ttl proto 0 src dst) + unat csum"
  "0 < words_sum (ip_header len ident ttl proto csum src dst)" "length (ip_header len ident ttl proto csum src dst) = 20"
proof -
  let ?a = "[0x45, 0] @ be16 len @ be16 ident @ [0, 0] @ [ttl, proto]" and ?b = "be32 src @ be32 dst"
  have split: "words_sum (ip_header len ident ttl proto c src dst) = words_sum ?a + unat c + words_sum ?b" for c
  proof -
    have e: "ip_header len ident ttl proto c src dst = ?a @ (st16 c @ ?b)" by (simp add: ip_header_def)
    have l: "words_sum (st16 c) = unat c" by (simp add: st16_def) (simp flip: st16_def)
    show ?thesis unfolding e by (subst words_sum_append, simp, subst words_sum_append, simp, simp add: l)
  qed
  then show "words_sum (ip_header len ident ttl proto csum src dst) = words_sum (ip_header len ident ttl proto 0 src dst) + unat csum" by simp
  have "ld16 [0x45, 0] = 0x45" by (simp add: ld16_def)
  then have "0 < words_sum ?a" by simp
  then show "0 < words_sum (ip_header len ident ttl proto csum src dst)" using split by simp
  show "length (ip_header len ident ttl proto csum src dst) = 20" by (simp add: ip_header_def)
qed

lemma header_verifies:
  "ip_checksum (ip_header len ident ttl proto (ip_checksum (ip_header len ident ttl proto 0 src dst)) src dst) = 0"
proof -
  let ?h = "ip_header len ident ttl proto 0 src dst" and ?c = "ip_checksum (ip_header len ident ttl proto 0 src dst)"
  let ?g = "ip_header len ident ttl proto ?c src dst" and ?f = "unat (fold_carry (sum_words (ip_header len ident ttl proto 0 src dst) 0))"
  have b: "words_sum bs < 2 ^ 32" if "length bs = 20" for bs using words_sum_bound [of bs] that by simp
  have s: "unat (sum_words ?h 0) = words_sum ?h" using unat_sum_words [of 0 ?h] b words_sum_header(3) by simp
  have f: "?f < 65536" "?f mod 65535 = words_sum ?h mod 65535" using fold_carry_props [of "sum_words ?h 0"] s by simp_all
  have "words_sum ?g = words_sum ?h + (65535 - ?f)" using words_sum_header(1) [of len ident ttl proto ?c src dst] unat_ip_checksum by simp
  then have "words_sum ?g mod 65535 = (words_sum ?h mod 65535 + (65535 - ?f)) mod 65535" by (simp only: mod_add_left_eq)
  also have "\<dots> = (?f mod 65535 + (65535 - ?f)) mod 65535" by (simp only: f(2))
  also have "\<dots> = (?f + (65535 - ?f)) mod 65535" by (rule mod_add_left_eq)
  also have "\<dots> = 0" using f(1) by simp
  finally show ?thesis by (simp only: ip_checksum_zero [OF words_sum_header(2) b [OF words_sum_header(3)]])
qed

subsection \<open>A packet that is sent is a packet that is received\<close>

definition ip_packet :: "u16 \<Rightarrow> u8 \<Rightarrow> u8 \<Rightarrow> u32 \<Rightarrow> u32 \<Rightarrow> bytes \<Rightarrow> bytes" where
  "ip_packet ident ttl proto src dst payload =
     (let len = of_nat (IP_HLEN + length payload)
      in ip_header len ident ttl proto (ip_checksum (ip_header len ident ttl proto 0 src dst)) src dst @ payload)"

lemma length_ip_packet [simp]: "length (ip_packet ident ttl proto src dst payload) = IP_HLEN + length payload"
  by (simp add: ip_packet_def Let_def words_sum_header(3) IP_HLEN_def)

lemma length2E: "length xs = 2 \<Longrightarrow> (\<And>a b. xs = [a, b] \<Longrightarrow> P) \<Longrightarrow> P"
  by (auto simp: length_Suc_conv numeral_2_eq_2)

lemma header_fields:
  assumes "d = ip_header len ident ttl proto csum src dst @ rest"
  shows "d ! 0 = 0x45" "d ! 9 = proto" "take 20 d = ip_header len ident ttl proto csum src dst"
    "take 2 (drop 2 d) = be16 len" "take 4 (drop 12 d) = be32 src" "take 4 (drop 16 d) = be32 dst" "drop 20 d = rest"
proof -
  obtain a b where l: "be16 len = [a, b]" by (rule length2E [of "be16 len"]) simp_all
  obtain e f where i: "be16 ident = [e, f]" by (rule length2E [of "be16 ident"]) simp_all
  obtain g h where c: "st16 csum = [g, h]" by (rule length2E [of "st16 csum"]) simp_all
  have q: "length (be32 src) = 4" "length (be32 dst) = 4" by simp_all
  show "d ! 0 = 0x45" "d ! 9 = proto" "take 20 d = ip_header len ident ttl proto csum src dst"
    "take 2 (drop 2 d) = be16 len" "take 4 (drop 12 d) = be32 src" "take 4 (drop 16 d) = be32 dst" "drop 20 d = rest"
    by (simp_all add: assms ip_header_def l i c)
qed

lemma ip_build_eq:
  assumes "length d = MBUF_SIZE" "length payload \<le> MBUF_SIZE - IP_HLEN"
  shows "ip_build ident ttl proto src dst payload d = ip_packet ident ttl proto src dst payload @ drop (IP_HLEN + length payload) d"
proof -
  define ln where "ln = (of_nat (IP_HLEN + length payload) :: u16)"
  let ?h = "\<lambda>c. ip_header ln ident ttl proto c src dst" and ?r = "payload @ drop (20 + length payload) d"
  have lh: "length (?h c) = 20" for c by (rule words_sum_header)
  have d1: "splice 0 (?h 0) d = ?h 0 @ drop 20 d" by (simp add: splice_def lh)
  have d2: "splice 20 payload (?h 0 @ drop 20 d) = ?h 0 @ ?r" by (simp add: splice_def lh add.commute)
  have t: "take 20 (?h 0 @ ?r) = ?h 0" using lh by simp
  obtain g h where z: "st16 0 = [g, h]" by (rule length2E [of "st16 0"]) simp_all
  have "splice 10 (st16 c) (?h 0 @ ?r) = ?h c @ ?r" for c
  proof -
    obtain a b where l: "be16 ln = [a, b]" by (rule length2E [of "be16 ln"]) simp_all
    obtain e f where i: "be16 ident = [e, f]" by (rule length2E [of "be16 ident"]) simp_all
    show ?thesis unfolding ip_header_def z l i by (simp add: splice_def)
  qed
  then show ?thesis unfolding ip_build_def Let_def ip_packet_def ln_def [symmetric] d1
    unfolding IP_HLEN_def d2 t by simp
qed

definition ip_deliver :: "sockf \<Rightarrow> outf \<Rightarrow> nat \<Rightarrow> bytes \<Rightarrow> u8 \<Rightarrow> u32 \<Rightarrow> u32 \<Rightarrow> bytes \<Rightarrow> net \<Rightarrow> net kres" where
  "ip_deliver accepts out ifp d proto src dst payload s =
     (if proto = NET_IP_ICMP then icmp_input out ifp src dst payload s
      else if proto = NET_IP_UDP then udp_input accepts out ifp d payload s
      else if proto = NET_IP_TCP then Ok (log_event (Tcp_input src dst payload) s)
      else Ok s)"

text \<open>Every packet that \<open>ip_output_ttl\<close> builds passes all the tests of \<open>ip_input\<close>, which hands on what was sent.\<close>

lemma ip_input_packet:
  assumes b: "mbufs s m = Some b" and d: "mdata b = ip_packet ident ttl proto src dst payload @ rest"
    and len: "mlen b = of_nat (IP_HLEN + length payload)" "length payload \<le> MBUF_SIZE - IP_HLEN"
  shows "ip_input accepts out ifp m s = kbind (ip_deliver accepts out ifp (mdata b) proto src dst payload s) (mbuf_free m)"
proof -
  let ?len = "of_nat (IP_HLEN + length payload) :: u16"
  let ?c = "ip_checksum (ip_header ?len ident ttl proto 0 src dst)"
  have d': "mdata b = ip_header ?len ident ttl proto ?c src dst @ (payload @ rest)" by (simp add: d ip_packet_def Let_def)
  note f = header_fields [OF d']
  have ml: "unat (mlen b) = 20 + length payload" using len by (simp only: len(1)) (subst unat_of_nat_len, auto simp: MBUF_SIZE_def IP_HLEN_def)
  have l16: "unat ?len = 20 + length payload" using len(2) by (subst unat_of_nat_len) (auto simp: MBUF_SIZE_def IP_HLEN_def)
  have v: "unat (mdata b ! 0 AND 0xf) * 4 = 20" "drop_bit 4 (mdata b ! 0) = 4" unfolding f(1) by simp_all
  have "\<not> mlen b < of_nat IP_HLEN" using ml by (simp add: word_less_nat_alt IP_HLEN_def)
  moreover have "ip_checksum (take 20 (mdata b)) = 0" unfolding f(3) by (rule header_verifies)
  moreover have "take (length payload) (drop 20 (mdata b)) = payload" by (simp add: f(7))
  ultimately show ?thesis
    unfolding ip_input_def with_mbuf_def b option.case Let_def v f(2,4,5,6) de16_be16 de32_be32 ml l16 ip_deliver_def
    by (simp add: IP_HLEN_def)
qed

definition udp_dgram :: "sockaddr_in \<Rightarrow> sockaddr_in \<Rightarrow> bytes \<Rightarrow> bytes" where
  "udp_dgram src dst dat = be16 (sin_port src) @ be16 (sin_port dst) @ be16 (of_nat (8 + length dat)) @ st16 0 @ dat"

lemma udp_fields:
  "length (udp_dgram src dst dat) = 8 + length dat" "take 2 (udp_dgram src dst dat) = be16 (sin_port src)"
  "take 2 (drop 2 (udp_dgram src dst dat)) = be16 (sin_port dst)"
  "take 2 (drop 4 (udp_dgram src dst dat)) = be16 (of_nat (8 + length dat))" "drop 8 (udp_dgram src dst dat) = dat"
  by (simp_all add: udp_dgram_def)

lemma udp_input_dgram:
  assumes "take 4 (drop 12 d) = be32 (s_addr src)" "take 4 (drop 16 d) = be32 (s_addr dst)" "length dat \<le> 2020" "accepts src dst dat"
  shows "udp_input accepts out ifp d (udp_dgram src dst dat) s = Ok (log_event (Socket_deliver src dst dat) s)"
proof -
  have l: "unat (of_nat (8 + length dat) :: u16) = 8 + length dat" using assms(3) by (intro unat_of_nat_len) simp
  have e: "\<lparr>sin_port = sin_port x, s_addr = s_addr x\<rparr> = x" for x :: sockaddr_in by simp
  show ?thesis unfolding udp_input_def udp_fields assms(1,2) Let_def de16_be16 de32_be32 l e using assms(4) by simp
qed

text \<open>The state in which \<open>ip_output_ttl\<close> has built its packet, and what it then does.\<close>

definition ip_loaded :: "u8 \<Rightarrow> u32 \<Rightarrow> u32 \<Rightarrow> bytes \<Rightarrow> u8 \<Rightarrow> net \<Rightarrow> net" where
  "ip_loaded proto src dst payload ttl s = s\<lparr>mbufs := (mbufs s)(mnext s \<mapsto>
       \<lparr>mdata = ip_build (ip_next_id s) ttl proto src dst payload (junk s (mnext s)), mlen = of_nat (IP_HLEN + length payload)\<rparr>),
     mnext := mnext s + 1, mavail := mavail s - 1, ip_next_id := ip_next_id s + 1\<rparr>"

lemma ip_output_ttl_eq:
  assumes "length payload \<le> MBUF_SIZE - IP_HLEN" "0 < mavail s"
  shows "ip_output_ttl out ifp proto src dst payload ttl s =
    (let t = ip_loaded proto src dst payload ttl s; m = mnext s; len = int (length payload) in
     if if_flags (ifp_of s ifp) AND IFF_LOOPBACK \<noteq> 0 \<or> if_flags (ifp_of s ifp) AND IFF_POINTOPOINT \<noteq> 0
     then free_on_error m len (if_output out ifp m t)
     else let gateway = (case route_lookup dst t of None \<Rightarrow> 0 | Some (_, _, g) \<Rightarrow> g)
       in free_on_error m len (ether_output_ip out ifp m (if gateway \<noteq> 0 then gateway else dst) t))"
proof -
  have t: "set_mbuf (mnext s) \<lparr>mdata = ip_build (ip_next_id s) ttl proto src dst payload (junk s (mnext s)), mlen = of_nat (IP_HLEN + length payload)\<rparr>
      (s\<lparr>mbufs := (mbufs s)(mnext s \<mapsto> \<lparr>mdata = junk s (mnext s), mlen = 0\<rparr>), mnext := mnext s + 1, mavail := mavail s - 1,
        ip_next_id := ip_next_id s + 1\<rparr>) = ip_loaded proto src dst payload ttl s"
    by (simp add: set_mbuf_def ip_loaded_def)
  have fl: "ifs (ip_loaded proto src dst payload ttl s) = ifs s" by (simp add: ip_loaded_def)
  have "\<not> length payload > MBUF_SIZE - IP_HLEN" using assms(1) by simp
  then show ?thesis using assms(2) t by (simp add: ip_output_ttl_def mbuf_alloc_def with_mbuf_def Let_def fl)
qed

text \<open>
  Claim C14. A datagram sent over the loopback interface arrives: \<open>udp_output\<close> builds the UDP and the IP header, \<open>lo_output\<close> feeds the buffer to
  \<open>ip_input\<close>, and the socket layer is given exactly the addresses, ports and data that were sent. The call returns the length of the IP
  payload, the buffer is freed again, and nothing else has changed but the packet number.
\<close>

theorem udp_loopback_delivers:
  assumes "if_ops (ifp_of s ifp) = Some Lo_ops" "if_handle (ifp_of s ifp) = Some In_ip"
    "if_flags (ifp_of s ifp) AND IFF_UP \<noteq> 0" "if_flags (ifp_of s ifp) AND IFF_LOOPBACK \<noteq> 0"
    and mem: "0 < mavail s" "length (junk s (mnext s)) = MBUF_SIZE" "mbufs s (mnext s) = None"
    and dat: "length dat \<le> 2020" "accepts src dst dat"
  shows "udp_output (drv_output accepts hw (Suc n)) ifp src dst dat s =
    Ok (int (8 + length dat), s\<lparr>ip_next_id := ip_next_id s + 1, mnext := mnext s + 1, events := events s @ [Socket_deliver src dst dat]\<rparr>)"
proof -
  let ?dg = "udp_dgram src dst dat" and ?m = "mnext s" and ?out = "drv_output accepts hw (Suc n)"
  let ?d = "ip_build (ip_next_id s) 64 NET_IP_UDP (s_addr src) (s_addr dst) ?dg (junk s ?m)"
  let ?b = "\<lparr>mdata = ?d, mlen = of_nat (IP_HLEN + length ?dg)\<rparr>"
  let ?s2 = "ip_loaded NET_IP_UDP (s_addr src) (s_addr dst) ?dg 64 s"
  have l: "length ?dg \<le> MBUF_SIZE - IP_HLEN" using dat(1) by (simp add: udp_fields MBUF_SIZE_def IP_HLEN_def)
  have d: "?d = ip_packet (ip_next_id s) 64 NET_IP_UDP (s_addr src) (s_addr dst) ?dg @ drop (IP_HLEN + length ?dg) (junk s ?m)"
    by (rule ip_build_eq [OF mem(2) l])
  have f: "take 4 (drop 12 ?d) = be32 (s_addr src)" "take 4 (drop 16 ?d) = be32 (s_addr dst)"
    unfolding d ip_packet_def Let_def append_assoc by (rule header_fields(5) [OF refl], rule header_fields(6) [OF refl])
  have dl: "ip_deliver accepts (drv_output accepts hw n) ifp ?d NET_IP_UDP (s_addr src) (s_addr dst) ?dg ?s2 =
      Ok (log_event (Socket_deliver src dst dat) ?s2)"
    using udp_input_dgram [where accepts = accepts, OF f dat] by (simp add: ip_deliver_def NET_IP_UDP_def NET_IP_ICMP_def)
  have "ip_input accepts (drv_output accepts hw n) ifp ?m ?s2 =
      kbind (ip_deliver accepts (drv_output accepts hw n) ifp (mdata ?b) NET_IP_UDP (s_addr src) (s_addr dst) ?dg ?s2) (mbuf_free ?m)"
    by (rule ip_input_packet [where rest = "drop (IP_HLEN + length ?dg) (junk s ?m)"]) (use d l in \<open>simp_all add: ip_loaded_def\<close>)
  then have "ip_input accepts (drv_output accepts hw n) ifp ?m ?s2 =
      Ok (s\<lparr>ip_next_id := ip_next_id s + 1, mnext := mnext s + 1, events := events s @ [Socket_deliver src dst dat]\<rparr>)"
    using dl mem(1,3) by (simp add: mbuf_free_def log_event_def ip_loaded_def fun_upd_idem)
  then have "if_output ?out ifp ?m ?s2 = Ok (0, s\<lparr>ip_next_id := ip_next_id s + 1, mnext := mnext s + 1, events := events s @ [Socket_deliver src dst dat]\<rparr>)"
    using assms(1-3) by (simp add: if_output_def lo_output_def if_input_def ip_loaded_def)
  moreover have "udp_output ?out ifp src dst dat s = ip_output_ttl ?out ifp NET_IP_UDP (s_addr src) (s_addr dst) ?dg 64 s"
    using dat(1) by (simp add: udp_output_def ip_output_def udp_dgram_def MBUF_SIZE_def)
  then have "udp_output ?out ifp src dst dat s = free_on_error ?m (int (length ?dg)) (if_output ?out ifp ?m ?s2)"
    using ip_output_ttl_eq [OF l mem(1)] assms(4) by (simp add: Let_def)
  ultimately show ?thesis by (simp add: free_on_error_def udp_fields)
qed

text \<open>A machine with its loopback interface and one Ethernet interface, for the examples.\<close>

definition eth0 :: ifnet where
  "eth0 = lo0\<lparr>if_index := 2, if_xname := [101, 116, 104, 48], if_flags := IFF_UP OR IFF_RUNNING, if_addr := 0x0a000002,
     if_netmask := 0xffffff00, if_hwaddr := [2, 0, 0, 0, 0, 1], if_ops := Some Hw_ops, if_handle := Some In_ether\<rparr>"

definition net0 :: net where
  "net0 = \<lparr>ifs = [lo0\<lparr>if_index := 1\<rparr>, eth0], if_list = [1, 0], if_next_index = 3, if_list_poisoned = False,
     rtab = replicate NET_ROUTE_TABLE_MAX route_clear, arptab = replicate NET_ARP_CACHE_MAX arp_zero, ip_next_id = 1, net_ticks = 100,
     mbufs = (\<lambda>_. None), mnext = 0, mavail = 64, junk = (\<lambda>_. replicate MBUF_SIZE 0), sent = [], events = []\<rparr>"

theorem udp_loopback_delivers_witness:
  "udp_output (drv_output (\<lambda>_ _ _. True) (\<lambda>_ _. True) (Suc 0)) 0 \<lparr>sin_port = 1024, s_addr = 0x7f000001\<rparr> \<lparr>sin_port = 53, s_addr = 0x7f000001\<rparr> [1, 2, 3] net0 =
     Ok (11, net0\<lparr>ip_next_id := 2, mnext := 1,
       events := [Socket_deliver \<lparr>sin_port = 1024, s_addr = 0x7f000001\<rparr> \<lparr>sin_port = 53, s_addr = 0x7f000001\<rparr> [1, 2, 3]]\<rparr>)"
  using udp_loopback_delivers [of net0 0 "[1, 2, 3]" "\<lambda>_ _ _. True" "\<lparr>sin_port = 1024, s_addr = 0x7f000001\<rparr>"
      "\<lparr>sin_port = 53, s_addr = 0x7f000001\<rparr>" "\<lambda>_ _. True" 0]
  by (simp add: net0_def lo0_def IFF_UP_def IFF_LOOPBACK_def)

end
