(* ===== verification/Inet_Own.thy ===== *)
theory Inet_Own
  imports Inet
begin

text \<open>
  Who owns a network buffer. A buffer that is allocated waits in exactly one entry of the ARP table, or it is held by the routine that runs. The
  routines of \<open>Inet\<close> pass buffers on: an output routine owns the buffer afterwards when it succeeds and leaves it with its caller when it
  fails; an input routine always consumes it. The lemmas show that each routine keeps this contract, so that no sequence of
  packets makes the kernel free a buffer twice, use one that is freed, lose one, or recurse through the loopback without end.
\<close>

definition waiting :: "net \<Rightarrow> nat set" where
  "waiting s = {m. \<exists>e \<in> set (arptab s). ae_pending e = Some m}"

definition in_hand :: "net \<Rightarrow> nat set" where
  "in_hand s = {m. mbufs s m \<noteq> None} - waiting s"

definition if_ok :: "ifnet \<Rightarrow> bool" where
  "if_ok f \<longleftrightarrow> length (if_hwaddr f) = ETH_ADDR_LEN \<and>
     (if_ops f = Some Lo_ops \<longrightarrow> if_flags f AND IFF_LOOPBACK \<noteq> 0 \<and> if_handle f = Some In_ip)"

definition pend_once :: "arp_entry list \<Rightarrow> bool" where
  "pend_once es \<longleftrightarrow> (\<forall>i < length es. \<forall>j < length es. \<forall>m. ae_pending (es ! i) = Some m \<longrightarrow> ae_pending (es ! j) = Some m \<longrightarrow> i = j)"

definition mbuf_ok :: "mbuf \<Rightarrow> bool" where
  "mbuf_ok b \<longleftrightarrow> length (mdata b) = MBUF_SIZE \<and> unat (mlen b) \<le> MBUF_SIZE"

definition net_ok :: "net \<Rightarrow> bool" where
  "net_ok s \<longleftrightarrow> length (arptab s) = NET_ARP_CACHE_MAX \<and> pend_once (arptab s) \<and> waiting s \<subseteq> {m. mbufs s m \<noteq> None} \<and>
     (\<forall>m b. mbufs s m = Some b \<longrightarrow> mbuf_ok b) \<and> (\<forall>n. length (junk s n) = MBUF_SIZE) \<and> (\<forall>m \<ge> mnext s. mbufs s m = None) \<and>
     (\<forall>f \<in> set (ifs s). if_ok f)"

text \<open>What no packet changes about the interfaces.\<close>

definition if_same :: "ifnet \<Rightarrow> ifnet \<Rightarrow> bool" where
  "if_same f g \<longleftrightarrow> if_ops g = if_ops f \<and> if_flags g = if_flags f \<and> if_handle g = if_handle f \<and> if_addr g = if_addr f \<and>
     if_netmask g = if_netmask f \<and> if_hwaddr g = if_hwaddr f"

definition ifs_same :: "net \<Rightarrow> net \<Rightarrow> bool" where
  "ifs_same s t \<longleftrightarrow> list_all2 if_same (ifs s) (ifs t)"

lemma if_same_refl [simp]: "if_same f f" by (simp add: if_same_def)

lemma if_same_trans: "if_same f g \<Longrightarrow> if_same g h \<Longrightarrow> if_same f h" by (simp add: if_same_def)

lemma ifs_same_refl [simp]: "ifs_same s s" by (simp add: ifs_same_def list.rel_refl)

lemma ifs_same_trans: "ifs_same s t \<Longrightarrow> ifs_same t u \<Longrightarrow> ifs_same s u"
  unfolding ifs_same_def by (rule list_all2_trans [of if_same if_same if_same]) (auto intro: if_same_trans)

lemma ifs_same_eq: "ifs s = ifs t \<Longrightarrow> ifs_same s t"
  by (simp add: ifs_same_def list.rel_refl)

lemma ifs_sameD: "ifs_same s t \<Longrightarrow> i < length (ifs s) \<Longrightarrow> if_same (ifp_of s i) (ifp_of t i) \<and> length (ifs t) = length (ifs s)"
  by (simp add: ifs_same_def list_all2_conv_all_nth)

text \<open>
  The outcome of a routine: it returns, the state is good, the interfaces are what they were, the ARP table too when \<open>arp\<close> says so, and the
  buffers held by the running code are \<open>H\<close> of the result.
\<close>

definition returns :: "bool \<Rightarrow> net \<Rightarrow> ('a \<Rightarrow> nat set) \<Rightarrow> ('a \<times> net) kres \<Rightarrow> bool" where
  "returns arp s H r \<longleftrightarrow> (\<exists>q t. r = Ok (q, t) \<and> net_ok t \<and> ifs_same s t \<and> in_hand t = H q \<and> (arp \<longrightarrow> arptab t = arptab s))"

definition returns_unit :: "bool \<Rightarrow> net \<Rightarrow> nat set \<Rightarrow> net kres \<Rightarrow> bool" where
  "returns_unit arp s H r \<longleftrightarrow> (\<exists>t. r = Ok t \<and> net_ok t \<and> ifs_same s t \<and> in_hand t = H \<and> (arp \<longrightarrow> arptab t = arptab s))"

lemma returns_Ok: "returns arp s H (Ok (q, t)) \<longleftrightarrow> net_ok t \<and> ifs_same s t \<and> in_hand t = H q \<and> (arp \<longrightarrow> arptab t = arptab s)"
  by (simp add: returns_def)

lemma returns_unit_Ok: "returns_unit arp s H (Ok t) \<longleftrightarrow> net_ok t \<and> ifs_same s t \<and> in_hand t = H \<and> (arp \<longrightarrow> arptab t = arptab s)"
  by (simp add: returns_unit_def)

text \<open>Sequencing: what follows runs in a good state with the buffers that the first part left.\<close>

lemma returns_bind:
  assumes "returns arp s H r"
    and "\<And>q t. r = Ok (q, t) \<Longrightarrow> net_ok t \<Longrightarrow> ifs_same s t \<Longrightarrow> in_hand t = H q \<Longrightarrow> (arp \<Longrightarrow> arptab t = arptab s) \<Longrightarrow> returns arp t H' (g (q, t))"
  shows "returns arp s H' (kbind r g)"
proof -
  from assms(1) obtain q t where t: "r = Ok (q, t)" "net_ok t" "ifs_same s t" "in_hand t = H q" "arp \<Longrightarrow> arptab t = arptab s"
    by (auto simp: returns_def)
  from assms(2) [OF this] obtain q' u where "g (q, t) = Ok (q', u)" "net_ok u" "ifs_same t u" "in_hand u = H' q'" "arp \<Longrightarrow> arptab u = arptab t"
    by (auto simp: returns_def)
  then show ?thesis using t by (auto simp: returns_def intro: ifs_same_trans)
qed

lemma returns_bind_unit:
  assumes "returns arp s H r"
    and "\<And>q t. r = Ok (q, t) \<Longrightarrow> net_ok t \<Longrightarrow> ifs_same s t \<Longrightarrow> in_hand t = H q \<Longrightarrow> (arp \<Longrightarrow> arptab t = arptab s) \<Longrightarrow> returns_unit arp t H' (g (q, t))"
  shows "returns_unit arp s H' (kbind r g)"
proof -
  from assms(1) obtain q t where t: "r = Ok (q, t)" "net_ok t" "ifs_same s t" "in_hand t = H q" "arp \<Longrightarrow> arptab t = arptab s"
    by (auto simp: returns_def)
  from assms(2) [OF this] obtain u where "g (q, t) = Ok u" "net_ok u" "ifs_same t u" "in_hand u = H'" "arp \<Longrightarrow> arptab u = arptab t"
    by (auto simp: returns_unit_def)
  then show ?thesis using t by (auto simp: returns_unit_def intro: ifs_same_trans)
qed

lemma returns_unit_bind:
  assumes "returns_unit arp s H r"
    and "\<And>t. r = Ok t \<Longrightarrow> net_ok t \<Longrightarrow> ifs_same s t \<Longrightarrow> in_hand t = H \<Longrightarrow> (arp \<Longrightarrow> arptab t = arptab s) \<Longrightarrow> returns arp t H' (g t)"
  shows "returns arp s H' (kbind r g)"
proof -
  from assms(1) obtain t where t: "r = Ok t" "net_ok t" "ifs_same s t" "in_hand t = H" "arp \<Longrightarrow> arptab t = arptab s"
    by (auto simp: returns_unit_def)
  from assms(2) [OF this] obtain q' u where "g t = Ok (q', u)" "net_ok u" "ifs_same t u" "in_hand u = H' q'" "arp \<Longrightarrow> arptab u = arptab t"
    by (auto simp: returns_def)
  then show ?thesis using t by (auto simp: returns_def intro: ifs_same_trans)
qed

lemma returns_unit_bind_unit:
  assumes "returns_unit arp s H r"
    and "\<And>t. r = Ok t \<Longrightarrow> net_ok t \<Longrightarrow> ifs_same s t \<Longrightarrow> in_hand t = H \<Longrightarrow> (arp \<Longrightarrow> arptab t = arptab s) \<Longrightarrow> returns_unit arp t H' (g t)"
  shows "returns_unit arp s H' (kbind r g)"
proof -
  from assms(1) obtain t where t: "r = Ok t" "net_ok t" "ifs_same s t" "in_hand t = H" "arp \<Longrightarrow> arptab t = arptab s"
    by (auto simp: returns_unit_def)
  from assms(2) [OF this] obtain u where "g t = Ok u" "net_ok u" "ifs_same t u" "in_hand u = H'" "arp \<Longrightarrow> arptab u = arptab t"
    by (auto simp: returns_unit_def)
  then show ?thesis using t by (auto simp: returns_unit_def intro: ifs_same_trans)
qed

lemma returns_weaken: "returns True s H r \<Longrightarrow> returns False s H r"
  by (auto simp: returns_def)

lemma returns_unit_weaken: "returns_unit True s H r \<Longrightarrow> returns_unit False s H r"
  by (auto simp: returns_unit_def)

text \<open>A step before the call that keeps the interfaces and the table.\<close>

lemma returns_from: "ifs_same s t \<Longrightarrow> (arp \<Longrightarrow> arptab t = arptab s) \<Longrightarrow> returns arp t H r \<Longrightarrow> returns arp s H r"
  by (auto simp: returns_def intro: ifs_same_trans)

lemma returns_unit_from: "ifs_same s t \<Longrightarrow> (arp \<Longrightarrow> arptab t = arptab s) \<Longrightarrow> returns_unit arp t H r \<Longrightarrow> returns_unit arp s H r"
  by (auto simp: returns_unit_def intro: ifs_same_trans)

subsection \<open>The basic steps\<close>

lemma heldE:
  assumes "net_ok s" "m \<in> in_hand s"
  obtains b where "mbufs s m = Some b" "mbuf_ok b"
  using assms by (auto simp: in_hand_def net_ok_def)

lemma net_ok_cong:
  assumes "ifs t = ifs s" "arptab t = arptab s" "mbufs t = mbufs s" "mnext t = mnext s" "junk t = junk s"
  shows "net_ok t = net_ok s" "in_hand t = in_hand s" "ifs_same s t"
  using assms by (simp_all add: net_ok_def in_hand_def waiting_def ifs_same_eq)

lemma set_mbuf_ok:
  assumes "net_ok s" "mbufs s m \<noteq> None" "mbuf_ok b"
  shows "net_ok (set_mbuf m b s)" "in_hand (set_mbuf m b s) = in_hand s" "ifs (set_mbuf m b s) = ifs s" "arptab (set_mbuf m b s) = arptab s"
    "mbufs (set_mbuf m b s) m = Some b"
proof -
  have "mnext s \<le> m' \<Longrightarrow> m' \<noteq> m" for m' using assms(1,2) by (auto simp: net_ok_def)
  then show "net_ok (set_mbuf m b s)" using assms by (auto simp: net_ok_def set_mbuf_def waiting_def)
  show "in_hand (set_mbuf m b s) = in_hand s" using assms(2) by (auto simp: in_hand_def set_mbuf_def waiting_def)
qed (simp_all add: set_mbuf_def)

lemma mbuf_alloc_Some:
  assumes "net_ok s" "mbuf_alloc s = (Some m, t)"
  shows "net_ok t" "in_hand t = insert m (in_hand s)" "m \<notin> in_hand s" "mbufs t m = Some \<lparr>mdata = junk s m, mlen = 0\<rparr>"
    "ifs t = ifs s" "arptab t = arptab s" "length (junk s m) = MBUF_SIZE"
proof -
  have t: "m = mnext s" "t = s\<lparr>mbufs := (mbufs s)(m \<mapsto> \<lparr>mdata = junk s m, mlen = 0\<rparr>), mnext := mnext s + 1, mavail := mavail s - 1\<rparr>"
    using assms(2) by (auto simp: mbuf_alloc_def split: if_splits)
  have free: "mbufs s m = None" "m \<notin> waiting s" using assms(1) by (auto simp: t(1) net_ok_def)
  show "net_ok t" using assms(1) by (auto simp: t net_ok_def waiting_def mbuf_ok_def)
  show "in_hand t = insert m (in_hand s)" "m \<notin> in_hand s" using free by (auto simp: t(2) in_hand_def waiting_def)
  show "mbufs t m = Some \<lparr>mdata = junk s m, mlen = 0\<rparr>" "ifs t = ifs s" "arptab t = arptab s" by (simp_all add: t(2))
  show "length (junk s m) = MBUF_SIZE" using assms(1) by (simp add: net_ok_def)
qed

lemma mbuf_alloc_None: "mbuf_alloc s = (None, t) \<Longrightarrow> t = s"
  by (auto simp: mbuf_alloc_def split: if_splits)

lemma mbuf_free_held:
  assumes "net_ok s" "m \<in> in_hand s"
  shows "returns_unit True s (in_hand s - {m}) (mbuf_free m s)"
proof -
  let ?t = "s\<lparr>mbufs := (mbufs s)(m := None), mavail := mavail s + 1\<rparr>"
  have w: "waiting ?t = waiting s" "m \<notin> waiting s" "mbufs s m \<noteq> None" using assms(2) by (simp_all add: waiting_def in_hand_def)
  have "waiting s \<subseteq> {x. mbufs ?t x \<noteq> None}" using assms(1) w(2) by (auto simp: net_ok_def)
  then have "net_ok ?t" using assms(1) unfolding net_ok_def w(1) by simp
  moreover have "in_hand ?t = in_hand s - {m}" unfolding in_hand_def w(1) by auto
  ultimately show ?thesis unfolding mbuf_free_def if_not_P [OF w(3)] returns_unit_Ok by (simp add: ifs_same_eq)
qed

lemma ifs_same_setif:
  assumes "\<And>f. if_same f (g f)"
  shows "ifs_same s (setif i g s)"
  using assms by (auto simp: ifs_same_def setif_def list_all2_conv_all_nth nth_list_update_conv)

lemma if_ok_same: "if_same f g \<Longrightarrow> if_ok f \<Longrightarrow> if_ok g"
  by (simp add: if_same_def if_ok_def)

lemma setif_ok:
  assumes "net_ok s" "\<And>f. if_same f (g f)"
  shows "net_ok (setif i g s)" "in_hand (setif i g s) = in_hand s" "ifs_same s (setif i g s)"
proof -
  show same: "ifs_same s (setif i g s)" by (rule ifs_same_setif) (rule assms(2))
  have "\<forall>f \<in> set (ifs (setif i g s)). if_ok f"
    using assms(1) same unfolding net_ok_def ifs_same_def list_all2_conv_all_nth by (metis if_ok_same in_set_conv_nth)
  then show "net_ok (setif i g s)" using assms(1) by (simp add: net_ok_def waiting_def)
  show "in_hand (setif i g s) = in_hand s" by (simp add: in_hand_def waiting_def)
qed

lemma log_event_ok [simp]: "net_ok (log_event e s) = net_ok s" "in_hand (log_event e s) = in_hand s" "arptab (log_event e s) = arptab s"
    "ifs (log_event e s) = ifs s" "mbufs (log_event e s) = mbufs s"
  by (simp_all add: log_event_def net_ok_def in_hand_def waiting_def)

subsection \<open>Changing one ARP entry\<close>

lemma setarp_frame [simp, frame]:
  "ifs (setarp i f s) = ifs s" "mbufs (setarp i f s) = mbufs s" "mnext (setarp i f s) = mnext s" "junk (setarp i f s) = junk s"
  "length (arptab (setarp i f s)) = length (arptab s)" "net_ticks (setarp i f s) = net_ticks s" "mavail (setarp i f s) = mavail s"
  "rtab (setarp i f s) = rtab s" "sent (setarp i f s) = sent s" "events (setarp i f s) = events s"
  by (simp_all add: setarp_def)

lemma nth_setarp: "i < length (arptab s) \<Longrightarrow> arptab (setarp i f s) ! j = (if i = j then f (arptab s ! i) else arptab s ! j)"
  by (auto simp: setarp_def nth_list_update)

lemma setarp_setarp: "i < length (arptab s) \<Longrightarrow> setarp i g (setarp i f s) = setarp i (\<lambda>e. g (f e)) s"
  by (simp add: setarp_def)

lemma waiting_nth: "m \<in> waiting s \<longleftrightarrow> (\<exists>j < length (arptab s). ae_pending (arptab s ! j) = Some m)"
  unfolding waiting_def mem_Collect_eq Bex_def in_set_conv_nth by blast

lemma waiting_setarp:
  assumes "net_ok s" "i < length (arptab s)"
  shows "waiting (setarp i f s) = waiting s - set_option (ae_pending (arptab s ! i)) \<union> set_option (ae_pending (f (arptab s ! i)))"
proof -
  have once: "j = i" if "j < length (arptab s)" "ae_pending (arptab s ! j) = Some m" "ae_pending (arptab s ! i) = Some m" for j m
    using assms that by (auto simp: net_ok_def pend_once_def)
  have "m \<in> waiting (setarp i f s) \<longleftrightarrow>
      ae_pending (f (arptab s ! i)) = Some m \<or> (\<exists>j < length (arptab s). j \<noteq> i \<and> ae_pending (arptab s ! j) = Some m)" for m
    using assms(2) unfolding waiting_nth by (auto simp: nth_setarp split: if_splits)
  moreover have "(\<exists>j < length (arptab s). j \<noteq> i \<and> ae_pending (arptab s ! j) = Some m) \<longleftrightarrow>
      m \<in> waiting s \<and> ae_pending (arptab s ! i) \<noteq> Some m" for m
    using once assms(2) unfolding waiting_nth by blast
  ultimately show ?thesis by (auto simp: elem_set)
qed

text \<open>The entry's old buffer is then held by the caller, and its new one must have been.\<close>

lemma setarp_ok:
  assumes ok: "net_ok s" and i: "i < length (arptab s)"
    and new: "set_option (ae_pending (f (arptab s ! i))) \<subseteq> in_hand s \<union> set_option (ae_pending (arptab s ! i))"
  shows "net_ok (setarp i f s)"
    "in_hand (setarp i f s) = in_hand s \<union> set_option (ae_pending (arptab s ! i)) - set_option (ae_pending (f (arptab s ! i)))"
proof -
  let ?old = "set_option (ae_pending (arptab s ! i))" and ?new = "set_option (ae_pending (f (arptab s ! i)))"
  note w = waiting_setarp [OF ok i, of f]
  have old: "?old \<subseteq> waiting s" using i by (auto simp: waiting_nth elem_set)
  have live: "waiting s \<subseteq> {m. mbufs s m \<noteq> None}" using ok by (simp add: net_ok_def)
  have hl: "in_hand s \<subseteq> {m. mbufs s m \<noteq> None}" "in_hand s \<inter> waiting s = {}" by (auto simp: in_hand_def)
  have "pend_once (arptab (setarp i f s))" unfolding pend_once_def setarp_frame
  proof (intro allI impI)
    fix j k m
    assume jk: "j < length (arptab s)" "k < length (arptab s)"
      and p: "ae_pending (arptab (setarp i f s) ! j) = Some m" "ae_pending (arptab (setarp i f s) ! k) = Some m"
    have once: "j' = k'" if "j' < length (arptab s)" "k' < length (arptab s)" "ae_pending (arptab s ! j') = Some m" "ae_pending (arptab s ! k') = Some m" for j' k'
      using ok that by (auto simp: net_ok_def pend_once_def)
    have other: "j' = i" if "j' < length (arptab s)" "ae_pending (arptab s ! j') = Some m" "ae_pending (f (arptab s ! i)) = Some m" for j'
    proof -
      have "m \<in> waiting s" using that by (auto simp: waiting_nth)
      then have "m \<in> ?old" using new that(3) hl(2) by (auto simp: elem_set)
      then show ?thesis using once [OF that(1) i that(2)] by (simp add: elem_set)
    qed
    show "j = k" using p jk i once other by (auto simp: nth_setarp split: if_splits)
  qed
  moreover have "waiting (setarp i f s) \<subseteq> {m. mbufs s m \<noteq> None}" unfolding w using old new live hl(1) by blast
  ultimately show "net_ok (setarp i f s)" using ok by (simp add: net_ok_def)
  show "in_hand (setarp i f s) = in_hand s \<union> ?old - ?new"
    unfolding in_hand_def setarp_frame w using old live by auto
qed

lemma mbuf_free_setarp: "mbuf_free m s = Ok t \<Longrightarrow> mbuf_free m (setarp i f s) = Ok (setarp i f t)"
  by (auto simp: mbuf_free_def setarp_def split: if_splits)

text \<open>Freeing the buffer of an entry and then overwriting the entry.\<close>

lemma replace_pending:
  assumes ok: "net_ok s" and i: "i < length (arptab s)"
    and new: "set_option (ae_pending (f (arptab s ! i))) \<subseteq> in_hand s"
  shows "\<exists>t. (case ae_pending (arptab s ! i) of None \<Rightarrow> Ok s | Some old \<Rightarrow> mbuf_free old s) = Ok t \<and>
    arptab t = arptab s \<and> ifs t = ifs s \<and> net_ticks t = net_ticks s \<and>
    net_ok (setarp i f t) \<and> in_hand (setarp i f t) = in_hand s - set_option (ae_pending (f (arptab s ! i)))"
proof (cases "ae_pending (arptab s ! i)")
  case None
  then show ?thesis using setarp_ok [OF ok i, of f] new by simp
next
  case (Some old)
  have wt: "old \<in> waiting s" using Some i by (auto simp: waiting_nth)
  then have lv: "mbufs s old \<noteq> None" "old \<notin> in_hand s" using ok by (auto simp: net_ok_def in_hand_def)
  define t where "t = s\<lparr>mbufs := (mbufs s)(old := None), mavail := mavail s + 1\<rparr>"
  have t: "mbuf_free old s = Ok t" "arptab t = arptab s" "ifs t = ifs s" "net_ticks t = net_ticks s"
    using lv(1) by (simp_all add: mbuf_free_def t_def)
  have s1: "net_ok (setarp i f s)" "in_hand (setarp i f s) = in_hand s \<union> {old} - set_option (ae_pending (f (arptab s ! i)))"
    using setarp_ok [OF ok i, of f] new by (auto simp: Some)
  have "old \<in> in_hand (setarp i f s)" using s1(2) new lv(2) by auto
  then have "returns_unit True (setarp i f s) (in_hand (setarp i f s) - {old}) (Ok (setarp i f t))"
    using mbuf_free_held [OF s1(1)] mbuf_free_setarp [OF t(1)] by metis
  then show ?thesis using t s1(2) lv(2) new by (auto simp: returns_unit_Ok Some)
qed

subsection \<open>The contract of an output routine\<close>

text \<open>
  A packet is \<open>unanswered\<close> when no input routine answers it: it is neither UDP, which may be refused, nor an ICMP echo request. So are the answers themselves.
\<close>

definition unanswered :: "mbuf \<Rightarrow> bool" where
  "unanswered b \<longleftrightarrow> (let d = mdata b; hlen = unat (d ! 0 AND 0x0f) * 4 in
     d ! 9 \<noteq> NET_IP_UDP \<and> (d ! 9 = NET_IP_ICMP \<longrightarrow> d ! hlen \<noteq> ICMP_ECHO))"

definition answer :: "mbuf \<Rightarrow> bool" where
  "answer b \<longleftrightarrow> (\<exists>ident ttl src dst payload rest. mdata b = ip_packet ident ttl NET_IP_ICMP src dst payload @ rest \<and>
     payload \<noteq> [] \<and> (payload ! 0 = ICMP_ECHO_REPLY \<or> payload ! 0 = ICMP_UNREACH))"

lemma answerI:
  assumes "payload \<noteq> []" "payload ! 0 = ICMP_ECHO_REPLY \<or> payload ! 0 = ICMP_UNREACH"
  shows "answer \<lparr>mdata = ip_packet ident ttl NET_IP_ICMP src dst payload @ rest, mlen = ln\<rparr>"
  unfolding answer_def
  by (rule exI [of _ ident], rule exI [of _ ttl], rule exI [of _ src], rule exI [of _ dst], rule exI [of _ payload], rule exI [of _ rest])
    (use assms in simp)

lemma answer_unanswered: "answer b \<Longrightarrow> unanswered b"
proof -
  assume "answer b"
  then obtain ident ttl src dst payload rest where d: "mdata b = ip_packet ident ttl NET_IP_ICMP src dst payload @ rest"
    and p: "payload \<noteq> []" "payload ! 0 = ICMP_ECHO_REPLY \<or> payload ! 0 = ICMP_UNREACH" by (auto simp: answer_def)
  define h where "h = ip_header (of_nat (IP_HLEN + length payload)) ident ttl NET_IP_ICMP
    (ip_checksum (ip_header (of_nat (IP_HLEN + length payload)) ident ttl NET_IP_ICMP 0 src dst)) src dst"
  have d': "mdata b = h @ (payload @ rest)" by (simp add: d ip_packet_def Let_def h_def)
  note f = header_fields [OF d' [unfolded h_def]]
  have "length h = 20" unfolding h_def by (rule words_sum_header)
  then have "mdata b ! 20 = payload ! 0" using p(1) by (simp add: d' nth_append)
  moreover have "unat (mdata b ! 0 AND 0x0f) * 4 = 20" unfolding f(1) by simp
  ultimately show ?thesis using p(2) f(2)
    by (auto simp: unanswered_def Let_def NET_IP_UDP_def NET_IP_ICMP_def ICMP_ECHO_def ICMP_ECHO_REPLY_def ICMP_UNREACH_def)
qed

definition gone :: "nat \<Rightarrow> net \<Rightarrow> int \<Rightarrow> nat set" where
  "gone m s q = (if q < 0 then in_hand s else in_hand s - {m})"

lemma gone_simps [simp]: "q < 0 \<Longrightarrow> gone m s q = in_hand s" "0 \<le> q \<Longrightarrow> gone m s q = in_hand s - {m}"
  by (simp_all add: gone_def)

lemma gone_cong: "in_hand s = in_hand t \<Longrightarrow> gone m s = gone m t"
  by (rule ext) (simp add: gone_def)

locale output_routine =
  fixes out :: outf and can_loop :: "mbuf \<Rightarrow> bool"
  assumes hw_out: "net_ok s \<Longrightarrow> m \<in> in_hand s \<Longrightarrow> ifp < length (ifs s) \<Longrightarrow> if_ops (ifp_of s ifp) = Some Hw_ops \<Longrightarrow>
      returns True s (gone m s) (out ifp m s)"
    and lo_out: "net_ok s \<Longrightarrow> m \<in> in_hand s \<Longrightarrow> ifp < length (ifs s) \<Longrightarrow> if_ops (ifp_of s ifp) = Some Lo_ops \<Longrightarrow>
      mbufs s m = Some b \<Longrightarrow> can_loop b \<Longrightarrow> returns True s (gone m s) (out ifp m s)"
    and answers_loop: "answer b \<Longrightarrow> can_loop b"
begin

lemma if_output_ok:
  assumes "net_ok s" "m \<in> in_hand s" "ifp < length (ifs s)"
    and "if_ops (ifp_of s ifp) = Some Lo_ops \<Longrightarrow> \<exists>b. mbufs s m = Some b \<and> can_loop b"
  shows "returns True s (gone m s) (if_output out ifp m s)"
proof (cases "if_ops (ifp_of s ifp) = None \<or> if_flags (ifp_of s ifp) AND IFF_UP = 0")
  case True
  then show ?thesis using assms(1) by (auto simp: if_output_def returns_Ok)
next
  case False
  then obtain d where d: "if_ops (ifp_of s ifp) = Some d" by auto
  then have "returns True s (gone m s) (out ifp m s)"
    using hw_out [OF assms(1-3)] lo_out [OF assms(1-3)] assms(4) by (cases d) auto
  then show ?thesis using False d by (simp add: if_output_def)
qed

end

text \<open>The frame fits into the buffer when the test before it has passed.\<close>

lemma ether_frame_ok:
  assumes b: "mbuf_ok b" and fit: "\<not> mlen b + of_nat ETHER_HDR_LEN > of_nat MBUF_SIZE"
  shows "mbuf_ok (ether_frame dst src ty b)"
proof -
  have l: "unat (mlen b) \<le> 2048" "length (mdata b) = 2048" using b by (simp_all add: mbuf_ok_def MBUF_SIZE_def)
  have "unat (mlen b + 14) = unat (mlen b) + 14" using l by (subst unat_add_no_wrap) simp_all
  then have n: "unat (mlen b) + 14 \<le> 2048" using fit by (simp add: ETHER_HDR_LEN_def MBUF_SIZE_def word_less_nat_alt)
  let ?d1 = "splice ETHER_HDR_LEN (take (unat (mlen b)) (mdata b)) (mdata b)"
  let ?d2 = "splice 0 (take ETH_ADDR_LEN dst @ take ETH_ADDR_LEN src @ be16 ty) ?d1"
  have d1: "length ?d1 = 2048" using n l by (subst length_splice) (auto simp: ETHER_HDR_LEN_def)
  have d2: "length ?d2 = 2048" using d1 by (subst length_splice) (auto simp: ETH_ADDR_LEN_def)
  have d3: "unat (mlen b) + 14 < 60 \<Longrightarrow> length (splice (unat (mlen b) + 14) (replicate (60 - (unat (mlen b) + 14)) 0) ?d2) = 2048"
    using d2 by (subst length_splice) auto
  have u: "unat (of_nat (unat (mlen b) + 14) :: u32) = unat (mlen b) + 14" using n by (intro unat_of_nat_len) simp
  show ?thesis
  proof (cases "unat (mlen b) + 14 < 60")
    case True
    then show ?thesis using d3 by (simp add: ether_frame_def Let_def ETHER_HDR_LEN_def ETHER_MIN_FRAME_def mbuf_ok_def MBUF_SIZE_def)
  next
    case False
    then show ?thesis using d2 u n
      by (simp add: ether_frame_def Let_def ETHER_HDR_LEN_def ETHER_MIN_FRAME_def mbuf_ok_def MBUF_SIZE_def)
  qed
qed

context output_routine
begin

lemma ether_output_ok:
  assumes ok: "net_ok s" "m \<in> in_hand s" "ifp < length (ifs s)" "if_ops (ifp_of s ifp) \<noteq> Some Lo_ops"
  shows "returns True s (gone m s) (ether_output out ifp m dst ty s)"
proof -
  obtain b where b: "mbufs s m = Some b" "mbuf_ok b" using heldE ok(1,2) by blast
  show ?thesis
  proof (cases "mlen b + of_nat ETHER_HDR_LEN > of_nat MBUF_SIZE")
    case True
    then show ?thesis using ok(1) by (simp add: ether_output_def with_mbuf_def b returns_Ok)
  next
    case False
    define b1 where "b1 = ether_frame dst (if_hwaddr (ifp_of s ifp)) ty b"
    define t where "t = set_mbuf m b1 s"
    have b1: "mbuf_ok b1" unfolding b1_def by (rule ether_frame_ok [OF b(2) False])
    have t: "net_ok t" "in_hand t = in_hand s" "ifs t = ifs s" "arptab t = arptab s"
      using set_mbuf_ok [OF ok(1) _ b1] b(1) by (simp_all add: t_def)
    have o: "returns True t (gone m t) (if_output out ifp m t)" by (rule if_output_ok) (use ok t in simp_all)
    have e: "ether_output out ifp m dst ty s = kbind (if_output out ifp m t) (\<lambda>(r, s1).
           if r < 0 then Ok (-1, setif ifp (\<lambda>f. f\<lparr>if_oerrors := if_oerrors f + 1\<rparr>) s1)
           else Ok (0, setif ifp (\<lambda>f. f\<lparr>if_opackets := if_opackets f + 1, if_obytes := if_obytes f + mlen b1\<rparr>) s1))"
      using False b(1) unfolding b1_def t_def by (simp add: ether_output_def with_mbuf_def Let_def)
    have "returns True t (gone m t) (ether_output out ifp m dst ty s)"
      unfolding e by (rule returns_bind [OF o]) (auto simp: returns_Ok setif_ok if_same_def)
    then show ?thesis unfolding gone_cong [OF t(2)] by (rule returns_from [rotated 2]) (use t in \<open>simp_all add: ifs_same_eq\<close>)
  qed
qed

end

subsection \<open>Address resolution keeps the contract\<close>

lemma length_arp_packet: "length (arp_packet oper sha spa tha tpa) \<le> 28"
  by (simp add: arp_packet_def arp_ip_encode_def ETH_ADDR_LEN_def)

lemma arp_oldest_less: "length (arptab s) = NET_ARP_CACHE_MAX \<Longrightarrow> arp_oldest s < length (arptab s)"
proof -
  assume l: "length (arptab s) = NET_ARP_CACHE_MAX"
  have "fold (\<lambda>i oldest. if ae_expire (arptab s ! i) < ae_expire (arptab s ! oldest) then i else oldest) is k < length (arptab s)"
    if "k < length (arptab s)" "\<forall>i \<in> set is. i < length (arptab s)" for "is" k
    using that by (induction "is" arbitrary: k) auto
  from this [of 0 "[0..<NET_ARP_CACHE_MAX]"] show ?thesis unfolding arp_oldest_def by (simp add: l NET_ARP_CACHE_MAX_def)
qed

text \<open>The entry that is allocated has no buffer, or is free; no entry before it matches what did not match before.\<close>

lemma arp_alloc_ok:
  assumes ok: "net_ok s" and none: "arp_lookup_locked ifp ip s = None"
  shows "\<exists>i t. arp_alloc_locked s = Ok (i, t) \<and> net_ok t \<and> in_hand t = in_hand s \<and> ifs t = ifs s \<and> i < length (arptab t) \<and> net_ticks t = net_ticks s \<and>
    arp_lookup_locked ifp ip t = None \<and> length (arptab t) = length (arptab s)"
proof (cases "first_index (\<lambda>e. ae_state e = ARP_FREE) (arptab s)")
  case (Some i)
  then show ?thesis using ok none first_index_SomeD [OF Some] by (simp add: arp_alloc_locked_def)
next
  case None
  let ?i = "arp_oldest s"
  have i: "?i < length (arptab s)" using ok by (intro arp_oldest_less) (simp add: net_ok_def)
  obtain t where t: "(case ae_pending (arptab s ! ?i) of None \<Rightarrow> Ok s | Some old \<Rightarrow> mbuf_free old s) = Ok t"
      "arptab t = arptab s" "ifs t = ifs s" "net_ticks t = net_ticks s" "net_ok (setarp ?i (\<lambda>_. arp_zero) t)" "in_hand (setarp ?i (\<lambda>_. arp_zero) t) = in_hand s"
    using replace_pending [OF ok i, of "\<lambda>_. arp_zero"] by (auto simp: arp_zero_def)
  have "arp_lookup_locked ifp ip (setarp ?i (\<lambda>_. arp_zero) t) = None"
    using none t(2) set_update_subset_insert [of "arptab s" ?i arp_zero] by (auto simp: arp_lookup_locked_def setarp_def arp_zero_def)
  then show ?thesis unfolding arp_alloc_locked_def None option.case Let_def t(1) using t i by simp
qed

lemma lookup_setarp:
  assumes i: "i < length (arptab s)" and before: "arp_lookup_locked ifp ip s = None \<or> arp_lookup_locked ifp ip s = Some i"
    and new: "ae_state (f (arptab s ! i)) \<noteq> ARP_FREE" "ae_ifp (f (arptab s ! i)) = Some ifp" "ae_ip (f (arptab s ! i)) = ip"
  shows "arp_lookup_locked ifp ip (setarp i f s) = Some i"
  unfolding arp_lookup_locked_def
proof (rule first_index_SomeI)
  show "i < length (arptab (setarp i f s))" using i by simp
  show "\<not> ae_state (arptab (setarp i f s) ! i) = ARP_FREE \<and> ae_ifp (arptab (setarp i f s) ! i) = Some ifp \<and> ae_ip (arptab (setarp i f s) ! i) = ip"
    using i new by (simp add: nth_setarp)
  show "\<forall>j < i. \<not> (\<not> ae_state (arptab (setarp i f s) ! j) = ARP_FREE \<and> ae_ifp (arptab (setarp i f s) ! j) = Some ifp \<and> ae_ip (arptab (setarp i f s) ! j) = ip)"
    using before
  proof
    assume "arp_lookup_locked ifp ip s = None"
    then show ?thesis using i by (auto simp: arp_lookup_locked_def nth_setarp)
  next
    assume "arp_lookup_locked ifp ip s = Some i"
    then have "\<forall>j < i. \<not> (\<not> ae_state (arptab s ! j) = ARP_FREE \<and> ae_ifp (arptab s ! j) = Some ifp \<and> ae_ip (arptab s ! j) = ip)"
      unfolding arp_lookup_locked_def by (drule_tac first_index_SomeD) blast
    then show ?thesis using i by (simp add: nth_setarp)
  qed
qed

text \<open>The entry waits with the caller's buffer.\<close>

lemma arp_begin_wait_ok:
  assumes ok: "net_ok s" and i: "i < length (arptab s)" and m: "m \<in> in_hand s"
    and before: "arp_lookup_locked ifp ip s = None \<or> arp_lookup_locked ifp ip s = Some i"
  shows "\<exists>need t. arp_begin_wait i ifp ip (Some m) s = Ok (Arp_wait need, t) \<and> net_ok t \<and> in_hand t = in_hand s - {m} \<and> ifs t = ifs s \<and>
    arp_lookup_locked ifp ip t = Some i \<and> i < length (arptab t) \<and> ae_pending (arptab t ! i) = Some m \<and> ae_state (arptab t ! i) = ARP_PENDING \<and>
    (need \<longleftrightarrow> ae_expire (arptab s ! i) \<le> net_ticks s) \<and> ae_expire (arptab t ! i) = net_ticks s + ARP_PENDING_TICKS \<and> net_ticks t = net_ticks s"
proof -
  let ?f = "\<lambda>e. e\<lparr>ae_pending := Some m\<rparr>"
  let ?g = "\<lambda>e. e\<lparr>ae_ip := ip, ae_ifp := Some ifp, ae_state := ARP_PENDING, ae_expire := net_ticks s + ARP_PENDING_TICKS\<rparr>"
  obtain t where t: "(case ae_pending (arptab s ! i) of None \<Rightarrow> Ok s | Some old \<Rightarrow> mbuf_free old s) = Ok t"
      "arptab t = arptab s" "ifs t = ifs s" "net_ticks t = net_ticks s"
      "net_ok (setarp i (\<lambda>e. ?g (?f e)) t)" "in_hand (setarp i (\<lambda>e. ?g (?f e)) t) = in_hand s - {m}"
    using replace_pending [OF ok i, of "\<lambda>e. ?g (?f e)"] m by auto
  have it: "i < length (arptab t)" using i t(2) by simp
  have "arp_lookup_locked ifp ip t = arp_lookup_locked ifp ip s" by (simp add: arp_lookup_locked_def t(2))
  then have l: "arp_lookup_locked ifp ip (setarp i (\<lambda>e. ?g (?f e)) t) = Some i"
    using before by (intro lookup_setarp [OF it]) auto
  have "arp_begin_wait i ifp ip (Some m) s =
      Ok (Arp_wait (ae_expire (arptab (setarp i ?f t) ! i) \<le> net_ticks s), setarp i ?g (setarp i ?f t))"
    unfolding arp_begin_wait_def option.case t(1) by (simp add: Let_def)
  then show ?thesis using t(2-6) l it unfolding setarp_setarp [OF it] by (simp add: nth_setarp)
qed

lemma arp_begin_ok:
  assumes ok: "net_ok s" and m: "m \<in> in_hand s"
  shows "\<exists>r t. arp_begin ifp ip (Some m) s = Ok (r, t) \<and> net_ok t \<and> ifs t = ifs s \<and>
    (case r of Arp_known _ \<Rightarrow> in_hand t = in_hand s
     | Arp_wait _ \<Rightarrow> in_hand t = in_hand s - {m} \<and> (\<exists>i. arp_lookup_locked ifp ip t = Some i \<and> i < length (arptab t) \<and>
         ae_pending (arptab t ! i) = Some m \<and> ae_state (arptab t ! i) = ARP_PENDING))"
proof (cases "ip = if_addr (ifp_of s ifp)")
  case True
  then show ?thesis using ok by (simp add: arp_begin_def)
next
  case ne: False
  show ?thesis
  proof (cases "arp_lookup_locked ifp ip s")
    case None
    obtain i t where t: "arp_alloc_locked s = Ok (i, t)" "net_ok t" "in_hand t = in_hand s" "ifs t = ifs s" "i < length (arptab t)"
        "arp_lookup_locked ifp ip t = None" using arp_alloc_ok [OF ok None] by blast
    obtain need u where "arp_begin_wait i ifp ip (Some m) t = Ok (Arp_wait need, u)" "net_ok u" "in_hand u = in_hand t - {m}" "ifs u = ifs t"
        "arp_lookup_locked ifp ip u = Some i" "i < length (arptab u)" "ae_pending (arptab u ! i) = Some m" "ae_state (arptab u ! i) = ARP_PENDING"
      using arp_begin_wait_ok [OF t(2,5), of m ifp ip] m t(3,6) by auto
    then show ?thesis using ne None t by (auto simp: arp_begin_def)
  next
    case (Some i)
    have i: "i < length (arptab s)" using first_index_SomeD [of _ "arptab s" i] Some by (simp add: arp_lookup_locked_def)
    obtain need u where u: "arp_begin_wait i ifp ip (Some m) s = Ok (Arp_wait need, u)" "net_ok u" "in_hand u = in_hand s - {m}" "ifs u = ifs s"
        "arp_lookup_locked ifp ip u = Some i" "i < length (arptab u)" "ae_pending (arptab u ! i) = Some m" "ae_state (arptab u ! i) = ARP_PENDING"
      using arp_begin_wait_ok [OF ok i m, of ifp ip] Some by auto
    show ?thesis using ne Some u ok by (auto simp: arp_begin_def)
  qed
qed

lemma arp_take_back_ok:
  assumes ok: "net_ok s" and l: "arp_lookup_locked ifp ip s = Some i" "i < length (arptab s)"
    and e: "ae_pending (arptab s ! i) = Some m" "ae_state (arptab s ! i) = ARP_PENDING"
  shows "net_ok (arp_take_back ifp ip (Some m) s)" "in_hand (arp_take_back ifp ip (Some m) s) = insert m (in_hand s)"
    "ifs (arp_take_back ifp ip (Some m) s) = ifs s"
proof -
  let ?f = "\<lambda>e. let e1 = (if ae_pending e = Some m then e\<lparr>ae_pending := None\<rparr> else e) in
          if ae_state e1 = ARP_PENDING then e1\<lparr>ae_ip := 0, ae_expire := 0, ae_state := ARP_FREE, ae_ifp := None\<rparr> else e1"
  have f: "ae_pending (?f (arptab s ! i)) = None" using e by (simp add: Let_def)
  have t: "arp_take_back ifp ip (Some m) s = setarp i ?f s" by (simp add: arp_take_back_def l)
  show "net_ok (arp_take_back ifp ip (Some m) s)" unfolding t by (rule setarp_ok [OF ok l(2)]) (unfold f, simp)
  have "in_hand (setarp i ?f s) = in_hand s \<union> set_option (ae_pending (arptab s ! i)) - set_option (ae_pending (?f (arptab s ! i)))"
    by (rule setarp_ok [OF ok l(2)]) (unfold f, simp)
  then show "in_hand (arp_take_back ifp ip (Some m) s) = insert m (in_hand s)" unfolding t using f e(1) by simp
  show "ifs (arp_take_back ifp ip (Some m) s) = ifs s" unfolding t by simp
qed

lemma arp_learn_ok:
  assumes ok: "net_ok s"
  shows "\<exists>p t. arp_learn ifp spa sha s = Ok (p, t) \<and> net_ok t \<and> ifs t = ifs s \<and> in_hand t = in_hand s \<union> set_option p \<and> set_option p \<inter> in_hand s = {}"
proof -
  obtain i u where u: "(case arp_lookup_locked ifp spa s of Some i \<Rightarrow> Ok (i, s) | None \<Rightarrow> arp_alloc_locked s) = Ok (i, u)" "net_ok u"
      "in_hand u = in_hand s" "ifs u = ifs s" "i < length (arptab u)"
  proof (cases "arp_lookup_locked ifp spa s")
    case None
    then show ?thesis using arp_alloc_ok [OF ok None] that by auto
  next
    case (Some i)
    then have "i < length (arptab s)" using first_index_SomeD [of _ "arptab s" i] by (simp add: arp_lookup_locked_def)
    then show ?thesis using that [of i s] ok Some by simp
  qed
  let ?g = "\<lambda>e. e\<lparr>ae_ip := spa, ae_ifp := Some ifp, ae_mac := sha, ae_state := ARP_RESOLVED,
         ae_expire := net_ticks s + ARP_RESOLVED_TICKS, ae_pending := None\<rparr>"
  have t: "net_ok (setarp i ?g u)" "in_hand (setarp i ?g u) = in_hand u \<union> set_option (ae_pending (arptab u ! i))"
    using setarp_ok [OF u(2,5), of ?g] by simp_all
  have "set_option (ae_pending (arptab u ! i)) \<subseteq> waiting u" using u(5) by (auto simp: waiting_nth)
  then have "set_option (ae_pending (arptab u ! i)) \<inter> in_hand u = {}" by (auto simp: in_hand_def)
  then show ?thesis using t u(3,4) by (simp add: arp_learn_def u(1))
qed

context output_routine
begin

lemma arp_send_ok:
  assumes ok: "net_ok s" "ifp < length (ifs s)" "if_ops (ifp_of s ifp) \<noteq> Some Lo_ops" and pkt: "length pkt \<le> 28"
  shows "returns True s (\<lambda>_. in_hand s) (arp_send out ifp pkt dst s)"
proof (cases "mbuf_alloc s")
  case (Pair mo t)
  show ?thesis
  proof (cases mo)
    case None
    then show ?thesis using Pair mbuf_alloc_None [of s t] ok(1) by (simp add: arp_send_def returns_Ok)
  next
    case (Some m)
    note a = mbuf_alloc_Some [OF ok(1) Pair [unfolded Some]]
    define b where "b = \<lparr>mdata = splice 0 pkt (junk s m), mlen = (28 :: u32)\<rparr>"
    define u where "u = set_mbuf m b t"
    have "mbuf_ok b" using a(7) pkt by (simp add: b_def mbuf_ok_def MBUF_SIZE_def)
    then have u: "net_ok u" "in_hand u = insert m (in_hand s)" "ifs u = ifs s" "arptab u = arptab s"
      using set_mbuf_ok [OF a(1), of m b] a(2,4,5,6) by (simp_all add: u_def)
    have o: "returns True u (gone m u) (ether_output out ifp m dst ETHERTYPE_ARP u)"
      by (rule ether_output_ok) (use u ok in simp_all)
    have e: "arp_send out ifp pkt dst s = kbind (ether_output out ifp m dst ETHERTYPE_ARP u) (\<lambda>(r, s2).
              if r < 0 then kbind (mbuf_free m s2) (\<lambda>s3. Ok (-1, s3)) else Ok (0, s2))"
      by (simp add: arp_send_def Pair Some with_mbuf_def a(4) u_def b_def)
    have "returns True u (\<lambda>_. in_hand s) (arp_send out ifp pkt dst s)" unfolding e
    proof (rule returns_bind [OF o])
      fix q v
      assume v: "net_ok v" "in_hand v = gone m u q"
      show "returns True v (\<lambda>_. in_hand s) (case (q, v) of (r, s2) \<Rightarrow> if r < 0 then kbind (mbuf_free m s2) (\<lambda>s3. Ok (-1, s3)) else Ok (0, s2))"
      proof (cases "q < 0")
        case True
        have "returns_unit True v (in_hand v - {m}) (mbuf_free m v)" by (rule mbuf_free_held) (use v True u in simp_all)
        then have "returns True v (\<lambda>_. in_hand s) (kbind (mbuf_free m v) (\<lambda>s3. Ok (-1, s3)))"
          by (rule returns_unit_bind) (use v True u a(3) in \<open>auto simp: returns_Ok\<close>)
        then show ?thesis using True by simp
      next
        case False
        then show ?thesis using v u a(3) by (simp add: returns_Ok)
      qed
    qed
    then show ?thesis by (rule returns_from [rotated 2]) (use u in \<open>simp_all add: ifs_same_eq\<close>)
  qed
qed

lemma arp_send_request_ok:
  assumes "net_ok s" "ifp < length (ifs s)" "if_ops (ifp_of s ifp) \<noteq> Some Lo_ops"
  shows "returns True s (\<lambda>_. in_hand s) (arp_send_request out ifp ip s)"
  using arp_send_ok [OF assms length_arp_packet] assms(1) by (simp add: arp_send_request_def Let_def returns_Ok)

lemma arp_send_reply_ok:
  assumes "net_ok s" "ifp < length (ifs s)" "if_ops (ifp_of s ifp) \<noteq> Some Lo_ops"
  shows "returns True s (\<lambda>_. in_hand s) (arp_send_reply out ifp mac ip s)"
  using arp_send_ok [OF assms length_arp_packet] by (simp add: arp_send_reply_def Let_def)

lemma arp_resolve_ok:
  assumes ok: "net_ok s" "ifp < length (ifs s)" "if_ops (ifp_of s ifp) \<noteq> Some Lo_ops" and m: "m \<in> in_hand s"
  shows "returns False s (\<lambda>(ret, _). if ret \<le> 0 then in_hand s else in_hand s - {m}) (arp_resolve out ifp ip (Some m) s)"
proof -
  obtain r t where t: "arp_begin ifp ip (Some m) s = Ok (r, t)" "net_ok t" "ifs t = ifs s" and
    r: "case r of Arp_known _ \<Rightarrow> in_hand t = in_hand s
     | Arp_wait _ \<Rightarrow> in_hand t = in_hand s - {m} \<and> (\<exists>i. arp_lookup_locked ifp ip t = Some i \<and> i < length (arptab t) \<and>
         ae_pending (arptab t ! i) = Some m \<and> ae_state (arptab t ! i) = ARP_PENDING)"
    using arp_begin_ok [OF ok(1) m] by blast
  have same: "ifs_same s t" using t(3) by (simp add: ifs_same_eq)
  show ?thesis
  proof (cases r)
    case (Arp_known mac)
    then show ?thesis using t r same by (simp add: arp_resolve_def returns_Ok)
  next
    case (Arp_wait need)
    then obtain i where h: "in_hand t = in_hand s - {m}" and i: "arp_lookup_locked ifp ip t = Some i" "i < length (arptab t)"
        "ae_pending (arptab t ! i) = Some m" "ae_state (arptab t ! i) = ARP_PENDING" using r by auto
    show ?thesis
    proof (cases need)
      case False
      then show ?thesis using Arp_wait t same h by (simp add: arp_resolve_def returns_Ok)
    next
      case True
      obtain q u where u: "arp_send_request out ifp ip t = Ok (q, u)" "net_ok u" "ifs_same t u" "in_hand u = in_hand t" "arptab u = arptab t"
        using arp_send_request_ok [OF t(2), of ifp ip] ok t(3) by (auto simp: returns_def)
      have iu: "arp_lookup_locked ifp ip u = Some i" "i < length (arptab u)" "ae_pending (arptab u ! i) = Some m" "ae_state (arptab u ! i) = ARP_PENDING"
        using i u(5) by (simp_all add: arp_lookup_locked_def)
      note b = arp_take_back_ok [OF u(2) iu]
      have "insert m (in_hand u) = in_hand s" using u(4) h m by auto
      moreover have "ifs_same s (arp_take_back ifp ip (Some m) u)" "ifs_same s u"
        using ifs_same_trans [OF same u(3)] ifs_same_trans [OF ifs_same_trans [OF same u(3)] ifs_same_eq] b(3) by simp_all
      ultimately show ?thesis using True Arp_wait t u b(1,2) h by (simp add: arp_resolve_def returns_Ok)
    qed
  qed
qed

lemma ether_output_ip_ok:
  assumes ok: "net_ok s" "ifp < length (ifs s)" "if_ops (ifp_of s ifp) \<noteq> Some Lo_ops" and m: "m \<in> in_hand s"
  shows "returns False s (gone m s) (ether_output_ip out ifp m next_hop s)"
proof (cases "ether_ipv4_broadcast (ifp_of s ifp) next_hop")
  case True
  then show ?thesis using returns_weaken [OF ether_output_ok [OF ok(1) m ok(2,3)]] by (simp add: ether_output_ip_def)
next
  case False
  have "returns False s (gone m s) (kbind (arp_resolve out ifp next_hop (Some m) s) (\<lambda>((ret, dst), s1).
        if ret < 0 then Ok (-1, s1) else if ret > 0 then Ok (0, s1) else ether_output out ifp m dst NET_PROTO_IP s1))"
  proof (rule returns_bind [OF arp_resolve_ok [OF ok m]], goal_cases)
    case (1 q t)
    note t = 1(2,3,4)
    obtain ret mac where q: "q = (ret, mac)" by (cases q)
    have "ifp < length (ifs t)" "if_ops (ifp_of t ifp) \<noteq> Some Lo_ops" using ifs_sameD [OF t(2) ok(2)] ok(2,3) by (simp_all add: if_same_def)
    then have "returns False t (gone m t) (ether_output out ifp m mac NET_PROTO_IP t)" if "in_hand t = in_hand s"
      using returns_weaken [OF ether_output_ok [OF t(1) _]] m that by simp
    then show ?case
      using t gone_cong [of t s m] by (auto simp: q returns_Ok split: if_splits)
  qed
  then show ?thesis using False by (simp add: ether_output_ip_def)
qed

end

subsection \<open>IP, ICMP and UDP keep the contract\<close>

abbreviation is_lo :: "net \<Rightarrow> nat \<Rightarrow> bool" where
  "is_lo s ifp \<equiv> if_ops (ifp_of s ifp) = Some Lo_ops"

lemma is_lo_same: "ifs_same s t \<Longrightarrow> ifp < length (ifs s) \<Longrightarrow> is_lo t ifp = is_lo s ifp \<and> ifp < length (ifs t)"
  using ifs_sameD [of s t ifp] by (simp add: if_same_def)

lemma lo_flags: "net_ok s \<Longrightarrow> ifp < length (ifs s) \<Longrightarrow> is_lo s ifp \<Longrightarrow> if_flags (ifp_of s ifp) AND IFF_LOOPBACK \<noteq> 0 \<and> if_handle (ifp_of s ifp) = Some In_ip"
  by (auto simp: net_ok_def if_ok_def)

lemma mnext_not_in_hand: "net_ok s \<Longrightarrow> mnext s \<notin> in_hand s"
  by (simp add: net_ok_def in_hand_def)

lemma ip_loaded_ok:
  fixes proto ttl :: u8 and src dst :: u32
  assumes ok: "net_ok s" and av: "0 < mavail s" and len: "length payload \<le> MBUF_SIZE - IP_HLEN"
  defines "t \<equiv> ip_loaded proto src dst payload ttl s"
  shows "net_ok t" "in_hand t = insert (mnext s) (in_hand s)" "ip_next_id t = ip_next_id s + 1" "ifs t = ifs s" "arptab t = arptab s"
    "mbufs t (mnext s) = Some \<lparr>mdata = ip_packet (ip_next_id s) ttl proto src dst payload @ drop (IP_HLEN + length payload) (junk s (mnext s)),
      mlen = of_nat (IP_HLEN + length payload)\<rparr>"
proof -
  let ?m = "mnext s"
  have j: "length (junk s ?m) = MBUF_SIZE" using ok by (simp add: net_ok_def)
  let ?b = "\<lparr>mdata = ip_build (ip_next_id s) ttl proto src dst payload (junk s ?m), mlen = (of_nat (IP_HLEN + length payload) :: u32)\<rparr>"
  have b: "mdata ?b = ip_packet (ip_next_id s) ttl proto src dst payload @ drop (IP_HLEN + length payload) (junk s ?m)"
    using ip_build_eq [OF j len] by simp
  have u: "unat (of_nat (IP_HLEN + length payload) :: u32) = IP_HLEN + length payload"
    using len by (intro unat_of_nat_len) (simp add: IP_HLEN_def MBUF_SIZE_def)
  have "mbuf_ok ?b" unfolding mbuf_ok_def b using len j u by (simp add: MBUF_SIZE_def IP_HLEN_def del: of_nat_add)
  define u0 where "u0 = s\<lparr>mbufs := (mbufs s)(?m \<mapsto> \<lparr>mdata = junk s ?m, mlen = 0\<rparr>), mnext := ?m + 1, mavail := mavail s - 1\<rparr>"
  have a: "mbuf_alloc s = (Some ?m, u0)" using av by (simp add: mbuf_alloc_def u0_def)
  note al = mbuf_alloc_Some [OF ok a]
  have t: "t = (set_mbuf ?m ?b u0)\<lparr>ip_next_id := ip_next_id s + 1\<rparr>" by (simp add: t_def ip_loaded_def set_mbuf_def u0_def)
  note st = set_mbuf_ok [OF al(1) _ \<open>mbuf_ok ?b\<close>, of ?m]
  have c: "net_ok t = net_ok (set_mbuf ?m ?b u0)" "in_hand t = in_hand (set_mbuf ?m ?b u0)" using net_ok_cong [of t "set_mbuf ?m ?b u0"] by (simp_all add: t)
  show "net_ok t" "in_hand t = insert ?m (in_hand s)" "ip_next_id t = ip_next_id s + 1" "ifs t = ifs s" "arptab t = arptab s"
    using c st al by (simp_all add: t)
  show "mbufs t ?m = Some \<lparr>mdata = ip_packet (ip_next_id s) ttl proto src dst payload @ drop (IP_HLEN + length payload) (junk s ?m),
      mlen = of_nat (IP_HLEN + length payload)\<rparr>"
    using b by (simp add: t set_mbuf_def)
qed

lemma free_on_error_ok:
  assumes r: "returns arp t (gone m t) r" and t: "in_hand t = insert m H" "m \<notin> H"
  shows "returns arp t (\<lambda>_. H) (free_on_error m len r)"
  unfolding free_on_error_def
proof (rule returns_bind [OF r], goal_cases)
  case (1 q v)
  show ?case
  proof (cases "q < 0")
    case True
    have "returns_unit True v (in_hand v - {m}) (mbuf_free m v)" by (rule mbuf_free_held) (use 1 True t in simp_all)
    then have "returns True v (\<lambda>_. H) (kbind (mbuf_free m v) (\<lambda>s3. Ok (-1 :: int, s3)))"
      by (rule returns_unit_bind) (use 1 True t in \<open>auto simp: returns_Ok\<close>)
    then show ?thesis using True by (cases arp) (simp_all add: returns_weaken)
  next
    case False
    then show ?thesis using 1 t by (simp add: returns_Ok)
  qed
qed

context output_routine
begin

lemma ip_output_ttl_ok:
  assumes ok: "net_ok s" "ifp < length (ifs s)"
    and lo: "\<And>ident rest ln. is_lo s ifp \<Longrightarrow> can_loop \<lparr>mdata = ip_packet ident ttl proto src dst payload @ rest, mlen = ln\<rparr>"
  shows "returns (is_lo s ifp) s (\<lambda>_. in_hand s) (ip_output_ttl out ifp proto src dst payload ttl s)"
proof (cases "length payload > MBUF_SIZE - IP_HLEN \<or> mavail s = 0")
  case True
  then show ?thesis using ok(1) by (auto simp: ip_output_ttl_def mbuf_alloc_def Let_def returns_Ok)
next
  case False
  let ?t = "ip_loaded proto src dst payload ttl s" and ?m = "mnext s"
  have len: "length payload \<le> MBUF_SIZE - IP_HLEN" and av: "0 < mavail s" using False by auto
  note t = ip_loaded_ok [OF ok(1) av len, where proto = proto and ttl = ttl and src = src and dst = dst]
  have same: "ifs_same s ?t" using t(4) by (simp add: ifs_same_eq)
  note nh = mnext_not_in_hand [OF ok(1)]
  let ?r = "ip_output_ttl out ifp proto src dst payload ttl s"
  have "returns (is_lo s ifp) ?t (\<lambda>_. in_hand s) ?r"
  proof (cases "if_flags (ifp_of s ifp) AND IFF_LOOPBACK \<noteq> 0 \<or> if_flags (ifp_of s ifp) AND IFF_POINTOPOINT \<noteq> 0")
    case True
    have "returns True ?t (gone ?m ?t) (if_output out ifp ?m ?t)"
      by (rule if_output_ok) (use t ok lo in auto)
    then have "returns True ?t (\<lambda>_. in_hand s) (free_on_error ?m (int (length payload)) (if_output out ifp ?m ?t))"
      by (rule free_on_error_ok) (use t nh in simp_all)
    then show ?thesis using ip_output_ttl_eq [OF len av] True by (cases "is_lo s ifp") (simp_all add: Let_def returns_weaken)
  next
    case False
    then have nlo: "\<not> is_lo s ifp" using lo_flags [OF ok] by blast
    have "returns False ?t (gone ?m ?t) (ether_output_ip out ifp ?m hop ?t)" for hop
      by (rule ether_output_ip_ok) (use t ok nlo in simp_all)
    then have "returns False ?t (\<lambda>_. in_hand s) (free_on_error ?m (int (length payload)) (ether_output_ip out ifp ?m hop ?t))" for hop
      by (rule free_on_error_ok) (use t nh in simp_all)
    then show ?thesis using ip_output_ttl_eq [OF len av] False nlo by (simp add: Let_def)
  qed
  then show ?thesis by (rule returns_from [rotated 2]) (use t same in simp_all)
qed

lemma answer_output_ok:
  assumes "net_ok s" "ifp < length (ifs s)" "payload \<noteq> []" "payload ! 0 = ICMP_ECHO_REPLY \<or> payload ! 0 = ICMP_UNREACH"
  shows "returns_unit (is_lo s ifp) s (in_hand s) (kbind (ip_output out ifp NET_IP_ICMP src dst payload s) (\<lambda>(_, s2). Ok s2))"
proof -
  have "can_loop \<lparr>mdata = ip_packet ident 64 NET_IP_ICMP src dst payload @ rest, mlen = ln\<rparr>" for ident rest ln
    by (rule answers_loop, rule answerI [OF assms(3,4)])
  then have "returns (is_lo s ifp) s (\<lambda>_. in_hand s) (ip_output_ttl out ifp NET_IP_ICMP src dst payload 64 s)"
    by (rule ip_output_ttl_ok [OF assms(1,2)])
  then show ?thesis unfolding ip_output_def by (rule returns_bind_unit) (simp add: returns_unit_Ok)
qed

lemma icmp_input_ok:
  assumes ok: "net_ok s" "ifp < length (ifs s)"
  shows "returns_unit (is_lo s ifp) s (in_hand s) (icmp_input out ifp src dst payload s)"
proof (cases "length payload < 8")
  case True
  then show ?thesis using ok by (simp add: icmp_input_def returns_unit_Ok)
next
  case False
  define e where "e = Socket_deliver_raw \<lparr>sin_port = 0, s_addr = src\<rparr> \<lparr>sin_port = 0, s_addr = dst\<rparr> payload"
  let ?p1 = "splice 2 (st16 0) (payload[0 := ICMP_ECHO_REPLY])"
  let ?p2 = "splice 2 (st16 (icmp_csum ?p1)) ?p1"
  have l: "length ?p1 = length payload" using False by simp
  have "length ?p2 = length payload" using False l by simp
  then have "0 < length ?p2" using False by linarith
  then have ne: "?p2 \<noteq> []" by (rule length_greater_0_conv [THEN iffD1])
  have pl: "0 < length payload" "4 \<le> length payload" using False by auto
  have "?p1 ! 0 = ICMP_ECHO_REPLY" using pl by (subst nth_splice) simp_all
  then have first: "?p2 ! 0 = ICMP_ECHO_REPLY" using pl l by (subst nth_splice) simp_all
  have "returns_unit (is_lo (log_event e s) ifp) (log_event e s) (in_hand (log_event e s))
      (kbind (ip_output out ifp NET_IP_ICMP dst src ?p2 (log_event e s)) (\<lambda>(_, s2). Ok s2))"
    by (rule answer_output_ok [OF _ _ ne disjI1 [OF first]]) (use ok in simp_all)
  then have r: "returns_unit (is_lo s ifp) s (in_hand s) (kbind (ip_output out ifp NET_IP_ICMP dst src ?p2 (log_event e s)) (\<lambda>(_, s2). Ok s2))"
    unfolding log_event_ok by (rule returns_unit_from [rotated 2]) (simp_all add: ifs_same_eq)
  show ?thesis unfolding icmp_input_def if_not_P [OF False] Let_def e_def [symmetric]
  proof (cases "payload ! 0 = ICMP_ECHO \<and> payload ! 1 = 0")
    case True
    show "returns_unit (is_lo s ifp) s (in_hand s) (if payload ! 0 = ICMP_ECHO \<and> payload ! 1 = 0
        then kbind (ip_output out ifp NET_IP_ICMP dst src ?p2 (log_event e s)) (\<lambda>(_, s2). Ok s2) else Ok (log_event e s))"
      unfolding if_P [OF True] by (rule r)
  next
    case no: False
    show "returns_unit (is_lo s ifp) s (in_hand s) (if payload ! 0 = ICMP_ECHO \<and> payload ! 1 = 0
        then kbind (ip_output out ifp NET_IP_ICMP dst src ?p2 (log_event e s)) (\<lambda>(_, s2). Ok s2) else Ok (log_event e s))"
      unfolding if_not_P [OF no] returns_unit_Ok using ok(1) by (simp add: ifs_same_eq)
  qed
qed

lemma icmp_send_unreach_ok:
  assumes ok: "net_ok s" "ifp < length (ifs s)"
  shows "returns_unit (is_lo s ifp) s (in_hand s) (icmp_send_unreach out ifp orig tlen code s)"
proof -
  let ?buf = "\<lambda>n. [ICMP_UNREACH, code, 0, 0, 0, 0, 0, 0] @ take n orig"
  let ?b2 = "\<lambda>n. splice 2 (st16 (icmp_csum (?buf n))) (?buf n)"
  have l: "length (?b2 n) = length (?buf n)" for n by (rule length_splice) simp
  have ne: "?b2 n \<noteq> []" for n using l [of n] by (metis append_is_Nil_conv length_0_conv list.distinct(1))
  have first: "?b2 n ! 0 = ICMP_UNREACH" for n by (subst nth_splice) auto
  show ?thesis using ok(1) answer_output_ok [OF ok ne] first
    by (simp add: icmp_send_unreach_def Let_def returns_unit_Ok)
qed

lemma udp_input_ok:
  assumes ok: "net_ok s" "ifp < length (ifs s)"
  shows "returns_unit (is_lo s ifp) s (in_hand s) (udp_input accepts out ifp ip payload s)"
  using ok icmp_send_unreach_ok [OF ok] by (simp add: udp_input_def Let_def returns_unit_Ok ifs_same_eq)

end

subsection \<open>Input consumes the buffer\<close>

lemma mbuf_free_ok: "net_ok s \<Longrightarrow> m \<in> in_hand s \<Longrightarrow> returns_unit arp s (in_hand s - {m}) (mbuf_free m s)"
  using mbuf_free_held [of s m] by (cases arp) (simp_all add: returns_unit_weaken)

lemma ierror_ok:
  assumes "net_ok s" "m \<in> in_hand s"
  shows "returns_unit arp s (in_hand s - {m}) (mbuf_free m (ierror ifp s))"
proof -
  have e: "net_ok (ierror ifp s)" "in_hand (ierror ifp s) = in_hand s" "ifs_same s (ierror ifp s)" "arptab (ierror ifp s) = arptab s"
    using setif_ok [OF assms(1), of "\<lambda>f. f\<lparr>if_ierrors := if_ierrors f + 1\<rparr>" ifp] by (simp_all add: ierror_def if_same_def)
  have "returns_unit arp (ierror ifp s) (in_hand s - {m}) (mbuf_free m (ierror ifp s))"
    using mbuf_free_ok [OF e(1), of m arp] assms(2) e(2) by simp
  then show ?thesis by (rule returns_unit_from [rotated 2]) (use e in simp_all)
qed

text \<open>The tests of \<open>ip_input\<close>, for any way of handing the payload on that keeps the buffers.\<close>

lemma ip_input_shape:
  assumes ok: "net_ok s" "m \<in> in_hand s" and b: "mbufs s m = Some b"
    and deliver: "\<And>src dst plen. let hlen = unat (mdata b ! 0 AND 0x0f) * 4 in
      returns_unit arp s (in_hand s) (ip_deliver accepts out ifp (mdata b) (mdata b ! 9) src dst (take plen (drop hlen (mdata b))) s)"
  shows "returns_unit arp s (in_hand s - {m}) (ip_input accepts out ifp m s)"
proof -
  let ?hlen = "unat (mdata b ! 0 AND 0x0f) * 4"
  have d: "returns_unit arp s (in_hand s - {m})
      (kbind (ip_deliver accepts out ifp (mdata b) (mdata b ! 9) src dst (take plen (drop ?hlen (mdata b))) s) (mbuf_free m))" for src dst plen
  proof (rule returns_unit_bind_unit [OF deliver [unfolded Let_def]], goal_cases)
    case (1 t)
    show ?case using mbuf_free_ok [OF 1(2), of m arp] ok(2) 1(4) by simp
  qed
  show ?thesis
    unfolding ip_input_def with_mbuf_def b option.case Let_def ip_deliver_def [symmetric]
    using mbuf_free_ok [OF ok] ierror_ok [OF ok] d by (simp split del: if_split split: if_split)
qed

context output_routine
begin

lemma ip_input_ok:
  assumes ok: "net_ok s" "m \<in> in_hand s" "ifp < length (ifs s)"
  shows "returns_unit (is_lo s ifp) s (in_hand s - {m}) (ip_input accepts out ifp m s)"
proof -
  obtain b where b: "mbufs s m = Some b" using heldE ok(1,2) by blast
  show ?thesis
  proof (rule ip_input_shape [OF ok(1,2) b], unfold Let_def ip_deliver_def, goal_cases)
    case (1 src dst plen)
    show ?case using icmp_input_ok [OF ok(1,3)] udp_input_ok [OF ok(1,3)] ok(1) by (simp add: returns_unit_Ok ifs_same_eq)
  qed
qed

lemma send_pending_ok:
  assumes ok: "net_ok t" "ifp < length (ifs t)" "\<not> is_lo t ifp" and p: "set_option pending \<subseteq> in_hand t"
  shows "returns_unit False t (in_hand t - set_option pending) (case pending of None \<Rightarrow> Ok t
    | Some p \<Rightarrow> kbind (ether_output out ifp p sha NET_PROTO_IP t) (\<lambda>(r, s2). if r < 0 then mbuf_free p s2 else Ok s2))"
proof (cases pending)
  case None
  then show ?thesis using ok by (simp add: returns_unit_Ok)
next
  case (Some p)
  have hand: "p \<in> in_hand t" using p Some by simp
  have "returns_unit True t (in_hand t - {p}) (kbind (ether_output out ifp p sha NET_PROTO_IP t) (\<lambda>(r, s2). if r < 0 then mbuf_free p s2 else Ok s2))"
  proof (rule returns_bind_unit [OF ether_output_ok [OF ok(1) hand ok(2,3)]], goal_cases)
    case (1 q u)
    show ?case using mbuf_free_ok [OF 1(2), of p True] 1 hand by (cases "q < 0") (simp_all add: returns_unit_Ok)
  qed
  then show ?thesis using Some returns_unit_weaken by simp
qed

lemma arp_input_ok:
  assumes ok: "net_ok s" "m \<in> in_hand s" "ifp < length (ifs s)" "\<not> is_lo s ifp"
  shows "returns_unit False s (in_hand s - {m}) (arp_input out ifp m s)"
proof -
  obtain b where b: "mbufs s m = Some b" using heldE ok(1,2) by blast
  have main: "returns_unit False s (in_hand s - {m}) (kbind (arp_learn ifp spa sha s) (\<lambda>(pending, s1).
           kbind (case pending of None \<Rightarrow> Ok s1
             | Some p \<Rightarrow> kbind (ether_output out ifp p sha NET_PROTO_IP s1) (\<lambda>(r, s2). if r < 0 then mbuf_free p s2 else Ok s2)) (\<lambda>s3.
           kbind (if oper = ARP_OP_REQUEST \<and> if_addr (ifp_of s3 ifp) \<noteq> 0 \<and> tpa = if_addr (ifp_of s3 ifp)
             then kbind (arp_send_reply out ifp sha spa s3) (\<lambda>(_, s4). Ok s4) else Ok s3) (\<lambda>s5.
           mbuf_free m s5))))" for spa sha oper tpa
  proof -
    obtain p t where t: "arp_learn ifp spa sha s = Ok (p, t)" "net_ok t" "ifs t = ifs s" "in_hand t = in_hand s \<union> set_option p"
        "set_option p \<inter> in_hand s = {}" using arp_learn_ok [OF ok(1)] by blast
    have rest: "in_hand t - set_option p = in_hand s" using t(4,5) by blast
    have "returns_unit False t (in_hand s - {m}) (kbind (case p of None \<Rightarrow> Ok t
             | Some p \<Rightarrow> kbind (ether_output out ifp p sha NET_PROTO_IP t) (\<lambda>(r, s2). if r < 0 then mbuf_free p s2 else Ok s2)) (\<lambda>s3.
           kbind (if oper = ARP_OP_REQUEST \<and> if_addr (ifp_of s3 ifp) \<noteq> 0 \<and> tpa = if_addr (ifp_of s3 ifp)
             then kbind (arp_send_reply out ifp sha spa s3) (\<lambda>(_, s4). Ok s4) else Ok s3) (\<lambda>s5. mbuf_free m s5)))"
    proof (rule returns_unit_bind_unit [OF send_pending_ok [OF t(2)]], goal_cases)
      case (4 u)
      have lu: "ifp < length (ifs u)" "\<not> is_lo u ifp" using is_lo_same [OF 4(3), of ifp] ok(3,4) t(3) by simp_all
      have r: "returns_unit False u (in_hand u) (kbind (arp_send_reply out ifp sha spa u) (\<lambda>(_, s4). Ok s4))"
        by (rule returns_bind_unit [OF returns_weaken [OF arp_send_reply_ok [OF 4(2) lu]]]) (simp add: returns_unit_Ok)
      have "returns_unit False u (in_hand u) (if oper = ARP_OP_REQUEST \<and> if_addr (ifp_of u ifp) \<noteq> 0 \<and> tpa = if_addr (ifp_of u ifp)
             then kbind (arp_send_reply out ifp sha spa u) (\<lambda>(_, s4). Ok s4) else Ok u)"
        using r 4(2) by (simp add: returns_unit_Ok)
      then show ?case
      proof (rule returns_unit_bind_unit, goal_cases)
        case (1 v)
        show ?case using mbuf_free_ok [OF 1(2), of m False] ok(2) 1(4) 4(4) rest by simp
      qed
    qed (use t ok in auto)
    then show ?thesis using t(1,3) returns_unit_from [of s t False] by (simp add: ifs_same_eq)
  qed
  show ?thesis
    unfolding arp_input_def with_mbuf_def b option.case Let_def
    using mbuf_free_ok [OF ok(1,2)] main by (simp split del: if_split split: if_split)
qed

end

text \<open>The payload moved down over the Ethernet header.\<close>

lemma strip_ok:
  assumes b: "mbuf_ok b" and len: "\<not> mlen b < of_nat ETHER_HDR_LEN"
  shows "mbuf_ok \<lparr>mdata = splice 0 (take (unat (mlen b) - ETHER_HDR_LEN) (drop ETHER_HDR_LEN (mdata b))) (mdata b), mlen = mlen b - of_nat ETHER_HDR_LEN\<rparr>"
proof -
  have l: "unat (mlen b) \<le> 2048" "length (mdata b) = 2048" "14 \<le> unat (mlen b)"
    using b len by (simp_all add: mbuf_ok_def MBUF_SIZE_def ETHER_HDR_LEN_def word_less_nat_alt)
  then have "unat (mlen b - 14) = unat (mlen b) - 14" by (subst unat_diff_le) (simp_all add: word_le_nat_alt)
  moreover have "length (splice 0 (take (unat (mlen b) - 14) (drop 14 (mdata b))) (mdata b)) = 2048" using l by (subst length_splice) simp_all
  ultimately show ?thesis using l by (simp add: mbuf_ok_def MBUF_SIZE_def ETHER_HDR_LEN_def)
qed

context output_routine
begin

lemma ether_input_ok:
  assumes ok: "net_ok s" "m \<in> in_hand s" "ifp < length (ifs s)" "\<not> is_lo s ifp"
  shows "returns_unit False s (in_hand s - {m}) (ether_input accepts out ifp m s)"
proof -
  obtain b where b: "mbufs s m = Some b" "mbuf_ok b" using heldE ok(1,2) by blast
  define b1 where "b1 = \<lparr>mdata = splice 0 (take (unat (mlen b) - ETHER_HDR_LEN) (drop ETHER_HDR_LEN (mdata b))) (mdata b), mlen = mlen b - of_nat ETHER_HDR_LEN\<rparr>"
  define s1 where "s1 = setif ifp (\<lambda>f. f\<lparr>if_ipackets := if_ipackets f + 1, if_ibytes := if_ibytes f + mlen b1\<rparr>) (set_mbuf m b1 s)"
  have main: "returns_unit False s (in_hand s - {m}) (if ty = NET_PROTO_IP then ip_input accepts out ifp m s1
      else if ty = ETHERTYPE_ARP then arp_input out ifp m s1 else mbuf_free m s1)" if len: "\<not> mlen b < of_nat ETHER_HDR_LEN" for ty
  proof -
    have "mbuf_ok b1" unfolding b1_def by (rule strip_ok [OF b(2) len])
    then have t: "net_ok (set_mbuf m b1 s)" "in_hand (set_mbuf m b1 s) = in_hand s" "ifs (set_mbuf m b1 s) = ifs s" "arptab (set_mbuf m b1 s) = arptab s"
      using set_mbuf_ok [OF ok(1), of m b1] b(1) by simp_all
    have u: "net_ok s1" "in_hand s1 = in_hand s" "ifs_same (set_mbuf m b1 s) s1"
      using setif_ok [OF t(1), of "\<lambda>f. f\<lparr>if_ipackets := if_ipackets f + 1, if_ibytes := if_ibytes f + mlen b1\<rparr>" ifp] t(2)
      by (simp_all add: s1_def if_same_def)
    have same: "ifs_same s s1" using u(3) t(3) by (simp add: ifs_same_def)
    have l: "ifp < length (ifs s1)" "\<not> is_lo s1 ifp" using is_lo_same [OF same ok(3)] ok(4) by simp_all
    have m: "m \<in> in_hand s1" using u(2) ok(2) by simp
    have "returns_unit False s1 (in_hand s - {m}) (if ty = NET_PROTO_IP then ip_input accepts out ifp m s1
        else if ty = ETHERTYPE_ARP then arp_input out ifp m s1 else mbuf_free m s1)"
      using ip_input_ok [OF u(1) m l(1)] arp_input_ok [OF u(1) m l] mbuf_free_ok [OF u(1) m] l(2) u(2) by simp
    then show ?thesis using returns_unit_from [OF same, of False] by simp
  qed
  show ?thesis
    unfolding ether_input_def with_mbuf_def b(1) option.case Let_def b1_def [symmetric] s1_def [symmetric]
    using mbuf_free_ok [OF ok(1,2)] main by simp
qed

lemma if_input_ok:
  assumes ok: "net_ok s" "m \<in> in_hand s" "ifp < length (ifs s)"
  shows "returns_unit (is_lo s ifp) s (in_hand s - {m}) (if_input accepts out ifp m s)"
proof (cases "is_lo s ifp")
  case True
  then have "if_handle (ifp_of s ifp) = Some In_ip" using lo_flags [OF ok(1,3)] by blast
  then show ?thesis using ip_input_ok [OF ok] by (simp add: if_input_def)
next
  case False
  then show ?thesis
    using ip_input_ok [OF ok] ether_input_ok [OF ok False] mbuf_free_ok [OF ok(1,2)]
    by (auto simp: if_input_def split: option.split if_handler.split)
qed

end

subsection \<open>The interfaces' own output routines satisfy the contract\<close>

lemma ip_input_unanswered:
  assumes ok: "net_ok s" "m \<in> in_hand s" and b: "mbufs s m = Some b" "unanswered b"
  shows "returns_unit True s (in_hand s - {m}) (ip_input accepts out ifp m s)"
proof (rule ip_input_shape [OF ok b(1)], unfold Let_def, goal_cases)
  case (1 src dst plen)
  let ?hlen = "unat (mdata b ! 0 AND 0x0f) * 4"
  let ?p = "take plen (drop ?hlen (mdata b))"
  have u: "mdata b ! 9 \<noteq> NET_IP_UDP" "mdata b ! 9 = NET_IP_ICMP \<Longrightarrow> mdata b ! ?hlen \<noteq> ICMP_ECHO"
    using b(2) by (simp_all add: unanswered_def Let_def)
  have "?p ! 0 = mdata b ! ?hlen" if "\<not> length ?p < 8" using that by (cases plen) auto
  then have "mdata b ! 9 = NET_IP_ICMP \<Longrightarrow> returns_unit True s (in_hand s) (icmp_input out ifp src dst ?p s)"
    using u(2) ok(1) by (auto simp: icmp_input_def Let_def returns_unit_Ok ifs_same_eq)
  then show ?case using u(1) ok(1) by (simp add: ip_deliver_def returns_unit_Ok ifs_same_eq)
qed

lemma hw_output_ok:
  assumes ok: "net_ok s" "m \<in> in_hand s"
  shows "returns True s (gone m s) (hw_output hw ifp m s)"
proof -
  obtain b where b: "mbufs s m = Some b" using heldE ok by blast
  let ?f = "take (unat (mlen b)) (mdata b)"
  have "returns True s (gone m s) (kbind (mbuf_free m s) (\<lambda>s1. Ok (0, s1\<lparr>sent := sent s1 @ [(ifp, ?f)]\<rparr>)))"
  proof (rule returns_unit_bind [OF mbuf_free_held [OF ok]], goal_cases)
    case (1 t)
    let ?t = "t\<lparr>sent := sent t @ [(ifp, ?f)]\<rparr>"
    have "net_ok ?t = net_ok t" "in_hand ?t = in_hand t" "ifs_same t ?t" by (rule net_ok_cong; simp)+
    then show ?case using 1 by (simp add: returns_Ok)
  qed
  then show ?thesis using ok(1) by (simp add: hw_output_def with_mbuf_def b Let_def returns_Ok)
qed

lemma lo_output_ok:
  assumes "returns_unit True s (in_hand s - {m}) (if_input accepts out ifp m s)"
  shows "returns True s (gone m s) (lo_output accepts out ifp m s)"
  unfolding lo_output_def by (rule returns_unit_bind [OF assms]) (simp add: returns_Ok)

text \<open>
  One round through the loopback is enough for a packet that is not answered, two for any packet: the answer to a packet is not
  answered again.
\<close>

lemma drv_output_routine: "output_routine (drv_output accepts hw (Suc n)) (if n = 0 then unanswered else (\<lambda>_. True))"
proof (induction n)
  case 0
  show ?case
  proof (unfold_locales, goal_cases)
    case (1 s m ifp)
    then show ?case using hw_output_ok by simp
  next
    case (2 s m ifp b)
    have "if_handle (ifp_of s ifp) = Some In_ip" using lo_flags [OF 2(1,3,4)] by blast
    then have "returns_unit True s (in_hand s - {m}) (if_input accepts (drv_output accepts hw 0) ifp m s)"
      using ip_input_unanswered [OF 2(1,2,5)] 2(6) by (simp add: if_input_def)
    then show ?case using 2(4) lo_output_ok by simp
  next
    case (3 b)
    then show ?case using answer_unanswered by simp
  qed
next
  case (Suc n)
  show ?case
  proof (unfold_locales, goal_cases)
    case (1 s m ifp)
    then show ?case using hw_output_ok by simp
  next
    case (2 s m ifp b)
    have "returns_unit True s (in_hand s - {m}) (if_input accepts (drv_output accepts hw (Suc n)) ifp m s)"
      using output_routine.if_input_ok [OF Suc.IH 2(1,2,3), of accepts] 2(4) by (simp del: drv_output.simps)
    then show ?case using 2(4) lo_output_ok unfolding drv_output.simps(2) [of _ _ "Suc n"] by (simp del: drv_output.simps)
  qed simp
qed

interpretation drv: output_routine "drv_output accepts hw (Suc (Suc n))" "\<lambda>_. True" for accepts hw n
  using drv_output_routine [of accepts hw "Suc n"] by simp

subsection \<open>Properties\<close>

text \<open>
  What may happen to the network code: a frame arrives at an interface (the receive path that the drivers share, as in \<open>virtio_net.c\<close>: a
  frame of at most a buffer's size is copied into a new buffer and given to the input routine), a socket sends a datagram, time passes.
\<close>

datatype net_cmd = Receive nat bytes | Send_udp nat sockaddr_in sockaddr_in bytes | Clock_tick

definition drv_receive :: "sockf \<Rightarrow> outf \<Rightarrow> nat \<Rightarrow> bytes \<Rightarrow> net \<Rightarrow> net kres" where
  "drv_receive accepts out ifp frame s =
     (if length frame > MBUF_SIZE then Ok s
      else case mbuf_alloc s of
          (None, s1) \<Rightarrow> Ok s1
        | (Some m, s1) \<Rightarrow> with_mbuf m s1 (\<lambda>b.
            if_input accepts out ifp m (set_mbuf m \<lparr>mdata = splice 0 frame (mdata b), mlen = of_nat (length frame)\<rparr> s1)))"

definition net_cmd_step :: "sockf \<Rightarrow> outf \<Rightarrow> net_cmd \<Rightarrow> net \<Rightarrow> net kres" where
  "net_cmd_step accepts out c s =
     (case c of
        Receive ifp frame \<Rightarrow> if ifp < length (ifs s) then drv_receive accepts out ifp frame s else Ok s
      | Send_udp ifp src dst dat \<Rightarrow> if ifp < length (ifs s) then kbind (udp_output out ifp src dst dat s) (\<lambda>(_, t). Ok t) else Ok s
      | Clock_tick \<Rightarrow> Ok (s\<lparr>net_ticks := net_ticks s + 1\<rparr>))"

context output_routine
begin

lemma drv_receive_ok:
  assumes ok: "net_ok s" "ifp < length (ifs s)"
  shows "returns_unit False s (in_hand s) (drv_receive accepts out ifp frame s)"
proof (cases "length frame > MBUF_SIZE")
  case True
  then show ?thesis using ok(1) by (simp add: drv_receive_def returns_unit_Ok)
next
  case fits: False
  show ?thesis
  proof (cases "mbuf_alloc s")
    case (Pair mo t)
    show ?thesis
    proof (cases mo)
      case None
      then show ?thesis using Pair mbuf_alloc_None [of s t] ok(1) fits by (simp add: drv_receive_def returns_unit_Ok)
    next
      case (Some m)
      note a = mbuf_alloc_Some [OF ok(1) Pair [unfolded Some]]
      define b where "b = \<lparr>mdata = splice 0 frame (junk s m), mlen = (of_nat (length frame) :: u32)\<rparr>"
      define u where "u = set_mbuf m b t"
      have n: "unat (of_nat (length frame) :: u32) = length frame" using fits by (intro unat_of_nat_len) (simp add: MBUF_SIZE_def)
      have "mbuf_ok b" using a(7) fits by (simp add: b_def mbuf_ok_def n)
      then have u: "net_ok u" "in_hand u = insert m (in_hand s)" "ifs u = ifs s"
        using set_mbuf_ok [OF a(1), of m b] a(2,4,5) by (simp_all add: u_def)
      have e: "drv_receive accepts out ifp frame s = if_input accepts out ifp m u"
        using fits by (simp add: drv_receive_def Pair Some with_mbuf_def a(4) u_def b_def)
      have "returns_unit (is_lo u ifp) u (in_hand u - {m}) (if_input accepts out ifp m u)"
        by (rule if_input_ok) (use u ok in simp_all)
      then have "returns_unit False u (in_hand s) (if_input accepts out ifp m u)"
        using u(2) a(3) by (cases "is_lo u ifp") (simp_all add: returns_unit_weaken)
      then show ?thesis unfolding e using returns_unit_from [of s u False] u(3) by (simp add: ifs_same_eq)
    qed
  qed
qed

end

lemma udp_output_ok:
  assumes "net_ok s" "ifp < length (ifs s)"
  shows "returns False s (\<lambda>_. in_hand s) (udp_output (drv_output accepts hw (Suc (Suc n))) ifp src dst dat s)"
proof -
  have "returns (is_lo s ifp) s (\<lambda>_. in_hand s) (ip_output_ttl (drv_output accepts hw (Suc (Suc n))) ifp proto a b payload ttl s)" for proto a b payload ttl
    by (rule drv.ip_output_ttl_ok [OF assms]) simp
  then have "returns False s (\<lambda>_. in_hand s) (ip_output_ttl (drv_output accepts hw (Suc (Suc n))) ifp proto a b payload ttl s)" for proto a b payload ttl
    by (cases "is_lo s ifp") (simp_all add: returns_weaken del: drv_output.simps)
  then show ?thesis using assms(1) by (simp add: udp_output_def ip_output_def Let_def returns_Ok del: drv_output.simps)
qed

lemma net_cmd_step_ok:
  assumes ok: "net_ok s"
  shows "returns_unit False s (in_hand s) (net_cmd_step accepts (drv_output accepts hw (Suc (Suc n))) c s)"
proof (cases c)
  case (Receive ifp frame)
  then show ?thesis using drv.drv_receive_ok [OF ok] ok by (simp add: net_cmd_step_def returns_unit_Ok del: drv_output.simps)
next
  case (Send_udp ifp src dst dat)
  have "returns_unit False s (in_hand s) (kbind (udp_output (drv_output accepts hw (Suc (Suc n))) ifp src dst dat s) (\<lambda>(_, t). Ok t))" if "ifp < length (ifs s)"
    by (rule returns_bind_unit [OF udp_output_ok [OF ok that]]) (simp add: returns_unit_Ok)
  then show ?thesis using Send_udp ok by (simp add: net_cmd_step_def returns_unit_Ok del: drv_output.simps)
next
  case Clock_tick
  have "net_ok (s\<lparr>net_ticks := net_ticks s + 1\<rparr>) = net_ok s" "in_hand (s\<lparr>net_ticks := net_ticks s + 1\<rparr>) = in_hand s" "ifs_same s (s\<lparr>net_ticks := net_ticks s + 1\<rparr>)"
    by (rule net_ok_cong; simp)+
  then show ?thesis using Clock_tick ok by (simp add: net_cmd_step_def returns_unit_Ok)
qed


lemma net0_ok: "net_ok net0" "in_hand net0 = {}"
  by (auto simp: net_ok_def net0_def pend_once_def waiting_def in_hand_def arp_zero_def if_ok_def lo0_def eth0_def IFF_UP_def IFF_LOOPBACK_def
      IFF_RUNNING_def NET_ARP_CACHE_MAX_def ETH_ADDR_LEN_def)


text \<open>The address is being resolved, and the time-out of its entry has not passed.\<close>

definition arp_pending_at :: "nat \<Rightarrow> u32 \<Rightarrow> net \<Rightarrow> bool" where
  "arp_pending_at ifp ip s \<longleftrightarrow> ip \<noteq> if_addr (ifp_of s ifp) \<and>
     (case arp_lookup_locked ifp ip s of None \<Rightarrow> False
      | Some i \<Rightarrow> ae_state (arptab s ! i) = ARP_PENDING \<and> ae_expire (arptab s ! i) > net_ticks s)"

lemma arp_begin_wait_sent: "arp_begin_wait i ifp ip p s = Ok (r, t) \<Longrightarrow> sent t = sent s"
  by (auto simp: arp_begin_wait_def mbuf_free_def Let_def split: option.splits if_splits)

text \<open>
  Claim C21. A lost ARP request is not repeated while traffic goes on. A request is sent only when the entry's time-out has passed, and each packet for
  the address moves the time-out on: when packets follow each other within 20 ticks, \<open>arp_resolve\<close> keeps each, drops the one it
  kept before, sends nothing, and the next packet finds the same situation.
\<close>

theorem arp_no_retry:
  assumes "net_ok s" "m \<in> in_hand s" "arp_pending_at ifp ip s" "unat (net_ticks s) < 2 ^ 32 - 20" "d < ARP_PENDING_TICKS"
  shows "\<exists>t. arp_resolve out ifp ip (Some m) s = Ok ((1, []), t) \<and> sent t = sent s \<and> m \<in> waiting t \<and>
    arp_pending_at ifp ip (t\<lparr>net_ticks := net_ticks t + d\<rparr>)"
proof -
  obtain i where i: "arp_lookup_locked ifp ip s = Some i" "ae_state (arptab s ! i) = ARP_PENDING" "ae_expire (arptab s ! i) > net_ticks s"
    "ip \<noteq> if_addr (ifp_of s ifp)" using assms(3) by (auto simp: arp_pending_at_def split: option.splits)
  have il: "i < length (arptab s)" using first_index_SomeD [of _ "arptab s" i] i(1) by (simp add: arp_lookup_locked_def)
  obtain t where t: "arp_begin_wait i ifp ip (Some m) s = Ok (Arp_wait False, t)" "ifs t = ifs s" "arp_lookup_locked ifp ip t = Some i"
      "i < length (arptab t)" "ae_pending (arptab t ! i) = Some m" "ae_state (arptab t ! i) = ARP_PENDING"
      "ae_expire (arptab t ! i) = net_ticks s + ARP_PENDING_TICKS" "net_ticks t = net_ticks s"
    using arp_begin_wait_ok [OF assms(1) il assms(2), of ifp ip] i(1,3) by auto
  have "arp_resolve out ifp ip (Some m) s = Ok ((1, []), t)" using i t(1) by (simp add: arp_resolve_def arp_begin_def)
  moreover have "m \<in> waiting t" using t(4,5) by (auto simp: waiting_nth)
  moreover have "unat (net_ticks s + d) < unat (net_ticks s + ARP_PENDING_TICKS)"
    using assms(4,5) by (simp add: ARP_PENDING_TICKS_def word_less_nat_alt unat_add_no_wrap)
  then have "arp_pending_at ifp ip (t\<lparr>net_ticks := net_ticks t + d\<rparr>)"
    using t i(4) by (simp add: arp_pending_at_def arp_lookup_locked_def word_less_nat_alt)
  ultimately show ?thesis using arp_begin_wait_sent [OF t(1)] by blast
qed

text \<open>A request for \<open>10.0.0.9\<close> is out and unanswered, and another packet for it is ready.\<close>

definition net_wait :: net where
  "net_wait = (setarp 0 (\<lambda>e. e\<lparr>ae_ip := 0x0a000009, ae_ifp := Some 1, ae_state := ARP_PENDING, ae_expire := 115\<rparr>) net0)
     \<lparr>mbufs := [0 \<mapsto> \<lparr>mdata = replicate MBUF_SIZE 0, mlen = 20\<rparr>], mnext := 1\<rparr>"

lemma net_wait_ok: "net_ok net_wait" "0 \<in> in_hand net_wait" "arp_pending_at 1 0x0a000009 net_wait"
proof -
  let ?e = "arp_zero\<lparr>ae_ip := 0x0a000009, ae_ifp := Some 1, ae_state := ARP_PENDING, ae_expire := 115\<rparr>"
  have tab: "arptab net_wait = ?e # replicate 127 arp_zero"
    by (simp add: net_wait_def setarp_def net0_def NET_ARP_CACHE_MAX_def numeral_eq_Suc)
  have w: "waiting net_wait = {}" by (auto simp: waiting_def tab arp_zero_def)
  have "pend_once (arptab net_wait)"
    using w waiting_nth [of _ net_wait] unfolding pend_once_def by blast
  moreover have "length (arptab net_wait) = NET_ARP_CACHE_MAX" by (simp add: tab NET_ARP_CACHE_MAX_def)
  moreover have "\<forall>f \<in> set (ifs net_wait). if_ok f" using net0_ok(1) by (simp add: net_wait_def net_ok_def)
  ultimately show "net_ok net_wait" using w by (auto simp: net_ok_def net_wait_def net0_def mbuf_ok_def MBUF_SIZE_def split: if_splits)
  show "0 \<in> in_hand net_wait" by (simp add: in_hand_def w) (simp add: net_wait_def)
  show "arp_pending_at 1 0x0a000009 net_wait"
    by (simp add: arp_pending_at_def arp_lookup_locked_def tab) (simp add: net_wait_def net0_def eth0_def)
qed

theorem arp_no_retry_witness:
  "\<exists>t. arp_resolve (drv_output (\<lambda>_ _ _. True) (\<lambda>_ _. True) 2) 1 0x0a000009 (Some 0) net_wait = Ok ((1, []), t) \<and> sent t = sent net_wait \<and>
    0 \<in> waiting t \<and> arp_pending_at 1 0x0a000009 (t\<lparr>net_ticks := net_ticks t + 19\<rparr>)"
proof (rule arp_no_retry [OF net_wait_ok])
  show "unat (net_ticks net_wait) < 2 ^ 32 - 20" by (simp add: net_wait_def net0_def)
  show "19 < ARP_PENDING_TICKS" by (simp add: ARP_PENDING_TICKS_def)
qed

end
