(* ===== verification/Tty.thy ===== *)
theory Tty
  imports Prelude
begin

text \<open>
  The terminal line discipline of \<open>kernel/driver/tty_ldisc.c\<close>: what becomes of the bytes typed at a terminal before the program reads them
  (line editing, signals, echo) and of the bytes the program writes. The output buffers of the caller are byte lists with a capacity, which the
  code appends to as long as there is room. The second half is a line editor on plain lists, with no buffers, and the proof that the
  code implements it up to the capacities.
\<close>

subsection \<open>Terminal settings\<close>

record termios =
  c_iflag :: u32
  c_oflag :: u32
  c_cflag :: u32
  c_lflag :: u32
  c_cc :: bytes

definition NCCS :: nat where "NCCS = 19"

definition VINTR :: nat where "VINTR = 0"
definition VQUIT :: nat where "VQUIT = 1"
definition VERASE :: nat where "VERASE = 2"
definition VKILL :: nat where "VKILL = 3"
definition VEOF :: nat where "VEOF = 4"
definition VTIME :: nat where "VTIME = 5"
definition VMIN :: nat where "VMIN = 6"
definition VSTART :: nat where "VSTART = 8"
definition VSTOP :: nat where "VSTOP = 9"
definition VSUSP :: nat where "VSUSP = 10"
definition VEOL :: nat where "VEOL = 11"
definition VREPRINT :: nat where "VREPRINT = 12"
definition VWERASE :: nat where "VWERASE = 14"
definition VLNEXT :: nat where "VLNEXT = 15"
definition VEOL2 :: nat where "VEOL2 = 16"

definition INLCR :: u32 where "INLCR = 0x40"
definition IGNCR :: u32 where "IGNCR = 0x80"
definition ICRNL :: u32 where "ICRNL = 0x100"
definition IXON :: u32 where "IXON = 0x400"
definition OPOST :: u32 where "OPOST = 0x1"
definition ONLCR :: u32 where "ONLCR = 0x4"
definition OCRNL :: u32 where "OCRNL = 0x8"
definition ONOCR :: u32 where "ONOCR = 0x10"
definition ONLRET :: u32 where "ONLRET = 0x20"
definition ISIG :: u32 where "ISIG = 0x1"
definition ICANON :: u32 where "ICANON = 0x2"
definition ECHO :: u32 where "ECHO = 0x8"
definition ECHOE :: u32 where "ECHOE = 0x10"
definition ECHOK :: u32 where "ECHOK = 0x20"
definition ECHONL :: u32 where "ECHONL = 0x40"
definition NOFLSH :: u32 where "NOFLSH = 0x80"
definition TOSTOP :: u32 where "TOSTOP = 0x100"
definition ECHOCTL :: u32 where "ECHOCTL = 0x200"
definition IEXTEN :: u32 where "IEXTEN = 0x8000"

definition TTY_SIGINT :: int where "TTY_SIGINT = 2"
definition TTY_SIGQUIT :: int where "TTY_SIGQUIT = 3"
definition TTY_SIGTSTP :: int where "TTY_SIGTSTP = 20"

definition flag_on :: "u32 \<Rightarrow> u32 \<Rightarrow> bool" where "flag_on flags f \<longleftrightarrow> flags AND f \<noteq> 0"

definition is_cc :: "termios \<Rightarrow> nat \<Rightarrow> u8 \<Rightarrow> bool" where "is_cc tp i c \<longleftrightarrow> c = c_cc tp ! i"

text \<open>The characters the code names: backspace, tab, newline, return, space.\<close>

definition BS :: u8 where "BS = 8"
definition TAB :: u8 where "TAB = 9"
definition NL :: u8 where "NL = 10"
definition CR :: u8 where "CR = 13"
definition SP :: u8 where "SP = 32"

text \<open>The settings of a new pseudo terminal.\<close>

definition pty_termios :: termios where
  "pty_termios =
     \<lparr>c_iflag = ICRNL, c_oflag = OPOST OR ONLCR, c_cflag = 0x30 OR 0x80 OR 0x800,
      c_lflag = ECHO OR ICANON OR ISIG OR ECHOE OR IEXTEN,
      c_cc = (replicate NCCS 0)[VINTR := 3, VQUIT := 28, VERASE := 127, VKILL := 21, VEOF := 4, VTIME := 0, VMIN := 1,
        VSTART := 17, VSTOP := 19, VSUSP := 26, VREPRINT := 18, VWERASE := 23, VLNEXT := 22]\<rparr>"

subsection \<open>The discipline's state\<close>

definition TTY_LDISC_CANON_BUFSZ :: nat where "TTY_LDISC_CANON_BUFSZ = 4096"

record tty_ldisc_state =
  canon_buf :: bytes
  canon_len :: nat
  out_col :: int
  flow_stopped :: bool

definition tty_ldisc_reset :: tty_ldisc_state where
  "tty_ldisc_reset = \<lparr>canon_buf = replicate TTY_LDISC_CANON_BUFSZ 0, canon_len = 0, out_col = 0, flow_stopped = False\<rparr>"

definition tty_ldisc_init :: tty_ldisc_state where "tty_ldisc_init = tty_ldisc_reset"

definition ld_store_canon :: "u8 \<Rightarrow> tty_ldisc_state \<Rightarrow> (bool \<times> tty_ldisc_state)" where
  "ld_store_canon c ld =
     (if canon_len ld \<ge> TTY_LDISC_CANON_BUFSZ then (False, ld)
      else (True, ld\<lparr>canon_buf := (canon_buf ld)[canon_len ld := c], canon_len := canon_len ld + 1\<rparr>))"

definition ld_is_word_char :: "u8 \<Rightarrow> bool" where
  "ld_is_word_char c \<longleftrightarrow>
     97 \<le> c \<and> c \<le> 122 \<or> 65 \<le> c \<and> c \<le> 90 \<or> 48 \<le> c \<and> c \<le> 57 \<or> c = 95"

subsection \<open>Buffers with a capacity\<close>

definition push :: "nat \<Rightarrow> u8 \<Rightarrow> bytes \<Rightarrow> bytes" where
  "push cap c out = (if length out < cap then out @ [c] else out)"

definition ld_echo_char :: "nat \<Rightarrow> u8 \<Rightarrow> bytes \<Rightarrow> bytes" where
  "ld_echo_char cap c out = (if c = NL then push cap NL (push cap CR out) else push cap c out)"

definition ld_echo_erase_one :: "nat \<Rightarrow> bytes \<Rightarrow> bytes" where
  "ld_echo_erase_one cap out = ld_echo_char cap BS (ld_echo_char cap SP (ld_echo_char cap BS out))"

text \<open>The copy of the finished line: \<open>j\<close> runs over the line while there is room.\<close>

fun flush_line :: "nat \<Rightarrow> bytes \<Rightarrow> bytes \<Rightarrow> bytes" where
  "flush_line cap [] out = out"
| "flush_line cap (c # cs) out = (if length out < cap then flush_line cap cs (out @ [c]) else out)"

subsection \<open>Input\<close>

text \<open>The variables of the input loop: the discipline, what goes to the program, what is echoed, the signal.\<close>

record ld_io =
  io_ld :: tty_ldisc_state
  io_slave :: bytes
  io_echo :: bytes
  io_sig :: int

definition echo :: "nat \<Rightarrow> u8 \<Rightarrow> ld_io \<Rightarrow> ld_io" where
  "echo ecap c s = s\<lparr>io_echo := ld_echo_char ecap c (io_echo s)\<rparr>"

definition set_canon_len :: "nat \<Rightarrow> ld_io \<Rightarrow> ld_io" where
  "set_canon_len n s = s\<lparr>io_ld := (io_ld s)\<lparr>canon_len := n\<rparr>\<rparr>"

definition set_flow :: "bool \<Rightarrow> ld_io \<Rightarrow> ld_io" where
  "set_flow b s = s\<lparr>io_ld := (io_ld s)\<lparr>flow_stopped := b\<rparr>\<rparr>"

definition line :: "tty_ldisc_state \<Rightarrow> bytes" where
  "line ld = take (canon_len ld) (canon_buf ld)"

text \<open>The block that the code has once for each of the three signal characters.\<close>

definition ld_signal :: "termios \<Rightarrow> nat \<Rightarrow> int \<Rightarrow> u8 \<Rightarrow> ld_io \<Rightarrow> ld_io" where
  "ld_signal tp ecap sg letter s =
     (let s = s\<lparr>io_sig := sg\<rparr>;
          s = (if flag_on (c_lflag tp) ECHO \<and> flag_on (c_lflag tp) ECHOCTL
               then echo ecap NL (echo ecap letter (echo ecap 94 s)) else s)
      in if \<not> flag_on (c_lflag tp) NOFLSH then set_canon_len 0 s else s)"

definition ld_erase :: "termios \<Rightarrow> nat \<Rightarrow> u8 \<Rightarrow> ld_io \<Rightarrow> ld_io" where
  "ld_erase tp ecap c s =
     (if canon_len (io_ld s) > 0
      then let s = set_canon_len (canon_len (io_ld s) - 1) s
           in if flag_on (c_lflag tp) ECHOE then s\<lparr>io_echo := ld_echo_erase_one ecap (io_echo s)\<rparr>
              else if flag_on (c_lflag tp) ECHO then echo ecap c s else s
      else s)"

text \<open>\<open>while(len > 0 && P(buf[len - 1])) { len--; erased++; }\<close>\<close>

fun erase_while :: "(u8 \<Rightarrow> bool) \<Rightarrow> bytes \<Rightarrow> nat \<Rightarrow> nat \<Rightarrow> nat \<times> nat" where
  "erase_while P buf 0 erased = (0, erased)"
| "erase_while P buf (Suc n) erased =
     (if P (buf ! n) then erase_while P buf n (erased + 1) else (Suc n, erased))"

definition ld_werase :: "termios \<Rightarrow> nat \<Rightarrow> u8 \<Rightarrow> ld_io \<Rightarrow> ld_io" where
  "ld_werase tp ecap c s =
     (let buf = canon_buf (io_ld s);
          (n, e) = erase_while (\<lambda>x. x = SP \<or> x = TAB) buf (canon_len (io_ld s)) 0;
          (n, e) = erase_while ld_is_word_char buf n e;
          s = set_canon_len n s
      in if flag_on (c_lflag tp) ECHOE \<and> e > 0
         then s\<lparr>io_echo := (ld_echo_erase_one ecap ^^ e) (io_echo s)\<rparr>
         else if flag_on (c_lflag tp) ECHO then echo ecap c s else s)"

definition ld_reprint :: "termios \<Rightarrow> nat \<Rightarrow> u8 \<Rightarrow> ld_io \<Rightarrow> ld_io" where
  "ld_reprint tp ecap c s =
     (if flag_on (c_lflag tp) ECHO
      then let s = (if flag_on (c_lflag tp) ECHOCTL then echo ecap 82 (echo ecap 94 s) else echo ecap c s);
               s = echo ecap NL s
           in fold (echo ecap) (line (io_ld s)) s
      else s)"

definition ld_flush :: "nat \<Rightarrow> ld_io \<Rightarrow> ld_io" where
  "ld_flush scap s = set_canon_len 0 (s\<lparr>io_slave := flush_line scap (line (io_ld s)) (io_slave s)\<rparr>)"

definition ld_ends_line :: "termios \<Rightarrow> u8 \<Rightarrow> bool" where
  "ld_ends_line tp c \<longleftrightarrow> c = NL \<or> is_cc tp VEOL c \<or> is_cc tp VEOL2 c"

definition ld_char :: "termios \<Rightarrow> nat \<Rightarrow> nat \<Rightarrow> u8 \<Rightarrow> ld_io \<Rightarrow> ld_io" where
  "ld_char tp scap ecap c s =
     (let (stored, ld) = ld_store_canon c (io_ld s);
          s = s\<lparr>io_ld := ld\<rparr>;
          s = (if stored \<and> (flag_on (c_lflag tp) ECHO \<or> c = NL \<and> flag_on (c_lflag tp) ECHONL) then echo ecap c s else s)
      in if ld_ends_line tp c then ld_flush scap s else s)"

text \<open>The body of the loop in canonical mode, its tests in the order of the code.\<close>

definition ld_canon :: "termios \<Rightarrow> nat \<Rightarrow> nat \<Rightarrow> u8 \<Rightarrow> ld_io \<Rightarrow> ld_io" where
  "ld_canon tp scap ecap c s =
     (if flag_on (c_lflag tp) ISIG \<and> is_cc tp VINTR c then ld_signal tp ecap TTY_SIGINT 67 s
      else if flag_on (c_lflag tp) ISIG \<and> is_cc tp VQUIT c then ld_signal tp ecap TTY_SIGQUIT 92 s
      else if flag_on (c_lflag tp) ISIG \<and> is_cc tp VSUSP c then ld_signal tp ecap TTY_SIGTSTP 90 s
      else if is_cc tp VERASE c then ld_erase tp ecap c s
      else if flag_on (c_lflag tp) IEXTEN \<and> is_cc tp VWERASE c then ld_werase tp ecap c s
      else if flag_on (c_lflag tp) IEXTEN \<and> is_cc tp VREPRINT c then ld_reprint tp ecap c s
      else if is_cc tp VKILL c
        then (if flag_on (c_lflag tp) ECHOK then echo ecap NL (set_canon_len 0 s) else set_canon_len 0 s)
      else if is_cc tp VEOF c then ld_flush scap s
      else ld_char tp scap ecap c s)"

text \<open>The translation of carriage return and newline; \<open>None\<close> is a byte that is dropped.\<close>

definition ld_translate :: "termios \<Rightarrow> u8 \<Rightarrow> u8 option" where
  "ld_translate tp c =
     (if c = CR then (if flag_on (c_iflag tp) IGNCR then None
                      else if flag_on (c_iflag tp) ICRNL then Some NL else Some c)
      else if c = NL then (if flag_on (c_iflag tp) INLCR then Some CR else Some c)
      else Some c)"

definition ld_input_byte :: "termios \<Rightarrow> nat \<Rightarrow> nat \<Rightarrow> u8 \<Rightarrow> ld_io \<Rightarrow> ld_io" where
  "ld_input_byte tp scap ecap c0 s =
     (case ld_translate tp c0 of
        None \<Rightarrow> s
      | Some c \<Rightarrow>
          if flag_on (c_iflag tp) IXON \<and> is_cc tp VSTOP c then set_flow True s
          else if flag_on (c_iflag tp) IXON \<and> is_cc tp VSTART c then set_flow False s
          else if flag_on (c_lflag tp) ICANON then ld_canon tp scap ecap c s
          else let s = s\<lparr>io_slave := push scap c (io_slave s)\<rparr>
               in if flag_on (c_lflag tp) ECHO then echo ecap c s else s)"

text \<open>The pointers are not 0 at any call; the answer \<open>-1\<close> is \<open>None\<close>, otherwise the returned length is that of the bytes for the program.\<close>

definition tty_ldisc_process_input ::
    "termios \<Rightarrow> tty_ldisc_state \<Rightarrow> bytes \<Rightarrow> int \<Rightarrow> int \<Rightarrow> int \<Rightarrow> ld_io option" where
  "tty_ldisc_process_input tp ld inp in_len slave_cap echo_cap =
     (if in_len < 0 \<or> slave_cap < 0 \<or> echo_cap < 0 then None
      else Some (fold (ld_input_byte tp (nat slave_cap) (nat echo_cap)) (take (nat in_len) inp)
                   \<lparr>io_ld = ld, io_slave = [], io_echo = [], io_sig = 0\<rparr>))"

subsection \<open>Output\<close>

text \<open>The column is only ever compared with 0; it is an unbounded integer here, while the code's \<open>int\<close> would overflow after 2^31 bytes on one line.\<close>

definition ld_column :: "termios \<Rightarrow> u8 \<Rightarrow> int \<Rightarrow> int" where
  "ld_column tp c col =
     (if c = CR then 0 else if c = NL then (if flag_on (c_oflag tp) ONLRET then 0 else col) else col + 1)"

definition ld_output_byte :: "termios \<Rightarrow> nat \<Rightarrow> u8 \<Rightarrow> bytes \<times> int \<Rightarrow> bytes \<times> int" where
  "ld_output_byte tp cap c0 s =
     (let (out, col) = s;
          post = flag_on (c_oflag tp) OPOST;
          c = (if post \<and> c0 = CR \<and> flag_on (c_oflag tp) OCRNL then NL else c0)
      in if post \<and> c = CR \<and> flag_on (c_oflag tp) ONOCR \<and> col = 0 then (out, col)
         else if post \<and> c = NL \<and> flag_on (c_oflag tp) ONLCR
           then (if length out + 2 \<le> cap then out @ [CR, NL] else out, 0)
         else (push cap c out, ld_column tp c col))"

definition tty_ldisc_process_output ::
    "termios \<Rightarrow> tty_ldisc_state \<Rightarrow> bytes \<Rightarrow> int \<Rightarrow> int \<Rightarrow> (bytes \<times> tty_ldisc_state) option" where
  "tty_ldisc_process_output tp ld inp in_len master_cap =
     (if in_len < 0 \<or> master_cap < 0 then None
      else let (out, col) = fold (ld_output_byte tp (nat master_cap)) (take (nat in_len) inp) ([], out_col ld)
           in Some (out, ld\<lparr>out_col := col\<rparr>))"

subsection \<open>A line editor on lists\<close>

text \<open>
  What a byte means under given settings, and what each meaning does to the line being typed. The result has the new line, what is handed to the program, what
  is echoed and the signal. The line is bounded by the size of the discipline's buffer, the other two are not bounded.
\<close>

datatype key = Drop | Flow bool | Signal int u8 | Erase u8 | Erase_word u8 | Reprint u8 | Kill | End_of_file | Text u8 bool | Raw u8

definition key_of :: "termios \<Rightarrow> u8 \<Rightarrow> key" where
  "key_of tp c0 =
     (case ld_translate tp c0 of None \<Rightarrow> Drop
      | Some c \<Rightarrow>
          if flag_on (c_iflag tp) IXON \<and> is_cc tp VSTOP c then Flow True
          else if flag_on (c_iflag tp) IXON \<and> is_cc tp VSTART c then Flow False
          else if flag_on (c_lflag tp) ICANON then
            (if flag_on (c_lflag tp) ISIG \<and> is_cc tp VINTR c then Signal TTY_SIGINT 67
             else if flag_on (c_lflag tp) ISIG \<and> is_cc tp VQUIT c then Signal TTY_SIGQUIT 92
             else if flag_on (c_lflag tp) ISIG \<and> is_cc tp VSUSP c then Signal TTY_SIGTSTP 90
             else if is_cc tp VERASE c then Erase c
             else if flag_on (c_lflag tp) IEXTEN \<and> is_cc tp VWERASE c then Erase_word c
             else if flag_on (c_lflag tp) IEXTEN \<and> is_cc tp VREPRINT c then Reprint c
             else if is_cc tp VKILL c then Kill
             else if is_cc tp VEOF c then End_of_file
             else Text c (ld_ends_line tp c))
          else Raw c)"

record editor =
  ed_line :: bytes
  ed_stopped :: bool
  ed_out :: bytes
  ed_echo :: bytes
  ed_sig :: int

definition shown :: "bytes \<Rightarrow> bytes" where
  "shown cs = concat (map (\<lambda>c. if c = NL then [CR, NL] else [c]) cs)"

definition rub_out :: "nat \<Rightarrow> bytes" where "rub_out n = concat (replicate n [BS, SP, BS])"

definition without_word :: "bytes \<Rightarrow> bytes" where
  "without_word l = rev (dropWhile ld_is_word_char (dropWhile (\<lambda>x. x = SP \<or> x = TAB) (rev l)))"

fun edit :: "u32 \<Rightarrow> key \<Rightarrow> editor \<Rightarrow> editor" where
  "edit lf Drop e = e"
| "edit lf (Flow b) e = e\<lparr>ed_stopped := b\<rparr>"
| "edit lf (Signal sg ch) e =
     e\<lparr>ed_sig := sg,
       ed_echo := ed_echo e @ (if flag_on lf ECHO \<and> flag_on lf ECHOCTL then shown [94, ch, NL] else []),
       ed_line := (if flag_on lf NOFLSH then ed_line e else [])\<rparr>"
| "edit lf (Erase c) e =
     e\<lparr>ed_line := butlast (ed_line e),
       ed_echo := ed_echo e @ (if ed_line e = [] then [] else if flag_on lf ECHOE then rub_out 1
                               else if flag_on lf ECHO then shown [c] else [])\<rparr>"
| "edit lf (Erase_word c) e =
     (let l = without_word (ed_line e); k = length (ed_line e) - length l
      in e\<lparr>ed_line := l,
           ed_echo := ed_echo e @ (if flag_on lf ECHOE \<and> k > 0 then rub_out k else if flag_on lf ECHO then shown [c] else [])\<rparr>)"
| "edit lf (Reprint c) e =
     e\<lparr>ed_echo := ed_echo e @ (if flag_on lf ECHO then shown ((if flag_on lf ECHOCTL then [94, 82] else [c]) @ [NL] @ ed_line e) else [])\<rparr>"
| "edit lf Kill e =
     e\<lparr>ed_line := [], ed_echo := ed_echo e @ (if flag_on lf ECHOK then shown [NL] else [])\<rparr>"
| "edit lf End_of_file e = e\<lparr>ed_line := [], ed_out := ed_out e @ ed_line e\<rparr>"
| "edit lf (Text c ends) e =
     (let fits = length (ed_line e) < TTY_LDISC_CANON_BUFSZ;
          l = ed_line e @ (if fits then [c] else []);
          e = e\<lparr>ed_echo := ed_echo e @ (if fits \<and> (flag_on lf ECHO \<or> c = NL \<and> flag_on lf ECHONL) then shown [c] else [])\<rparr>
      in if ends then e\<lparr>ed_line := [], ed_out := ed_out e @ l\<rparr> else e\<lparr>ed_line := l\<rparr>)"
| "edit lf (Raw c) e =
     e\<lparr>ed_out := ed_out e @ [c], ed_echo := ed_echo e @ (if flag_on lf ECHO then shown [c] else [])\<rparr>"

definition edit_all :: "termios \<Rightarrow> bytes \<Rightarrow> editor \<Rightarrow> editor" where
  "edit_all tp inp = fold (\<lambda>c. edit (c_lflag tp) (key_of tp c)) inp"

subsection \<open>The code implements the editor\<close>

definition ld_ok :: "tty_ldisc_state \<Rightarrow> bool" where
  "ld_ok ld \<longleftrightarrow> length (canon_buf ld) = TTY_LDISC_CANON_BUFSZ \<and> canon_len ld \<le> TTY_LDISC_CANON_BUFSZ"

text \<open>The editor's view of the loop's variables, when \<open>out\<close> and \<open>ech\<close> are what the buffers would hold without their capacities.\<close>

definition sim :: "nat \<Rightarrow> nat \<Rightarrow> ld_io \<Rightarrow> editor \<Rightarrow> bool" where
  "sim scap ecap s e \<longleftrightarrow>
     ld_ok (io_ld s) \<and> ed_line e = line (io_ld s) \<and> ed_stopped e = flow_stopped (io_ld s) \<and>
     io_slave s = take scap (ed_out e) \<and> io_echo s = take ecap (ed_echo e) \<and> io_sig s = ed_sig e"

lemma push_take: "push cap c (take cap xs) = take cap (xs @ [c])"
  by (auto simp: push_def)

lemma shown_simps [simp]: "shown [] = []" "shown (c # cs) = (if c = NL then [CR, NL] else [c]) @ shown cs"
  by (auto simp: shown_def)

lemma shown_append: "shown (xs @ ys) = shown xs @ shown ys"
  by (simp add: shown_def)

lemma ld_echo_char_take: "ld_echo_char cap c (take cap xs) = take cap (xs @ shown [c])"
  by (auto simp: ld_echo_char_def push_take simp del: take_append)

lemma shown_two: "shown (c # d # cs) = shown [c] @ shown (d # cs)"
  by simp

lemmas echo_take = ld_echo_char_take shown_two

lemma ld_echo_erase_one_take: "ld_echo_erase_one cap (take cap xs) = take cap (xs @ [BS, SP, BS])"
proof -
  have "ld_echo_erase_one cap (take cap xs) = take cap (((xs @ shown [BS]) @ shown [SP]) @ shown [BS])"
    by (simp only: ld_echo_erase_one_def ld_echo_char_take)
  then show ?thesis by (simp add: BS_def SP_def NL_def del: take_append)
qed

lemma ld_echo_erase_take: "(ld_echo_erase_one cap ^^ n) (take cap xs) = take cap (xs @ rub_out n)"
proof (induction n arbitrary: xs)
  case 0
  show ?case by (simp add: rub_out_def)
next
  case (Suc n)
  have "(ld_echo_erase_one cap ^^ Suc n) (take cap xs) = (ld_echo_erase_one cap ^^ n) (take cap (xs @ [BS, SP, BS]))"
    by (simp add: funpow_Suc_right ld_echo_erase_one_take del: funpow.simps take_append)
  then show ?case using Suc by (simp add: rub_out_def del: take_append funpow.simps)
qed

lemma flush_line_take: "flush_line cap cs (take cap xs) = take cap (xs @ cs)"
proof (induction cs arbitrary: xs)
  case Nil
  show ?case by simp
next
  case (Cons c cs)
  show ?case
  proof (cases "length xs < cap")
    case True
    then have "take cap xs @ [c] = take cap (xs @ [c])" by simp
    with True show ?thesis using Cons [of "xs @ [c]"] by simp
  qed simp
qed

lemma echo_fold:
  "fold (echo ecap) cs s = s\<lparr>io_echo := fold (ld_echo_char ecap) cs (io_echo s)\<rparr>"
  by (induction cs arbitrary: s) (simp_all add: echo_def)

lemma fold_echo_take: "fold (ld_echo_char cap) cs (take cap xs) = take cap (xs @ shown cs)"
proof (induction cs arbitrary: xs)
  case (Cons c cs)
  show ?case using Cons [of "xs @ shown [c]"] by (simp add: ld_echo_char_take)
qed simp

lemma erase_while_line:
  assumes "n \<le> length buf" "erase_while P buf n e = (m, e')"
  shows "m \<le> n \<and> e' = e + (n - m) \<and> take m buf = rev (dropWhile P (rev (take n buf)))"
  using assms
proof (induction P buf n e arbitrary: m e' rule: erase_while.induct)
  case (2 P buf n e)
  have "rev (take (Suc n) buf) = buf ! n # rev (take n buf)"
    using 2(2) by (simp add: take_Suc_conv_app_nth)
  with 2 show ?case by (auto split: if_splits)
qed simp

lemmas ld_io_simps =
  echo_def set_canon_len_def set_flow_def line_def ld_ok_def

lemma ld_signal_sim: "sim scap ecap s e \<Longrightarrow> sim scap ecap (ld_signal tp ecap sg ch s) (edit (c_lflag tp) (Signal sg ch) e)"
  by (simp add: sim_def ld_signal_def ld_io_simps Let_def echo_take del: take_append shown_simps(2))

lemma ld_erase_sim: "sim scap ecap s e \<Longrightarrow> sim scap ecap (ld_erase tp ecap c s) (edit (c_lflag tp) (Erase c) e)"
  by (auto simp add: sim_def ld_erase_def ld_io_simps Let_def ld_echo_char_take ld_echo_erase_one_take rub_out_def
      butlast_take TTY_LDISC_CANON_BUFSZ_def)

lemma ld_werase_sim:
  assumes "sim scap ecap s e"
  shows "sim scap ecap (ld_werase tp ecap c s) (edit (c_lflag tp) (Erase_word c) e)"
proof -
  let ?ld = "io_ld s"
  obtain n1 e1 where 1: "erase_while (\<lambda>x. x = SP \<or> x = TAB) (canon_buf ?ld) (canon_len ?ld) 0 = (n1, e1)" by force
  obtain n2 e2 where 2: "erase_while ld_is_word_char (canon_buf ?ld) n1 e1 = (n2, e2)" by force
  have len: "canon_len ?ld \<le> length (canon_buf ?ld)" using assms by (simp add: sim_def ld_ok_def)
  have f1: "n1 \<le> canon_len ?ld" "e1 = canon_len ?ld - n1"
      "take n1 (canon_buf ?ld) = rev (dropWhile (\<lambda>x. x = SP \<or> x = TAB) (rev (line ?ld)))"
    using erase_while_line [OF len 1] by (simp_all add: line_def)
  have "n1 \<le> length (canon_buf ?ld)" using f1(1) len by simp
  from erase_while_line [OF this 2] f1
  have f2: "n2 \<le> canon_len ?ld" "e2 = canon_len ?ld - n2" "take n2 (canon_buf ?ld) = without_word (line ?ld)"
    by (auto simp: without_word_def)
  have "length (without_word (line ?ld)) = n2" using f2 len by (simp flip: f2(3))
  then show ?thesis using assms f2 len
    by (simp add: sim_def ld_werase_def 1 2 Let_def set_canon_len_def echo_def ld_echo_char_take ld_echo_erase_take ld_ok_def)
      (auto simp: line_def)
qed

lemma ld_reprint_sim: "sim scap ecap s e \<Longrightarrow> sim scap ecap (ld_reprint tp ecap c s) (edit (c_lflag tp) (Reprint c) e)"
  by (simp add: sim_def ld_reprint_def Let_def echo_fold echo_def echo_take fold_echo_take shown_append del: take_append shown_simps(2))
    (simp del: take_append)

lemma ld_kill_sim:
  "sim scap ecap s e \<Longrightarrow>
   sim scap ecap (if flag_on (c_lflag tp) ECHOK then echo ecap NL (set_canon_len 0 s) else set_canon_len 0 s) (edit (c_lflag tp) Kill e)"
  by (simp add: sim_def ld_io_simps ld_echo_char_take)

lemma ld_flush_sim: "sim scap ecap s e \<Longrightarrow> sim scap ecap (ld_flush scap s) (edit lf End_of_file e)"
  by (simp add: sim_def ld_flush_def ld_io_simps flush_line_take)

lemma ld_char_sim:
  "sim scap ecap s e \<Longrightarrow> sim scap ecap (ld_char tp scap ecap c s) (edit (c_lflag tp) (Text c (ld_ends_line tp c)) e)"
  by (auto simp add: sim_def ld_char_def ld_store_canon_def ld_flush_def ld_io_simps Let_def ld_echo_char_take flush_line_take
      take_Suc_conv_app_nth)

lemma sim_if:
  "(P \<Longrightarrow> sim scap ecap s (edit lf k e)) \<Longrightarrow> (\<not> P \<Longrightarrow> sim scap ecap t (edit lf l e)) \<Longrightarrow>
   sim scap ecap (if P then s else t) (edit lf (if P then k else l) e)"
  by simp

lemma ld_input_byte_sim:
  "sim scap ecap s e \<Longrightarrow> sim scap ecap (ld_input_byte tp scap ecap c s) (edit (c_lflag tp) (key_of tp c) e)"
proof (cases "ld_translate tp c")
  case None
  assume "sim scap ecap s e"
  then show ?thesis by (simp add: ld_input_byte_def key_of_def None)
next
  case (Some d)
  assume s: "sim scap ecap s e"
  have flow: "sim scap ecap (set_flow b s) (edit (c_lflag tp) (Flow b) e)" for b
    using s by (simp add: sim_def ld_io_simps)
  have raw: "sim scap ecap (let s = s\<lparr>io_slave := push scap d (io_slave s)\<rparr> in if flag_on (c_lflag tp) ECHO then echo ecap d s else s)
      (edit (c_lflag tp) (Raw d) e)"
    using s by (simp add: sim_def ld_io_simps Let_def push_take ld_echo_char_take)
  note sims = ld_signal_sim [OF s] ld_erase_sim [OF s] ld_werase_sim [OF s] ld_reprint_sim [OF s] ld_kill_sim [OF s] ld_flush_sim [OF s] ld_char_sim [OF s] flow raw
  show ?thesis
    unfolding ld_input_byte_def key_of_def Some ld_canon_def option.case
    by (intro sim_if sims)
qed

text \<open>What the code computes, and what of the editor's result fits into the caller's buffers.\<close>

definition editor_of :: "tty_ldisc_state \<Rightarrow> editor" where
  "editor_of ld = \<lparr>ed_line = line ld, ed_stopped = flow_stopped ld, ed_out = [], ed_echo = [], ed_sig = 0\<rparr>"

definition editor_view :: "ld_io \<Rightarrow> editor" where
  "editor_view s =
     \<lparr>ed_line = line (io_ld s), ed_stopped = flow_stopped (io_ld s), ed_out = io_slave s, ed_echo = io_echo s, ed_sig = io_sig s\<rparr>"

definition clipped :: "nat \<Rightarrow> nat \<Rightarrow> editor \<Rightarrow> editor" where
  "clipped scap ecap e = e\<lparr>ed_out := take scap (ed_out e), ed_echo := take ecap (ed_echo e)\<rparr>"

lemma sim_fold:
  "sim scap ecap s e \<Longrightarrow> sim scap ecap (fold (ld_input_byte tp scap ecap) inp s) (edit_all tp inp e)"
  unfolding edit_all_def
  by (induction inp arbitrary: s e) (simp_all add: ld_input_byte_sim)

lemma process_input_sim:
  assumes "ld_ok ld" "0 \<le> n" "0 \<le> scap" "0 \<le> ecap"
  shows "\<exists>s. tty_ldisc_process_input tp ld inp n scap ecap = Some s \<and>
    sim (nat scap) (nat ecap) s (edit_all tp (take (nat n) inp) (editor_of ld))"
  using assms sim_fold [of "nat scap" "nat ecap" "\<lparr>io_ld = ld, io_slave = [], io_echo = [], io_sig = 0\<rparr>" "editor_of ld" tp "take (nat n) inp"]
  by (simp add: tty_ldisc_process_input_def sim_def editor_of_def)

lemma ld_ok_init: "ld_ok tty_ldisc_init"
  by (simp add: ld_ok_def tty_ldisc_init_def tty_ldisc_reset_def)

lemma line_init [simp]: "line tty_ldisc_init = []" "flow_stopped tty_ldisc_init = False"
  by (simp_all add: line_def tty_ldisc_init_def tty_ldisc_reset_def)

text \<open>
  Claim C11. The input side of the line discipline is the line editor: for all settings and every input, the line left in the buffer, the flow
  control state and the signal are the editor's, and what goes to the program and to the echo is what the editor gives, cut at the
  capacities of the caller's buffers; the line never outgrows its own buffer.
\<close>

theorem tty_input_refines:
  assumes "ld_ok ld" "0 \<le> n" "0 \<le> scap" "0 \<le> ecap"
  shows "\<exists>s. tty_ldisc_process_input tp ld inp n scap ecap = Some s \<and> ld_ok (io_ld s) \<and>
    editor_view s = clipped (nat scap) (nat ecap) (edit_all tp (take (nat n) inp) (editor_of ld))"
proof -
  obtain s where "tty_ldisc_process_input tp ld inp n scap ecap = Some s"
    "sim (nat scap) (nat ecap) s (edit_all tp (take (nat n) inp) (editor_of ld))"
    using process_input_sim [OF assms] by blast
  then show ?thesis by (auto simp: sim_def editor_view_def clipped_def)
qed

text \<open>Typing \<open>ab x\<close>, erasing a character and a word, and typing \<open>c\<close> and return: the program gets \<open>ab c\<close>, in a buffer that holds three bytes only \<open>ab \<close>.\<close>

theorem tty_input_refines_witness:
  "\<exists>s. tty_ldisc_process_input pty_termios tty_ldisc_init [97, 98, 32, 120, 121, 127, 23, 99, 13] 9 3 64 = Some s \<and>
     ld_ok (io_ld s) \<and> line (io_ld s) = [] \<and> io_sig s = 0 \<and> io_slave s = [97, 98, 32] \<and>
     io_echo s = [97, 98, 32, 120, 121, 8, 32, 8, 8, 32, 8, 99, 13, 10]"
proof -
  have e: "edit_all pty_termios [97, 98, 32, 120, 121, 127, 23, 99, 13]
      \<lparr>ed_line = [], ed_stopped = False, ed_out = [], ed_echo = [], ed_sig = 0\<rparr> =
    \<lparr>ed_line = [], ed_stopped = False, ed_out = [97, 98, 32, 99, 10], ed_echo = [97, 98, 32, 120, 121, 8, 32, 8, 8, 32, 8, 99, 13, 10], ed_sig = 0\<rparr>"
    by code_simp
  obtain s where s: "tty_ldisc_process_input pty_termios tty_ldisc_init [97, 98, 32, 120, 121, 127, 23, 99, 13] 9 3 64 = Some s"
      "ld_ok (io_ld s)"
      "editor_view s = clipped (nat 3) (nat 64) (edit_all pty_termios (take (nat 9) [97, 98, 32, 120, 121, 127, 23, 99, 13]) (editor_of tty_ldisc_init))"
    using tty_input_refines [OF ld_ok_init, of 9 3 64 pty_termios "[97, 98, 32, 120, 121, 127, 23, 99, 13]"] by auto
  have "line (io_ld s) = [] \<and> io_sig s = 0 \<and> io_slave s = [97, 98, 32] \<and>
     io_echo s = [97, 98, 32, 120, 121, 8, 32, 8, 8, 32, 8, 99, 13, 10]"
    using s(3) by (simp add: editor_of_def e editor_view_def clipped_def)
  with s(1,2) show ?thesis by blast
qed

subsection \<open>What the output side gives\<close>

lemma output_raw_fold:
  "\<not> flag_on (c_oflag tp) OPOST \<Longrightarrow>
   \<exists>col'. fold (ld_output_byte tp cap) inp (take cap out, col) = (take cap (out @ inp), col')"
proof (induction inp arbitrary: out col)
  case (Cons c inp)
  have "ld_output_byte tp cap c (take cap out, col) = (take cap (out @ [c]), ld_column tp c col)"
    using Cons.prems by (simp add: ld_output_byte_def push_take del: take_append)
  then show ?case using Cons.IH [OF Cons.prems, of "out @ [c]"] by (simp del: take_append)
qed simp

lemma output_cooked_fold:
  "flag_on (c_oflag tp) OPOST \<Longrightarrow> flag_on (c_oflag tp) ONLCR \<Longrightarrow> \<not> flag_on (c_oflag tp) OCRNL \<Longrightarrow> \<not> flag_on (c_oflag tp) ONOCR \<Longrightarrow>
   length out + length (shown inp) \<le> cap \<Longrightarrow>
   \<exists>col'. fold (ld_output_byte tp cap) inp (out, col) = (out @ shown inp, col')"
proof (induction inp arbitrary: out col)
  case (Cons c inp)
  have "\<exists>col'. ld_output_byte tp cap c (out, col) = (out @ shown [c], col')"
    using Cons.prems by (auto simp: ld_output_byte_def push_def split: if_splits)
  then show ?case using Cons.IH [OF Cons.prems(1-4), of "out @ shown [c]"] Cons.prems(5) by auto
qed simp

lemma process_output_raw:
  "\<not> flag_on (c_oflag tp) OPOST \<Longrightarrow> 0 \<le> cap \<Longrightarrow>
   \<exists>ld'. tty_ldisc_process_output tp ld inp (int (length inp)) cap = Some (take (nat cap) inp, ld')"
  using output_raw_fold [of tp "nat cap" inp "[]" "out_col ld"]
  by (auto simp: tty_ldisc_process_output_def)

lemma process_output_cooked:
  "flag_on (c_oflag tp) OPOST \<Longrightarrow> flag_on (c_oflag tp) ONLCR \<Longrightarrow> \<not> flag_on (c_oflag tp) OCRNL \<Longrightarrow> \<not> flag_on (c_oflag tp) ONOCR \<Longrightarrow>
   int (length (shown inp)) \<le> cap \<Longrightarrow>
   \<exists>ld'. tty_ldisc_process_output tp ld inp (int (length inp)) cap = Some (shown inp, ld')"
  using output_cooked_fold [of tp "[]" inp "nat cap" "out_col ld"]
  by (auto simp: tty_ldisc_process_output_def le_nat_iff)

text \<open>Output takes no notice of the flow control state, which the two control characters set.\<close>

lemma output_ignores_flow:
  "map_option fst (tty_ldisc_process_output tp (ld\<lparr>flow_stopped := True\<rparr>) inp n cap) =
   map_option fst (tty_ldisc_process_output tp ld inp n cap)"
  by (auto simp: tty_ldisc_process_output_def split: prod.split)

text \<open>With line editing off the signal characters are text, whether signals are enabled or not.\<close>

lemma no_signal_without_canon:
  "\<not> flag_on (c_lflag tp) ICANON \<Longrightarrow> ed_sig (edit_all tp inp e) = ed_sig e"
proof (induction inp arbitrary: e)
  case (Cons c inp)
  have "ed_sig (edit (c_lflag tp) (key_of tp c) e) = ed_sig e"
    using Cons.prems by (auto simp: key_of_def split: option.split)
  with Cons show ?case by (simp add: edit_all_def)
qed (simp add: edit_all_def)

end
