(* ===== verification/Pty.thy ===== *)
theory Pty
  imports Tty Pipe
begin

text \<open>
  The pseudo terminals of \<open>kernel/driver/pty.c\<close>: sixteen pairs, each with a master and a slave side, a ring of 512 bytes in each direction
  and a line discipline between them. Whether some process holds a side open (\<open>pty_side_is_open\<close>, a scan of all descriptor tables) is the
  argument \<open>so\<close>; the process that calls is a record with what the code reads of it. Signals to process groups are returned as the list
  of \<open>(pgid, signal)\<close> sent. A routine that sleeps returns where it sleeps with what it still holds, and resumes on the state it then finds;
  it may resume at any time, since the code tests its condition again after every wakeup. \<open>read\<close> and \<open>write\<close> hand these routines kernel
  buffers only (\<open>sys_read\<close> and \<open>sys_write\<close> copy through a page of their own), so the model has the paths for kernel addresses.
\<close>

definition NPTY :: nat where "NPTY = 16"
definition PTY_BUF :: nat where "PTY_BUF = 512"
definition PTY_MINOR_PTMX :: int where "PTY_MINOR_PTMX = 0"
definition PTY_MINOR_SLAVE_BASE :: int where "PTY_MINOR_SLAVE_BASE = 1"
definition PTY_SIDE_NONE :: int where "PTY_SIDE_NONE = 0"
definition PTY_SIDE_MASTER :: int where "PTY_SIDE_MASTER = 1"
definition PTY_SIDE_SLAVE :: int where "PTY_SIDE_SLAVE = 2"
definition TTY_LDISC_SCRATCH_BUFSZ :: int where "TTY_LDISC_SCRATCH_BUFSZ = 512"
definition TCSANOW :: int where "TCSANOW = 0"
definition TCSADRAIN :: int where "TCSADRAIN = 1"
definition TCSAFLUSH :: int where "TCSAFLUSH = 2"

record pty_chan =
  ch_buf :: bytes
  ch_r :: u32
  ch_w :: u32

record winsize =
  ws_row :: u16
  ws_col :: u16
  ws_xpixel :: u16
  ws_ypixel :: u16

record pty_pair =
  allocated :: bool
  slave_locked :: bool
  ctty_set :: bool
  ctty_sid :: int
  pty_tio :: termios
  pty_winsize :: winsize
  fg_pgid :: int
  to_master :: pty_chan
  to_slave :: pty_chan
  ldisc :: tty_ldisc_state

text \<open>An open file: whether it is of the pty device, its side and its pair.\<close>

record pty_file =
  on_ptydev :: bool
  pty_side :: int
  pty_index :: int

record pty_caller =
  pc_killed :: bool
  pc_sid :: int
  pc_pgid :: int

type_synonym ptys = "pty_pair list"
type_synonym signals = "(int \<times> int) list"

definition chan_zero :: pty_chan where
  "chan_zero = \<lparr>ch_buf = replicate PTY_BUF 0, ch_r = 0, ch_w = 0\<rparr>"

text \<open>A pair whose bytes are all 0.\<close>

definition pty_zero :: pty_pair where
  "pty_zero =
     \<lparr>allocated = False, slave_locked = False, ctty_set = False, ctty_sid = 0,
      pty_tio = \<lparr>c_iflag = 0, c_oflag = 0, c_cflag = 0, c_lflag = 0, c_cc = replicate NCCS 0\<rparr>,
      pty_winsize = \<lparr>ws_row = 0, ws_col = 0, ws_xpixel = 0, ws_ypixel = 0\<rparr>, fg_pgid = 0,
      to_master = chan_zero, to_slave = chan_zero, ldisc = tty_ldisc_reset\<rparr>"

definition ptyinit :: ptys where "ptyinit = replicate NPTY pty_zero"

definition pty_minor_to_slave_index :: "int \<Rightarrow> int" where
  "pty_minor_to_slave_index minor =
     (if minor \<ge> PTY_MINOR_SLAVE_BASE \<and> minor < PTY_MINOR_SLAVE_BASE + int NPTY then minor - PTY_MINOR_SLAVE_BASE else -1)"

definition pty_pair_init_defaults :: pty_pair where
  "pty_pair_init_defaults =
     pty_zero\<lparr>allocated := True, pty_tio := pty_termios, pty_winsize := \<lparr>ws_row = 24, ws_col = 80, ws_xpixel = 0, ws_ypixel = 0\<rparr>,
       slave_locked := True, ctty_set := False, ctty_sid := -1, fg_pgid := 1, ldisc := tty_ldisc_init\<rparr>"

definition pty_lookup_file :: "pty_file \<Rightarrow> nat option" where
  "pty_lookup_file f =
     (if \<not> on_ptydev f then None
      else if pty_side f \<noteq> PTY_SIDE_MASTER \<and> pty_side f \<noteq> PTY_SIDE_SLAVE then None
      else if pty_index f < 0 \<or> pty_index f \<ge> int NPTY then None
      else Some (nat (pty_index f)))"

subsection \<open>The rings\<close>

definition chan_get :: "pty_chan \<Rightarrow> u8" where "chan_get ch = ch_buf ch ! (unat (ch_r ch) mod PTY_BUF)"

definition chan_put1 :: "u8 \<Rightarrow> pty_chan \<Rightarrow> pty_chan" where
  "chan_put1 c ch = ch\<lparr>ch_buf := (ch_buf ch)[unat (ch_w ch) mod PTY_BUF := c], ch_w := ch_w ch + 1\<rparr>"

definition chan_drop_all :: "pty_chan \<Rightarrow> pty_chan" where "chan_drop_all ch = ch\<lparr>ch_r := ch_w ch\<rparr>"

definition chan_used :: "pty_chan \<Rightarrow> nat" where "chan_used ch = unat (ch_w ch - ch_r ch)"

text \<open>A reader that sleeps holds nothing yet: with bytes in hand it returns instead.\<close>

datatype pty_read = Read_done int bytes | Read_sleep

fun chan_read_loop :: "bool \<Rightarrow> bool \<Rightarrow> nat \<Rightarrow> bytes \<Rightarrow> pty_chan \<Rightarrow> pty_read \<times> pty_chan" where
  "chan_read_loop peer_open kld 0 got ch = (Read_done (int (length got)) got, ch)"
| "chan_read_loop peer_open kld (Suc n) got ch =
     (if ch_r ch = ch_w ch
      then (if \<not> peer_open then Read_done (int (length got)) got
            else if kld then (if got \<noteq> [] then Read_done (int (length got)) got else Read_done (-1) [])
            else if got \<noteq> [] then Read_done (int (length got)) got
            else Read_sleep, ch)
      else chan_read_loop peer_open kld n (got @ [chan_get ch]) (ch\<lparr>ch_r := ch_r ch + 1\<rparr>))"

definition pty_chan_read_peer_locked :: "bool \<Rightarrow> bool \<Rightarrow> int \<Rightarrow> pty_chan \<Rightarrow> pty_read \<times> pty_chan" where
  "pty_chan_read_peer_locked peer_open kld n ch = chan_read_loop peer_open kld (nat n) [] ch"

text \<open>A writer that sleeps holds the bytes it has not put yet and the number of those it has.\<close>

datatype chan_write = Write_done int | Write_sleep bytes nat

fun pty_chan_write_peer_locked :: "bool \<Rightarrow> bool \<Rightarrow> bytes \<Rightarrow> nat \<Rightarrow> pty_chan \<Rightarrow> chan_write \<times> pty_chan" where
  "pty_chan_write_peer_locked peer_open kld [] put ch = (Write_done (int put), ch)"
| "pty_chan_write_peer_locked peer_open kld (c # cs) put ch =
     (if ch_w ch - ch_r ch \<ge> of_nat PTY_BUF
      then (if \<not> peer_open then Write_done (if put > 0 then int put else -1)
            else if kld then Write_done (if put > 0 then int put else -1)
            else Write_sleep (c # cs) put, ch)
      else pty_chan_write_peer_locked peer_open kld cs (put + 1) (chan_put1 c ch))"

subsection \<open>Reading\<close>

text \<open>A background process of the terminal's session.\<close>

definition in_background :: "pty_file \<Rightarrow> pty_caller \<Rightarrow> pty_pair \<Rightarrow> bool" where
  "in_background f cl pp \<longleftrightarrow>
     pty_side f = PTY_SIDE_SLAVE \<and> ctty_set pp \<and> pc_sid cl = ctty_sid pp \<and> pc_pgid cl \<noteq> 0 \<and> pc_pgid cl \<noteq> fg_pgid pp"

definition pty_fileread :: "(int \<Rightarrow> int \<Rightarrow> bool) \<Rightarrow> pty_caller \<Rightarrow> pty_file \<Rightarrow> int \<Rightarrow> ptys \<Rightarrow> pty_read \<times> ptys \<times> signals" where
  "pty_fileread so cl f n ps =
     (case pty_lookup_file f of None \<Rightarrow> (Read_done (-1) [], ps, [])
      | Some i \<Rightarrow>
          let pp = ps ! i in
          if \<not> allocated pp then (Read_done (-1) [], ps, [])
          else if in_background f cl pp then (Read_done (-1) [], ps, [(pc_pgid cl, 21)])
          else if pty_side f = PTY_SIDE_MASTER
          then let peer_open = so (pty_index f) PTY_SIDE_SLAVE in
               if ch_r (to_master pp) = ch_w (to_master pp) \<and> \<not> peer_open then (Read_done 0 [], ps, [])
               else let (r, ch) = pty_chan_read_peer_locked peer_open (pc_killed cl) n (to_master pp)
                    in (r, ps[i := pp\<lparr>to_master := ch\<rparr>], [])
          else let peer_open = so (pty_index f) PTY_SIDE_MASTER in
               if ch_r (to_slave pp) = ch_w (to_slave pp) \<and> \<not> peer_open then (Read_done 0 [], ps, [])
               else let (r, ch) = pty_chan_read_peer_locked peer_open (pc_killed cl) n (to_slave pp)
                    in (r, ps[i := pp\<lparr>to_slave := ch\<rparr>], []))"

text \<open>The reader wakes up inside the loop over its ring, after the tests on the pair.\<close>

definition pty_read_resume :: "(int \<Rightarrow> int \<Rightarrow> bool) \<Rightarrow> bool \<Rightarrow> int \<Rightarrow> nat \<Rightarrow> int \<Rightarrow> ptys \<Rightarrow> pty_read \<times> ptys" where
  "pty_read_resume so kld side i n ps =
     (let pp = ps ! i in
      if side = PTY_SIDE_MASTER
      then let (r, ch) = pty_chan_read_peer_locked (so (int i) PTY_SIDE_SLAVE) kld n (to_master pp) in (r, ps[i := pp\<lparr>to_master := ch\<rparr>])
      else let (r, ch) = pty_chan_read_peer_locked (so (int i) PTY_SIDE_MASTER) kld n (to_slave pp) in (r, ps[i := pp\<lparr>to_slave := ch\<rparr>]))"

subsection \<open>Writing\<close>

text \<open>
  A writer has returned, or it sleeps: a master on the slave's ring, with the echo still to come, or on its own ring with the echo; a slave
  on the master's ring. The last component is the length it will return.
\<close>

datatype pty_write = Returned int | In_data bytes nat bytes int | In_echo bytes nat int | In_out bytes nat int

definition write_echo :: "(int \<Rightarrow> int \<Rightarrow> bool) \<Rightarrow> bool \<Rightarrow> nat \<Rightarrow> bytes \<Rightarrow> nat \<Rightarrow> int \<Rightarrow> pty_pair \<Rightarrow> pty_write \<times> pty_pair" where
  "write_echo so kld i es put len pp =
     (if es = [] then (Returned len, pp)
      else case pty_chan_write_peer_locked (so (int i) PTY_SIDE_MASTER) kld es put (to_master pp) of
        (Write_done wrc, ch) \<Rightarrow> (Returned (if wrc \<le> 0 then wrc else len), pp\<lparr>to_master := ch\<rparr>)
      | (Write_sleep rest put, ch) \<Rightarrow> (In_echo rest put len, pp\<lparr>to_master := ch\<rparr>))"

definition write_data :: "(int \<Rightarrow> int \<Rightarrow> bool) \<Rightarrow> bool \<Rightarrow> nat \<Rightarrow> bytes \<Rightarrow> nat \<Rightarrow> bytes \<Rightarrow> int \<Rightarrow> pty_pair \<Rightarrow> pty_write \<times> pty_pair" where
  "write_data so kld i ds put es len pp =
     (if ds = [] then write_echo so kld i es 0 len pp
      else case pty_chan_write_peer_locked (so (int i) PTY_SIDE_SLAVE) kld ds put (to_slave pp) of
        (Write_done wrc, ch) \<Rightarrow>
          let pp = pp\<lparr>to_slave := ch\<rparr> in if wrc \<le> 0 then (Returned wrc, pp) else write_echo so kld i es 0 len pp
      | (Write_sleep rest put, ch) \<Rightarrow> (In_data rest put es len, pp\<lparr>to_slave := ch\<rparr>))"

definition write_out :: "(int \<Rightarrow> int \<Rightarrow> bool) \<Rightarrow> bool \<Rightarrow> nat \<Rightarrow> bytes \<Rightarrow> nat \<Rightarrow> int \<Rightarrow> pty_pair \<Rightarrow> pty_write \<times> pty_pair" where
  "write_out so kld i ds put len pp =
     (if ds = [] then (Returned len, pp)
      else case pty_chan_write_peer_locked (so (int i) PTY_SIDE_MASTER) kld ds put (to_master pp) of
        (Write_done wrc, ch) \<Rightarrow> (Returned (if wrc \<le> 0 then wrc else len), pp\<lparr>to_master := ch\<rparr>)
      | (Write_sleep rest put, ch) \<Rightarrow> (In_out rest put len, pp\<lparr>to_master := ch\<rparr>))"

fun pty_write_resume :: "(int \<Rightarrow> int \<Rightarrow> bool) \<Rightarrow> bool \<Rightarrow> nat \<Rightarrow> pty_write \<Rightarrow> pty_pair \<Rightarrow> pty_write \<times> pty_pair" where
  "pty_write_resume so kld i (Returned rc) pp = (Returned rc, pp)"
| "pty_write_resume so kld i (In_data ds put es len) pp = write_data so kld i ds put es len pp"
| "pty_write_resume so kld i (In_echo es put len) pp = write_echo so kld i es put len pp"
| "pty_write_resume so kld i (In_out ds put len) pp = write_out so kld i ds put len pp"

definition pty_signal_input :: "int \<Rightarrow> pty_pair \<Rightarrow> pty_pair \<times> signals" where
  "pty_signal_input sg pp =
     (if sg = 0 then (pp, [])
      else (if \<not> flag_on (c_lflag (pty_tio pp)) NOFLSH
            then pp\<lparr>to_slave := chan_drop_all (to_slave pp), to_master := chan_drop_all (to_master pp)\<rparr> else pp,
            if fg_pgid pp > 0 then [(fg_pgid pp, sg)] else []))"

definition pty_write_chunk_locked ::
    "(int \<Rightarrow> int \<Rightarrow> bool) \<Rightarrow> bool \<Rightarrow> nat \<Rightarrow> int \<Rightarrow> bytes \<Rightarrow> int \<Rightarrow> pty_pair \<Rightarrow> pty_write \<times> pty_pair \<times> signals" where
  "pty_write_chunk_locked so kld i side src len pp =
     (let cap = TTY_LDISC_SCRATCH_BUFSZ * 2 in
      if side = PTY_SIDE_MASTER
      then case tty_ldisc_process_input (pty_tio pp) (ldisc pp) src len cap cap of
             None \<Rightarrow> (Returned (-1), pp, [])
           | Some s \<Rightarrow>
               let (pp, sigs) = pty_signal_input (io_sig s) (pp\<lparr>ldisc := io_ld s\<rparr>);
                   (r, pp) = write_data so kld i (io_slave s) 0 (io_echo s) len pp
               in (r, pp, sigs)
      else case tty_ldisc_process_output (pty_tio pp) (ldisc pp) src len cap of
             None \<Rightarrow> (Returned (-1), pp, [])
           | Some (out, ld) \<Rightarrow>
               let (r, pp) = write_out so kld i out 0 len (pp\<lparr>ldisc := ld\<rparr>) in (r, pp, []))"

definition pty_filewrite ::
    "(int \<Rightarrow> int \<Rightarrow> bool) \<Rightarrow> pty_caller \<Rightarrow> pty_file \<Rightarrow> bytes \<Rightarrow> int \<Rightarrow> ptys \<Rightarrow> pty_write \<times> ptys \<times> signals" where
  "pty_filewrite so cl f src n ps =
     (case pty_lookup_file f of None \<Rightarrow> (Returned (-1), ps, [])
      | Some i \<Rightarrow>
          let pp = ps ! i in
          if \<not> allocated pp then (Returned (-1), ps, [])
          else if in_background f cl pp \<and> flag_on (c_lflag (pty_tio pp)) TOSTOP then (Returned (-1), ps, [(pc_pgid cl, 22)])
          else let (r, pp, sigs) = pty_write_chunk_locked so (pc_killed cl) i (pty_side f) src n pp
               in (r, ps[i := pp], sigs))"

subsection \<open>Settings\<close>

text \<open>A pointer argument of 0 is \<open>None\<close>; otherwise it is what the pointer points to.\<close>

definition pty_get_termios_file :: "pty_file \<Rightarrow> ptys \<Rightarrow> termios option" where
  "pty_get_termios_file f ps =
     (case pty_lookup_file f of None \<Rightarrow> None
      | Some i \<Rightarrow> if \<not> allocated (ps ! i) then None else Some (pty_tio (ps ! i)))"

definition pty_set_termios_file :: "pty_file \<Rightarrow> termios option \<Rightarrow> int \<Rightarrow> ptys \<Rightarrow> int \<times> ptys" where
  "pty_set_termios_file f tp optional_actions ps =
     (case tp of None \<Rightarrow> (-1, ps)
      | Some tio \<Rightarrow>
          if optional_actions \<noteq> TCSANOW \<and> optional_actions \<noteq> TCSADRAIN \<and> optional_actions \<noteq> TCSAFLUSH then (-1, ps)
          else case pty_lookup_file f of None \<Rightarrow> (-1, ps)
          | Some i \<Rightarrow>
              if \<not> allocated (ps ! i) then (-1, ps)
              else let pp = (ps ! i)\<lparr>pty_tio := tio\<rparr>;
                       pp = (if optional_actions = TCSAFLUSH
                             then pp\<lparr>to_slave := chan_drop_all (to_slave pp), ldisc := tty_ldisc_reset\<rparr> else pp)
                   in (0, ps[i := pp]))"

text \<open>The argument word of \<open>ioctl\<close>, and what the memory there holds for the requests that read it; what a request writes there.\<close>

record ioctl_arg =
  ia_word :: u32
  ia_termios :: termios
  ia_winsize :: winsize
  ia_int :: int

datatype ioctl_out = Out_nothing | Out_termios termios | Out_winsize winsize | Out_int int

definition as_ptr :: "u32 \<Rightarrow> 'a \<Rightarrow> 'a option" where "as_ptr a x = (if a = 0 then None else Some x)"

text \<open>The pattern of most requests: a pointer that is not 0, a pair that is allocated, then the request on the pair.\<close>

definition on_pair :: "ioctl_arg \<Rightarrow> nat \<Rightarrow> ptys \<Rightarrow> (pty_pair \<Rightarrow> ioctl_out \<times> pty_pair \<times> signals) \<Rightarrow> int \<times> ioctl_out \<times> ptys \<times> signals" where
  "on_pair a i ps g =
     (if ia_word a = 0 then (-1, Out_nothing, ps, [])
      else if \<not> allocated (ps ! i) then (-1, Out_nothing, ps, [])
      else let (res, pp, sigs) = g (ps ! i) in (0, res, ps[i := pp], sigs))"

definition chan_queued :: "pty_chan \<Rightarrow> int" where "chan_queued ch = sint (ch_w ch - ch_r ch)"

definition tcflush_pair :: "pty_file \<Rightarrow> pty_pair \<Rightarrow> pty_pair" where
  "tcflush_pair f pp =
     (if pty_side f = PTY_SIDE_MASTER then pp\<lparr>to_master := chan_drop_all (to_master pp)\<rparr>
      else pp\<lparr>to_slave := chan_drop_all (to_slave pp)\<rparr>)"

definition set_ctty :: "pty_caller \<Rightarrow> pty_pair \<Rightarrow> pty_pair" where
  "set_ctty cl pp =
     (let pp = pp\<lparr>ctty_set := True, ctty_sid := pc_sid cl\<rparr>
      in if pc_pgid cl > 0 then pp\<lparr>fg_pgid := pc_pgid cl\<rparr> else pp)"

definition ioctl_set_termios :: "pty_file \<Rightarrow> ioctl_arg \<Rightarrow> int \<Rightarrow> ptys \<Rightarrow> int \<times> ioctl_out \<times> ptys \<times> signals" where
  "ioctl_set_termios f a act ps =
     (let (rc, ps) = pty_set_termios_file f (as_ptr (ia_word a) (ia_termios a)) act ps in (rc, Out_nothing, ps, []))"

definition pty_ioctl_file :: "pty_caller \<Rightarrow> pty_file \<Rightarrow> u32 \<Rightarrow> ioctl_arg \<Rightarrow> ptys \<Rightarrow> int \<times> ioctl_out \<times> ptys \<times> signals" where
  "pty_ioctl_file cl f request a ps =
     (let fail = (-1, Out_nothing, ps, []); master = (pty_side f = PTY_SIDE_MASTER) in
      case pty_lookup_file f of None \<Rightarrow> fail
      | Some i \<Rightarrow>
          if request = 0x5401 then on_pair a i ps (\<lambda>pp. (Out_termios (pty_tio pp), pp, []))
          else if request = 0x5402 then ioctl_set_termios f a TCSANOW ps
          else if request = 0x5403 then ioctl_set_termios f a TCSADRAIN ps
          else if request = 0x5404 then ioctl_set_termios f a TCSAFLUSH ps
          else if request = 0x5413 then on_pair a i ps (\<lambda>pp. (Out_winsize (pty_winsize pp), pp, []))
          else if request = 0x5414
            then on_pair a i ps (\<lambda>pp. (Out_nothing, pp\<lparr>pty_winsize := ia_winsize a\<rparr>, [(fg_pgid pp, 28)]))
          else if request = 0x540F then on_pair a i ps (\<lambda>pp. (Out_int (fg_pgid pp), pp, []))
          else if request = 0x5410 then on_pair a i ps (\<lambda>pp. (Out_nothing, pp\<lparr>fg_pgid := ia_int a\<rparr>, []))
          else if request = 0x80045430
            then (if ia_word a = 0 \<or> \<not> master then fail else (0, Out_int (pty_index f), ps, []))
          else if request = 0x80045439
            then (if \<not> master then fail
                  else on_pair a i ps (\<lambda>pp. (Out_int (if slave_locked pp then 1 else 0), pp, [])))
          else if request = 0x40045431
            then (if \<not> master then fail
                  else on_pair a i ps (\<lambda>pp. (Out_nothing, pp\<lparr>slave_locked := (ia_int a \<noteq> 0)\<rparr>, [])))
          else if request = 0x541B
            then on_pair a i ps (\<lambda>pp. (Out_int (chan_queued (if master then to_master pp else to_slave pp)), pp, []))
          else if request = 0x5411
            then on_pair a i ps (\<lambda>pp. (Out_int (chan_queued (if master then to_slave pp else to_master pp)), pp, []))
          else if request = 0x540B
            then (if ia_word a \<noteq> 0 \<and> ia_word a \<noteq> 1 \<and> ia_word a \<noteq> 2 then fail
                  else if \<not> allocated (ps ! i) then fail
                  else (0, Out_nothing, if ia_word a = 0 \<or> ia_word a = 2 then ps[i := tcflush_pair f (ps ! i)] else ps, []))
          else if request = 0x540E
            then (if \<not> allocated (ps ! i) then fail else (0, Out_nothing, ps[i := set_ctty cl (ps ! i)], []))
          else if request = 0x54A3 then (1, Out_nothing, ps, [])
          else fail)"

text \<open>Readable, writable, error.\<close>

definition pty_poll_events :: "(int \<Rightarrow> int \<Rightarrow> bool) \<Rightarrow> pty_file \<Rightarrow> ptys \<Rightarrow> bool \<times> bool \<times> bool" where
  "pty_poll_events so f ps =
     (case pty_lookup_file f of None \<Rightarrow> (False, False, False)
      | Some i \<Rightarrow>
          if \<not> allocated (ps ! i) then (False, False, True)
          else let master = (pty_side f = PTY_SIDE_MASTER);
                   inp = (if master then to_master (ps ! i) else to_slave (ps ! i));
                   out = (if master then to_slave (ps ! i) else to_master (ps ! i));
                   peer_open = so (pty_index f) (if master then PTY_SIDE_SLAVE else PTY_SIDE_MASTER)
               in (ch_w inp \<noteq> ch_r inp \<or> \<not> peer_open, ch_w out - ch_r out < of_nat PTY_BUF, \<not> peer_open))"

subsection \<open>Opening and closing\<close>

definition pty_open :: "(int \<Rightarrow> int \<Rightarrow> bool) \<Rightarrow> pty_file \<Rightarrow> int \<Rightarrow> ptys \<Rightarrow> int \<times> pty_file \<times> ptys" where
  "pty_open so f minor ps =
     (if minor = PTY_MINOR_PTMX
      then case first_index (\<lambda>pp. \<not> allocated pp) ps of
             Some i \<Rightarrow> (0, f\<lparr>pty_side := PTY_SIDE_MASTER, pty_index := int i\<rparr>, ps[i := pty_pair_init_defaults])
           | None \<Rightarrow> (-1, f, ps)
      else let i = pty_minor_to_slave_index minor in
           if i < 0 then (-1, f, ps)
           else if \<not> allocated (ps ! nat i) \<or> \<not> so i PTY_SIDE_MASTER \<or> slave_locked (ps ! nat i) then (-1, f, ps)
           else (0, f\<lparr>pty_side := PTY_SIDE_SLAVE, pty_index := i\<rparr>, ps))"

text \<open>The file is no longer in any table when it is closed, so \<open>so\<close> tells of the others.\<close>

definition pty_close :: "(int \<Rightarrow> int \<Rightarrow> bool) \<Rightarrow> pty_file \<Rightarrow> ptys \<Rightarrow> pty_file \<times> ptys \<times> signals" where
  "pty_close so f ps =
     (case pty_lookup_file f of None \<Rightarrow> (f, ps, [])
      | Some i \<Rightarrow>
          if \<not> allocated (ps ! i) then (f, ps, [])
          else let m = so (pty_index f) PTY_SIDE_MASTER; s = so (pty_index f) PTY_SIDE_SLAVE;
                   hup = (pty_side f = PTY_SIDE_MASTER \<and> \<not> m \<and> s);
                   pgid = fg_pgid (ps ! i)
               in (f\<lparr>pty_side := PTY_SIDE_NONE, pty_index := -1\<rparr>,
                   if \<not> m \<and> \<not> s then ps[i := pty_zero] else ps,
                   if hup \<and> pgid > 0 then [(pgid, 1), (pgid, 18)] else []))"

text \<open>The entries of the device table refuse: all input and output goes by the open file.\<close>

definition ptyread :: int where "ptyread = -1"
definition ptywrite :: int where "ptywrite = -1"

subsection \<open>The rings as queues\<close>

definition chan_inv :: "pty_chan \<Rightarrow> bool" where
  "chan_inv ch \<longleftrightarrow> length (ch_buf ch) = PTY_BUF \<and> chan_used ch \<le> PTY_BUF"

definition chan_content :: "pty_chan \<Rightarrow> bytes" where
  "chan_content ch = map (\<lambda>k. ch_buf ch ! ((unat (ch_r ch) + k) mod PTY_BUF)) [0..<chan_used ch]"

definition chan_put :: "bytes \<Rightarrow> pty_chan \<Rightarrow> pty_chan" where "chan_put bs = fold chan_put1 bs"

definition chan_room :: "nat \<Rightarrow> pty_chan \<Rightarrow> bool" where "chan_room n ch \<longleftrightarrow> chan_used ch + n \<le> PTY_BUF"

definition chan_has :: "nat \<Rightarrow> pty_chan \<Rightarrow> bool" where "chan_has n ch \<longleftrightarrow> n \<le> chan_used ch"

definition chan_discard :: "nat \<Rightarrow> pty_chan \<Rightarrow> pty_chan" where "chan_discard n ch = ch\<lparr>ch_r := ch_r ch + of_nat n\<rparr>"

primrec chan_front :: "nat \<Rightarrow> pty_chan \<Rightarrow> bytes" where
  "chan_front 0 ch = []"
| "chan_front (Suc n) ch = chan_get ch # chan_front n (ch\<lparr>ch_r := ch_r ch + 1\<rparr>)"

lemma chan_put1_simps [simp]:
  "ch_r (chan_put1 c ch) = ch_r ch" "ch_w (chan_put1 c ch) = ch_w ch + 1" "length (ch_buf (chan_put1 c ch)) = length (ch_buf ch)"
  by (simp_all add: chan_put1_def)

lemma chan_w: "ch_w ch = ch_r ch + of_nat (chan_used ch)"
  by (simp add: chan_used_def)

lemma chan_w_mod: "unat (ch_w ch) mod 512 = (unat (ch_r ch) + chan_used ch) mod 512"
  by (subst chan_w) (simp add: unat_word_ariths unat_of_nat mod_mod_cancel mod_add_right_eq)

lemma unat_r_mod: "(unat (r + 1 :: u32) + k) mod 512 = (unat r + Suc k) mod 512"
proof -
  have a: "unat (r + 1) mod 512 = (unat r + 1) mod 512" by (simp add: unat_word_ariths mod_mod_cancel)
  have "(unat (r + 1) + k) mod 512 = (unat (r + 1) mod 512 + k) mod 512" by (simp only: mod_add_left_eq)
  also have "\<dots> = (unat r + Suc k) mod 512" unfolding a mod_add_left_eq by simp
  finally show ?thesis .
qed

lemma chan_used_eqI: "ch_w ch - ch_r ch = of_nat n \<Longrightarrow> n \<le> PTY_BUF \<Longrightarrow> chan_used ch = n"
  by (simp add: chan_used_def PTY_BUF_def unat_of_nat_len)

lemma chan_used_put1: "chan_used ch < PTY_BUF \<Longrightarrow> chan_used (chan_put1 c ch) = Suc (chan_used ch)"
  by (rule chan_used_eqI) (simp_all add: chan_w [of ch])

lemma chan_used_get:
  "0 < chan_used ch \<Longrightarrow> chan_used ch \<le> PTY_BUF \<Longrightarrow> chan_used (ch\<lparr>ch_r := ch_r ch + 1\<rparr>) = chan_used ch - 1"
  by (rule chan_used_eqI) (simp_all add: chan_w [of ch] of_nat_diff)

lemma chan_empty_iff: "ch_r ch = ch_w ch \<longleftrightarrow> chan_used ch = 0"
  by (auto simp: chan_used_def unat_eq_zero)

lemma chan_full_iff: "chan_inv ch \<Longrightarrow> of_nat PTY_BUF \<le> ch_w ch - ch_r ch \<longleftrightarrow> chan_used ch = PTY_BUF"
  by (auto simp: chan_inv_def chan_used_def PTY_BUF_def word_le_nat_alt)

lemma length_chan_content [simp]: "length (chan_content ch) = chan_used ch"
  by (simp add: chan_content_def)

lemma chan_put1_inv: "chan_inv ch \<Longrightarrow> chan_used ch < PTY_BUF \<Longrightarrow> chan_inv (chan_put1 c ch)"
  by (simp add: chan_inv_def chan_used_put1)

lemma slot_distinct:
  fixes r u k :: nat
  assumes "k < u" "u < 512"
  shows "(r + u) mod 512 \<noteq> (r + k) mod 512"
proof
  assume "(r + u) mod 512 = (r + k) mod 512"
  then have "512 dvd (r + u) - (r + k)" by (subst mod_eq_dvd_iff_nat [symmetric]) (use assms in auto)
  with assms show False by (auto dest: dvd_imp_le)
qed

lemma chan_content_put1:
  assumes "chan_inv ch" "chan_used ch < PTY_BUF"
  shows "chan_content (chan_put1 c ch) = chan_content ch @ [c]"
proof (rule nth_equalityI)
  show "length (chan_content (chan_put1 c ch)) = length (chan_content ch @ [c])"
    by (simp add: chan_used_put1 [OF assms(2)])
  fix k assume "k < length (chan_content (chan_put1 c ch))"
  then have k: "k \<le> chan_used ch" by (simp add: chan_used_put1 [OF assms(2)])
  have u: "chan_used ch < 512" "length (ch_buf ch) = 512" using assms by (simp_all add: PTY_BUF_def chan_inv_def)
  have "chan_content (chan_put1 c ch) ! k = ch_buf (chan_put1 c ch) ! ((unat (ch_r ch) + k) mod 512)"
    using k by (simp add: chan_content_def chan_used_put1 [OF assms(2)] PTY_BUF_def del: upt_Suc)
  also have "\<dots> =
      (ch_buf ch)[(unat (ch_r ch) + chan_used ch) mod 512 := c] ! ((unat (ch_r ch) + k) mod 512)"
    by (simp add: chan_put1_def PTY_BUF_def chan_w_mod)
  also have "\<dots> = (chan_content ch @ [c]) ! k"
  proof (cases "k = chan_used ch")
    case True
    then show ?thesis using u by (simp add: nth_append)
  next
    case False
    then have "k < chan_used ch" using k by simp
    then show ?thesis using slot_distinct [of k "chan_used ch" "unat (ch_r ch)"] u
      by (simp add: nth_append chan_content_def PTY_BUF_def)
  qed
  finally show "chan_content (chan_put1 c ch) ! k = (chan_content ch @ [c]) ! k" .
qed

lemma chan_content_get:
  assumes "0 < chan_used ch" "chan_used ch \<le> PTY_BUF"
  shows "chan_content ch = chan_get ch # chan_content (ch\<lparr>ch_r := ch_r ch + 1\<rparr>)"
proof -
  obtain n where n: "chan_used ch = Suc n" using assms(1) by (cases "chan_used ch") auto
  then have m: "chan_used (ch\<lparr>ch_r := ch_r ch + 1\<rparr>) = n" using chan_used_get [OF assms] by simp
  show ?thesis
    by (simp add: chan_content_def n m upt_conv_Cons chan_get_def map_Suc_upt [symmetric] unat_r_mod PTY_BUF_def comp_def
        del: upt_Suc map_Suc_upt)
qed

lemma chan_put_content:
  "chan_inv ch \<Longrightarrow> chan_room (length bs) ch \<Longrightarrow>
   chan_inv (chan_put bs ch) \<and> chan_content (chan_put bs ch) = chan_content ch @ bs"
proof (induction bs arbitrary: ch)
  case (Cons c bs)
  have lt: "chan_used ch < PTY_BUF" using Cons.prems(2) by (simp add: chan_room_def)
  have "chan_room (length bs) (chan_put1 c ch)" using Cons.prems(2) by (simp add: chan_room_def chan_used_put1 [OF lt])
  from Cons.IH [OF chan_put1_inv [OF Cons.prems(1) lt] this]
  show ?case by (simp add: chan_put_def chan_content_put1 [OF Cons.prems(1) lt])
qed (simp add: chan_put_def)

lemma chan_discard_Suc: "chan_discard (Suc n) ch = chan_discard n (ch\<lparr>ch_r := ch_r ch + 1\<rparr>)"
  by (simp add: chan_discard_def add_ac)

lemma chan_take_content:
  "chan_inv ch \<Longrightarrow> chan_has n ch \<Longrightarrow>
   chan_front n ch = take n (chan_content ch) \<and> chan_inv (chan_discard n ch) \<and>
   chan_content (chan_discard n ch) = drop n (chan_content ch)"
proof (induction n arbitrary: ch)
  case (Suc n)
  have u: "0 < chan_used ch" "chan_used ch \<le> PTY_BUF" using Suc.prems by (auto simp: chan_has_def chan_inv_def)
  let ?c = "ch\<lparr>ch_r := ch_r ch + 1\<rparr>"
  have "chan_inv ?c" "chan_has n ?c"
    using Suc.prems chan_used_get [OF u] by (auto simp: chan_inv_def chan_has_def)
  from Suc.IH [OF this] show ?case by (simp add: chan_content_get [OF u] chan_discard_Suc)
qed (simp add: chan_discard_def)

interpretation chan: byte_fifo chan_inv chan_content chan_room chan_put chan_front chan_discard chan_has
  by unfold_locales (simp_all add: chan_put_content chan_take_content)

lemma chan_used_put: "chan_inv ch \<Longrightarrow> chan_room (length bs) ch \<Longrightarrow> chan_used (chan_put bs ch) = chan_used ch + length bs"
  using arg_cong [OF chan.put_bytes, of ch bs length] by simp

lemma chan_drop_all_inv [simp]: "chan_inv ch \<Longrightarrow> chan_inv (chan_drop_all ch)" "chan_used (chan_drop_all ch) = 0"
  by (simp_all add: chan_inv_def chan_drop_all_def chan_used_def)

subsection \<open>The loops over the rings\<close>

lemma chan_put_Cons [simp]: "chan_put [] ch = ch" "chan_put (c # cs) ch = chan_put cs (chan_put1 c ch)"
  by (simp_all add: chan_put_def)

lemma chan_discard_0 [simp]: "chan_discard 0 ch = ch"
  by (simp add: chan_discard_def)

lemma write_fits:
  "chan_inv ch \<Longrightarrow> chan_room (length bs) ch \<Longrightarrow>
   pty_chan_write_peer_locked po kld bs put ch = (Write_done (int (put + length bs)), chan_put bs ch)"
proof (induction bs arbitrary: put ch)
  case (Cons c bs)
  have lt: "chan_used ch < PTY_BUF" using Cons.prems(2) by (simp add: chan_room_def)
  have "chan_room (length bs) (chan_put1 c ch)" using Cons.prems(2) by (simp add: chan_room_def chan_used_put1 [OF lt])
  from Cons.IH [OF chan_put1_inv [OF Cons.prems(1) lt] this] lt
  show ?case by (simp add: chan_full_iff [OF Cons.prems(1)])
qed simp

lemma write_sleeps:
  "chan_inv ch \<Longrightarrow> \<not> chan_room (length bs) ch \<Longrightarrow>
   pty_chan_write_peer_locked True False bs put ch =
     (let r = PTY_BUF - chan_used ch in (Write_sleep (drop r bs) (put + r), chan_put (take r bs) ch))"
proof (induction bs arbitrary: put ch)
  case Nil
  then show ?case by (simp add: chan_room_def chan_inv_def)
next
  case (Cons c bs)
  show ?case
  proof (cases "chan_used ch = PTY_BUF")
    case True
    then show ?thesis using chan_full_iff [OF Cons.prems(1)] by simp
  next
    case False
    with Cons.prems(1) have lt: "chan_used ch < PTY_BUF" by (simp add: chan_inv_def)
    then obtain r where r: "PTY_BUF - chan_used ch = Suc r" by (metis Suc_diff_Suc)
    have r': "PTY_BUF - chan_used (chan_put1 c ch) = r" using r by (simp add: chan_used_put1 [OF lt])
    have "\<not> chan_room (length bs) (chan_put1 c ch)" using Cons.prems(2) by (simp add: chan_room_def chan_used_put1 [OF lt])
    from Cons.IH [OF chan_put1_inv [OF Cons.prems(1) lt] this] False
    show ?thesis by (simp add: chan_full_iff [OF Cons.prems(1)] r r' Let_def)
  qed
qed

lemma write_inv: "chan_inv ch \<Longrightarrow> chan_inv (snd (pty_chan_write_peer_locked po kld bs put ch))"
proof (induction bs arbitrary: put ch)
  case (Cons c bs)
  show ?case
  proof (cases "chan_used ch = PTY_BUF")
    case True
    then show ?thesis using Cons.prems by (simp add: chan_full_iff [OF Cons.prems])
  next
    case False
    then have "chan_inv (chan_put1 c ch)" using Cons.prems chan_put1_inv [of ch c] by (simp add: chan_inv_def)
    with False Cons.IH show ?thesis by (simp add: chan_full_iff [OF Cons.prems])
  qed
qed simp

lemma read_takes:
  "chan_inv ch \<Longrightarrow> got \<noteq> [] \<or> 0 < chan_used ch \<or> n = 0 \<Longrightarrow>
   chan_read_loop po kld n got ch =
     (let m = min n (chan_used ch) in (Read_done (int (length got + m)) (got @ take n (chan_content ch)), chan_discard m ch))"
proof (induction n arbitrary: got ch)
  case (Suc n)
  show ?case
  proof (cases "chan_used ch = 0")
    case True
    then have "chan_content ch = []" by (simp add: chan_content_def)
    with True Suc.prems show ?thesis by (simp add: chan_empty_iff)
  next
    case False
    then have u: "0 < chan_used ch" "chan_used ch \<le> PTY_BUF" using Suc.prems by (auto simp: chan_inv_def)
    let ?c = "ch\<lparr>ch_r := ch_r ch + 1\<rparr>"
    obtain m where m: "chan_used ch = Suc m" using u(1) by (cases "chan_used ch") auto
    have "chan_inv ?c" "chan_used ?c = m"
      using Suc.prems chan_used_get [OF u] m by (auto simp: chan_inv_def)
    with Suc.IH [of ?c "got @ [chan_get ch]"] False
    show ?thesis by (simp add: chan_empty_iff chan_content_get [OF u] chan_discard_Suc m Let_def)
  qed
qed simp

lemma read_empty:
  "chan_used ch = 0 \<Longrightarrow> 0 < n \<Longrightarrow>
   chan_read_loop po kld n [] ch =
     (if \<not> po then Read_done 0 [] else if kld then Read_done (-1) [] else Read_sleep, ch)"
  by (cases n) (auto simp: chan_empty_iff)

lemma read_inv: "chan_inv ch \<Longrightarrow> chan_inv (snd (pty_chan_read_peer_locked po kld n ch))"
proof (cases "0 < chan_used ch \<or> nat n = 0")
  case True
  assume "chan_inv ch"
  moreover from this have "chan_inv (chan_discard (min (nat n) (chan_used ch)) ch)"
    by (rule chan.discard_ok) (simp add: chan_has_def)
  ultimately show ?thesis using True read_takes [of ch "[]" "nat n" po kld]
    by (simp add: pty_chan_read_peer_locked_def Let_def)
next
  case False
  assume "chan_inv ch"
  then show ?thesis using False by (simp add: pty_chan_read_peer_locked_def read_empty)
qed

subsection \<open>The table stays well formed\<close>

definition pair_ok :: "pty_pair \<Rightarrow> bool" where
  "pair_ok pp \<longleftrightarrow> chan_inv (to_master pp) \<and> chan_inv (to_slave pp) \<and> ld_ok (ldisc pp)"

definition ptys_ok :: "ptys \<Rightarrow> bool" where
  "ptys_ok ps \<longleftrightarrow> length ps = NPTY \<and> list_all pair_ok ps"

lemma chan_zero_inv [simp]: "chan_inv chan_zero" "chan_used chan_zero = 0"
  by (simp_all add: chan_zero_def chan_inv_def chan_used_def)

lemma pair_ok_zero: "pair_ok pty_zero"
  using ld_ok_init by (simp add: pair_ok_def pty_zero_def tty_ldisc_init_def)

lemma pair_ok_new: "pair_ok pty_pair_init_defaults"
  using ld_ok_init by (simp add: pair_ok_def pty_pair_init_defaults_def pty_zero_def)

lemma ptys_ok_upd: "ptys_ok ps \<Longrightarrow> (i < NPTY \<Longrightarrow> pair_ok (ps ! i) \<Longrightarrow> pair_ok pp) \<Longrightarrow> ptys_ok (ps[i := pp])"
  by (cases "i < NPTY") (auto simp: ptys_ok_def list_all_length nth_list_update list_update_beyond)

lemma ptys_ok_nth: "ptys_ok ps \<Longrightarrow> i < NPTY \<Longrightarrow> pair_ok (ps ! i)"
  by (simp add: ptys_ok_def list_all_length)

lemma pty_lookup_bound: "pty_lookup_file f = Some i \<Longrightarrow> i < NPTY \<and> pty_index f = int i"
  by (auto simp: pty_lookup_file_def NPTY_def split: if_splits)

lemma write_echo_ok: "pair_ok pp \<Longrightarrow> pair_ok (snd (write_echo so kld i es put len pp))"
  using write_inv [of "to_master pp" "so (int i) PTY_SIDE_MASTER" kld es put]
  by (auto simp: write_echo_def pair_ok_def split: prod.split chan_write.split)

lemma write_out_ok: "pair_ok pp \<Longrightarrow> pair_ok (snd (write_out so kld i ds put len pp))"
  using write_inv [of "to_master pp" "so (int i) PTY_SIDE_MASTER" kld ds put]
  by (auto simp: write_out_def pair_ok_def split: prod.split chan_write.split)

lemma write_data_ok: "pair_ok pp \<Longrightarrow> pair_ok (snd (write_data so kld i ds put es len pp))"
proof -
  assume ok: "pair_ok pp"
  have "pair_ok (pp\<lparr>to_slave := snd (pty_chan_write_peer_locked (so (int i) PTY_SIDE_SLAVE) kld ds put (to_slave pp))\<rparr>)"
    using ok write_inv by (simp add: pair_ok_def)
  with ok show ?thesis
    by (auto simp: write_data_def write_echo_ok Let_def split: prod.split chan_write.split)
qed

lemma pty_write_resume_ok: "pair_ok pp \<Longrightarrow> pair_ok (snd (pty_write_resume so kld i w pp))"
  by (cases w) (simp_all add: write_echo_ok write_out_ok write_data_ok)

lemma pty_signal_input_ok: "pair_ok pp \<Longrightarrow> pair_ok (fst (pty_signal_input sg pp))"
  by (simp add: pty_signal_input_def pair_ok_def)

lemma process_input_ok: "ld_ok ld \<Longrightarrow> tty_ldisc_process_input tp ld inp n scap ecap = Some s \<Longrightarrow> ld_ok (io_ld s)"
  using process_input_sim [of ld n scap ecap tp inp]
  by (auto simp: sim_def tty_ldisc_process_input_def split: if_splits)

lemma process_output_ok: "ld_ok ld \<Longrightarrow> tty_ldisc_process_output tp ld inp n cap = Some (out, ld') \<Longrightarrow> ld_ok ld'"
  by (auto simp: tty_ldisc_process_output_def ld_ok_def split: if_splits prod.splits)

lemma pty_write_chunk_ok:
  assumes "pair_ok pp"
  shows "pair_ok (fst (snd (pty_write_chunk_locked so kld i side src len pp)))"
proof -
  have ld: "pair_ok (pp\<lparr>ldisc := ld\<rparr>)" if "ld_ok ld" for ld using assms that by (simp add: pair_ok_def)
  have "pair_ok (pp\<lparr>ldisc := io_ld s\<rparr>)" if "tty_ldisc_process_input (pty_tio pp) (ldisc pp) src len c d = Some s" for s c d
    using assms that by (intro ld process_input_ok) (auto simp: pair_ok_def)
  from write_data_ok [OF pty_signal_input_ok [OF this]]
  have inp: "pair_ok (snd (write_data so kld i (io_slave s) 0 (io_echo s) len (fst (pty_signal_input (io_sig s) (pp\<lparr>ldisc := io_ld s\<rparr>)))))"
    if "tty_ldisc_process_input (pty_tio pp) (ldisc pp) src len c d = Some s" for s c d
    using that .
  have out: "pair_ok (snd (write_out so kld i out 0 len (pp\<lparr>ldisc := ld'\<rparr>)))"
    if "tty_ldisc_process_output (pty_tio pp) (ldisc pp) src len c = Some (out, ld')" for out ld' c
    using assms that by (intro write_out_ok ld) (auto simp: pair_ok_def intro: process_output_ok)
  show ?thesis
    using assms by (simp add: pty_write_chunk_locked_def Let_def case_prod_beta inp out split: option.split)
qed

lemma read_pair_ok:
  "pair_ok pp \<Longrightarrow> pair_ok (pp\<lparr>to_master := snd (pty_chan_read_peer_locked po kld n (to_master pp))\<rparr>)"
  "pair_ok pp \<Longrightarrow> pair_ok (pp\<lparr>to_slave := snd (pty_chan_read_peer_locked po kld n (to_slave pp))\<rparr>)"
  by (simp_all add: pair_ok_def read_inv)

lemma pty_fileread_ok: "ptys_ok ps \<Longrightarrow> ptys_ok (fst (snd (pty_fileread so cl f n ps)))"
  by (simp add: pty_fileread_def Let_def case_prod_beta ptys_ok_upd read_pair_ok split: option.split)

lemma pty_read_resume_ok: "ptys_ok ps \<Longrightarrow> ptys_ok (snd (pty_read_resume so kld side i n ps))"
  by (simp add: pty_read_resume_def Let_def case_prod_beta ptys_ok_upd read_pair_ok)

lemma pty_filewrite_ok: "ptys_ok ps \<Longrightarrow> ptys_ok (fst (snd (pty_filewrite so cl f src n ps)))"
  by (simp add: pty_filewrite_def Let_def case_prod_beta ptys_ok_upd pty_write_chunk_ok split: option.split)

lemma pty_set_termios_ok: "ptys_ok ps \<Longrightarrow> ptys_ok (snd (pty_set_termios_file f tp act ps))"
proof -
  have "ld_ok tty_ldisc_reset" using ld_ok_init by (simp add: tty_ldisc_init_def)
  then have r: "pair_ok pp \<Longrightarrow> pair_ok (pp\<lparr>pty_tio := t\<rparr>)"
    "pair_ok pp \<Longrightarrow> pair_ok (pp\<lparr>pty_tio := t, to_slave := chan_drop_all (to_slave pp), ldisc := tty_ldisc_reset\<rparr>)" for pp t
    by (simp_all add: pair_ok_def)
  show "ptys_ok ps \<Longrightarrow> ptys_ok (snd (pty_set_termios_file f tp act ps))"
    by (simp add: pty_set_termios_file_def Let_def ptys_ok_upd r split: option.split)
qed

lemma on_pair_ok:
  "ptys_ok ps \<Longrightarrow> (\<And>pp. pair_ok pp \<Longrightarrow> pair_ok (fst (snd (g pp)))) \<Longrightarrow> ptys_ok (fst (snd (snd (on_pair a i ps g))))"
  by (simp add: on_pair_def Let_def case_prod_beta ptys_ok_upd)

lemma pty_ioctl_ok: "ptys_ok ps \<Longrightarrow> ptys_ok (fst (snd (snd (pty_ioctl_file cl f request a ps))))"
proof -
  assume ok: "ptys_ok ps"
  have st: "ptys_ok (fst (snd (snd (ioctl_set_termios f a act ps))))" for act
    using pty_set_termios_ok [OF ok] by (simp add: ioctl_set_termios_def Let_def case_prod_beta)
  have pr: "pair_ok pp \<Longrightarrow> pair_ok (tcflush_pair f pp)" "pair_ok pp \<Longrightarrow> pair_ok (set_ctty cl pp)" for pp
    by (simp_all add: pair_ok_def tcflush_pair_def set_ctty_def Let_def)
  have simple: "pair_ok pp \<Longrightarrow> pair_ok (pp\<lparr>pty_winsize := w\<rparr>)" "pair_ok pp \<Longrightarrow> pair_ok (pp\<lparr>fg_pgid := g\<rparr>)"
    "pair_ok pp \<Longrightarrow> pair_ok (pp\<lparr>slave_locked := b\<rparr>)" for pp w g b
    by (simp_all add: pair_ok_def)
  show ?thesis
    using ok by (simp add: pty_ioctl_file_def Let_def st on_pair_ok simple pr ptys_ok_upd split: option.split)
qed

lemma pty_open_ok: "ptys_ok ps \<Longrightarrow> ptys_ok (snd (snd (pty_open so f minor ps)))"
  by (simp add: pty_open_def Let_def ptys_ok_upd pair_ok_new split: option.split)

lemma pty_close_ok: "ptys_ok ps \<Longrightarrow> ptys_ok (fst (snd (pty_close so f ps)))"
  by (simp add: pty_close_def Let_def ptys_ok_upd pair_ok_zero split: option.split)

text \<open>
  Any process may at any time call a routine of the driver or wake up in one; the sides that are open and what the sleeper holds are
  arbitrary.
\<close>

inductive pty_step :: "ptys \<Rightarrow> ptys \<Rightarrow> bool" where
  Open: "pty_step ps (snd (snd (pty_open so f minor ps)))"
| Close: "pty_step ps (fst (snd (pty_close so f ps)))"
| Read: "pty_step ps (fst (snd (pty_fileread so cl f n ps)))"
| Read_on: "pty_step ps (snd (pty_read_resume so kld side i n ps))"
| Write: "pty_step ps (fst (snd (pty_filewrite so cl f src n ps)))"
| Write_on: "pty_step ps (ps[i := snd (pty_write_resume so kld i w (ps ! i))])"
| Ioctl: "pty_step ps (fst (snd (snd (pty_ioctl_file cl f request a ps))))"
| Set_termios: "pty_step ps (snd (pty_set_termios_file f tp act ps))"

lemmas pty_ops_ok =
  pty_open_ok pty_close_ok pty_fileread_ok pty_read_resume_ok pty_filewrite_ok pty_ioctl_ok pty_set_termios_ok
  ptys_ok_upd [OF _ pty_write_resume_ok]

lemma pty_step_ok: "pty_step ps ps' \<Longrightarrow> ptys_ok ps \<Longrightarrow> ptys_ok ps'"
  by (induction rule: pty_step.induct) (simp_all add: pty_ops_ok)

lemma ptyinit_ok: "ptys_ok ptyinit"
  by (simp add: ptys_ok_def ptyinit_def list_all_length pair_ok_zero)

text \<open>
  Claim C28. Whatever processes open, close, read, write and set in any order, with sleeping readers and writers resuming at any time, no ring of a
  pseudo terminal ever holds more than its 512 bytes, although its counters wrap, and no line being typed outgrows its buffer.
\<close>

theorem pty_reachable_ok: "pty_step\<^sup>*\<^sup>* ptyinit ps \<Longrightarrow> ptys_ok ps"
  by (induction rule: rtranclp_induct) (simp_all add: ptyinit_ok pty_step_ok)

theorem pty_reachable_ok_witness:
  "pty_step\<^sup>*\<^sup>* ptyinit (ptyinit[0 := pty_pair_init_defaults]) \<and> ptys_ok (ptyinit[0 := pty_pair_init_defaults])"
proof -
  have "first_index (\<lambda>pp. \<not> allocated pp) ptyinit = Some 0"
    by (rule first_index_SomeI) (simp_all add: ptyinit_def NPTY_def pty_zero_def)
  then have "snd (snd (pty_open so f 0 ptyinit)) = ptyinit[0 := pty_pair_init_defaults]" for so f
    by (simp add: pty_open_def PTY_MINOR_PTMX_def)
  then have "pty_step\<^sup>*\<^sup>* ptyinit (ptyinit[0 := pty_pair_init_defaults])"
    using pty_step.Open [of ptyinit "\<lambda>_ _. False" "\<lparr>on_ptydev = True, pty_side = 0, pty_index = 0\<rparr>" 0] by (simp add: r_into_rtranclp)
  then show ?thesis using pty_reachable_ok by blast
qed

subsection \<open>Typing on a terminal with its first settings\<close>

definition plain :: "u8 \<Rightarrow> bool" where
  "plain c \<longleftrightarrow> c \<notin> set [0, 3, 4, 10, 13, 18, 21, 23, 26, 28, 127]"

lemma pty_cc [simp]:
  "c_cc pty_termios ! VINTR = 3" "c_cc pty_termios ! VQUIT = 28" "c_cc pty_termios ! VERASE = 127" "c_cc pty_termios ! VKILL = 21"
  "c_cc pty_termios ! VEOF = 4" "c_cc pty_termios ! VSUSP = 26" "c_cc pty_termios ! VEOL = 0" "c_cc pty_termios ! VREPRINT = 18"
  "c_cc pty_termios ! VWERASE = 23" "c_cc pty_termios ! VEOL2 = 0"
  by code_simp+

lemma pty_flags [simp]:
  "flag_on (c_iflag pty_termios) IGNCR = False" "flag_on (c_iflag pty_termios) ICRNL = True" "flag_on (c_iflag pty_termios) INLCR = False"
  "flag_on (c_iflag pty_termios) IXON = False" "flag_on (c_lflag pty_termios) ICANON = True" "flag_on (c_lflag pty_termios) ISIG = True"
  "flag_on (c_lflag pty_termios) ECHO = True" "flag_on (c_lflag pty_termios) IEXTEN = True" "flag_on (c_lflag pty_termios) NOFLSH = False"
  by code_simp+

lemma key_plain: "plain c \<Longrightarrow> key_of pty_termios c = Text c False"
  by (simp add: plain_def key_of_def ld_translate_def is_cc_def ld_ends_line_def CR_def NL_def)

lemma key_return: "key_of pty_termios CR = Text NL True"
  by (simp add: key_of_def ld_translate_def is_cc_def ld_ends_line_def CR_def NL_def)

lemma edit_plain:
  "list_all plain l \<Longrightarrow> length (ed_line e) + length l \<le> TTY_LDISC_CANON_BUFSZ \<Longrightarrow>
   edit_all pty_termios l e = e\<lparr>ed_line := ed_line e @ l, ed_echo := ed_echo e @ l\<rparr>"
proof (induction l arbitrary: e)
  case (Cons c l)
  have "c \<noteq> NL" using Cons.prems(1) by (simp add: plain_def NL_def)
  with Cons.prems have "edit (c_lflag pty_termios) (key_of pty_termios c) e = e\<lparr>ed_line := ed_line e @ [c], ed_echo := ed_echo e @ [c]\<rparr>"
    by (simp add: key_plain)
  with Cons show ?case by (simp add: edit_all_def)
qed (simp add: edit_all_def)

lemma edit_line:
  assumes "list_all plain l" "length l < TTY_LDISC_CANON_BUFSZ" "ed_line e = []"
  shows "edit_all pty_termios (l @ [CR]) e = e\<lparr>ed_out := ed_out e @ l @ [NL], ed_echo := ed_echo e @ l @ [CR, NL]\<rparr>"
proof -
  have "edit_all pty_termios (l @ [CR]) e = edit (c_lflag pty_termios) (key_of pty_termios CR) (edit_all pty_termios l e)"
    by (simp add: edit_all_def)
  also have "\<dots> = e\<lparr>ed_out := ed_out e @ l @ [NL], ed_echo := ed_echo e @ l @ [CR, NL]\<rparr>"
    using assms by (simp add: edit_plain key_return)
  finally show ?thesis .
qed

text \<open>A terminal with its first settings and nothing in it.\<close>

definition pty_idle :: "pty_pair \<Rightarrow> bool" where
  "pty_idle pp \<longleftrightarrow>
     pair_ok pp \<and> allocated pp \<and> pty_tio pp = pty_termios \<and> line (ldisc pp) = [] \<and>
     chan_used (to_master pp) = 0 \<and> chan_used (to_slave pp) = 0"

definition master_of :: "nat \<Rightarrow> pty_file" where
  "master_of i = \<lparr>on_ptydev = True, pty_side = PTY_SIDE_MASTER, pty_index = int i\<rparr>"

definition slave_of :: "nat \<Rightarrow> pty_file" where
  "slave_of i = \<lparr>on_ptydev = True, pty_side = PTY_SIDE_SLAVE, pty_index = int i\<rparr>"

lemma side_simps [simp]:
  "pty_side (master_of i) = PTY_SIDE_MASTER" "pty_side (slave_of i) = PTY_SIDE_SLAVE"
  "pty_index (master_of i) = int i" "pty_index (slave_of i) = int i" "PTY_SIDE_SLAVE \<noteq> PTY_SIDE_MASTER" "PTY_SIDE_MASTER \<noteq> PTY_SIDE_SLAVE"
  by (simp_all add: master_of_def slave_of_def PTY_SIDE_MASTER_def PTY_SIDE_SLAVE_def)

lemma lookup_of: "i < NPTY \<Longrightarrow> pty_lookup_file (master_of i) = Some i \<and> pty_lookup_file (slave_of i) = Some i"
  by (simp add: pty_lookup_file_def master_of_def slave_of_def NPTY_def)

lemma in_background_master [simp]: "\<not> in_background (master_of i) cl pp"
  by (simp add: in_background_def)

text \<open>What a master's write does to the pair, when the editor's result fits and it raises no signal.\<close>

lemma master_write_chunk:
  assumes "pty_idle pp" and "edit_all pty_termios src (editor_of (ldisc pp)) = e" "ed_sig e = 0"
  shows "\<exists>ld. ld_ok ld \<and> line ld = ed_line e \<and>
    pty_write_chunk_locked so kld i PTY_SIDE_MASTER src (int (length src)) pp =
      (let (r, pp') = write_data so kld i (take 1024 (ed_out e)) 0 (take 1024 (ed_echo e)) (int (length src)) (pp\<lparr>ldisc := ld\<rparr>) in (r, pp', []))"
proof -
  have ok: "ld_ok (ldisc pp)" "pty_tio pp = pty_termios" using assms(1) by (simp_all add: pty_idle_def pair_ok_def)
  obtain s where s: "tty_ldisc_process_input pty_termios (ldisc pp) src (int (length src)) 1024 1024 = Some s" "sim 1024 1024 s e"
    using process_input_sim [OF ok(1), of "int (length src)" 1024 1024 pty_termios src] assms(2) by auto
  show ?thesis
    using s(2) assms(3)
    by (intro exI [of _ "io_ld s"])
      (simp add: pty_write_chunk_locked_def TTY_LDISC_SCRATCH_BUFSZ_def ok s(1) sim_def pty_signal_input_def)
qed

lemma write_echo_fits:
  assumes "chan_inv (to_master pp)" "chan_room (length es) (to_master pp)"
  shows "write_echo so kld i es 0 len pp = (Returned len, pp\<lparr>to_master := chan_put es (to_master pp)\<rparr>)"
  using assms by (cases "es = []") (simp_all add: write_echo_def write_fits)

lemma write_data_fits:
  assumes "chan_inv (to_slave pp)" "chan_room (length ds) (to_slave pp)" "chan_inv (to_master pp)" "chan_room (length es) (to_master pp)"
  shows "write_data so kld i ds 0 es len pp =
    (Returned len, pp\<lparr>to_slave := chan_put ds (to_slave pp), to_master := chan_put es (to_master pp)\<rparr>)"
  using assms by (cases "ds = []") (simp_all add: write_data_def write_echo_fits write_fits Let_def)

lemma read_chan:
  "chan_inv ch \<Longrightarrow> 0 < chan_used ch \<Longrightarrow> int (chan_used ch) \<le> n \<Longrightarrow>
   pty_chan_read_peer_locked po kld n ch = (Read_done (int (chan_used ch)) (chan_content ch), chan_discard (chan_used ch) ch)"
  by (simp add: pty_chan_read_peer_locked_def read_takes Let_def min_absorb2 le_nat_iff)

lemma discard_all:
  "chan_inv ch \<Longrightarrow> chan_inv (chan_discard (chan_used ch) ch) \<and> chan_used (chan_discard (chan_used ch) ch) = 0"
  using chan_take_content [of ch "chan_used ch"] length_chan_content [of "chan_discard (chan_used ch) ch"] by (simp add: chan_has_def)

lemma fileread_master:
  assumes "i < NPTY" "allocated (ps ! i)" "chan_inv (to_master (ps ! i))" "0 < chan_used (to_master (ps ! i))"
    "int (chan_used (to_master (ps ! i))) \<le> n"
  shows "pty_fileread so cl (master_of i) n ps =
    (Read_done (int (chan_used (to_master (ps ! i)))) (chan_content (to_master (ps ! i))),
     ps[i := (ps ! i)\<lparr>to_master := chan_discard (chan_used (to_master (ps ! i))) (to_master (ps ! i))\<rparr>], [])"
  using assms by (simp add: pty_fileread_def lookup_of Let_def chan_empty_iff read_chan)

lemma fileread_slave:
  assumes "i < NPTY" "allocated (ps ! i)" "chan_inv (to_slave (ps ! i))" "0 < chan_used (to_slave (ps ! i))"
    "int (chan_used (to_slave (ps ! i))) \<le> n" "\<not> in_background (slave_of i) cl (ps ! i)"
  shows "pty_fileread so cl (slave_of i) n ps =
    (Read_done (int (chan_used (to_slave (ps ! i)))) (chan_content (to_slave (ps ! i))),
     ps[i := (ps ! i)\<lparr>to_slave := chan_discard (chan_used (to_slave (ps ! i))) (to_slave (ps ! i))\<rparr>], [])"
  using assms by (simp add: pty_fileread_def lookup_of Let_def chan_empty_iff read_chan)

lemma filewrite_master:
  "i < NPTY \<Longrightarrow> allocated (ps ! i) \<Longrightarrow>
   pty_filewrite so cl (master_of i) src n ps =
     (let (r, pp, sigs) = pty_write_chunk_locked so (pc_killed cl) i PTY_SIDE_MASTER src n (ps ! i) in (r, ps[i := pp], sigs))"
  by (simp add: pty_filewrite_def lookup_of Let_def)

lemma chan_content_empty: "chan_used ch = 0 \<Longrightarrow> chan_content ch = []"
  by (simp add: chan_content_def)

lemma put_on_empty:
  "chan_inv ch \<Longrightarrow> chan_used ch = 0 \<Longrightarrow> length bs \<le> PTY_BUF \<Longrightarrow>
   chan_inv (chan_put bs ch) \<and> chan_content (chan_put bs ch) = bs \<and> chan_used (chan_put bs ch) = length bs"
  by (simp add: chan_put_content chan_used_put chan_room_def chan_content_empty)

text \<open>The pair after a line was typed, after the program read it, and after the echo was read.\<close>

lemma master_line:
  assumes "i < NPTY" "length ps = NPTY" and idle: "pty_idle (ps ! i)"
    and l: "list_all plain l" "length l \<le> 510"
  shows "\<exists>pp. pty_filewrite so cl (master_of i) (l @ [CR]) (int (length l) + 1) ps = (Returned (int (length l) + 1), ps[i := pp], []) \<and>
    pair_ok pp \<and> allocated pp \<and> pty_tio pp = pty_termios \<and> line (ldisc pp) = [] \<and>
    chan_content (to_slave pp) = l @ [NL] \<and> chan_content (to_master pp) = l @ [CR, NL] \<and>
    (\<forall>f c. in_background f c pp = in_background f c (ps ! i))"
proof -
  let ?pp = "ps ! i" and ?e = "editor_of (ldisc (ps ! i))"
  have i: "allocated ?pp" "chan_inv (to_slave ?pp)" "chan_used (to_slave ?pp) = 0" "chan_inv (to_master ?pp)" "chan_used (to_master ?pp) = 0"
    "ed_line ?e = []" "ed_out ?e = []" "ed_echo ?e = []" "ed_sig ?e = 0" "pty_tio ?pp = pty_termios"
    using idle by (simp_all add: pty_idle_def pair_ok_def editor_of_def)
  let ?e' = "?e\<lparr>ed_out := l @ [NL], ed_echo := l @ [CR, NL]\<rparr>"
  have e: "edit_all pty_termios (l @ [CR]) ?e = ?e'"
    using edit_line [OF l(1) _ i(6)] l(2) i(7,8) by (simp add: TTY_LDISC_CANON_BUFSZ_def)
  have "ed_sig ?e' = 0" using i(9) by simp
  from master_write_chunk [OF idle e this, of so "pc_killed cl" i]
  obtain ld where ld: "ld_ok ld" "line ld = []"
    "pty_write_chunk_locked so (pc_killed cl) i PTY_SIDE_MASTER (l @ [CR]) (int (length l) + 1) ?pp =
      (let (r, pp') = write_data so (pc_killed cl) i (l @ [NL]) 0 (l @ [CR, NL]) (int (length l) + 1) (?pp\<lparr>ldisc := ld\<rparr>) in (r, pp', []))"
    using l(2) i(6) by (auto simp: add_ac)
  let ?q = "?pp\<lparr>ldisc := ld, to_slave := chan_put (l @ [NL]) (to_slave ?pp), to_master := chan_put (l @ [CR, NL]) (to_master ?pp)\<rparr>"
  have "write_data so (pc_killed cl) i (l @ [NL]) 0 (l @ [CR, NL]) (int (length l) + 1) (?pp\<lparr>ldisc := ld\<rparr>) = (Returned (int (length l) + 1), ?q)"
    using i l(2) by (subst write_data_fits) (simp_all add: chan_room_def PTY_BUF_def)
  then have w: "pty_filewrite so cl (master_of i) (l @ [CR]) (int (length l) + 1) ps = (Returned (int (length l) + 1), ps[i := ?q], [])"
    using assms(1) i(1) by (simp add: filewrite_master ld(3))
  have p: "chan_inv (chan_put (l @ [NL]) (to_slave ?pp))" "chan_content (chan_put (l @ [NL]) (to_slave ?pp)) = l @ [NL]"
    "chan_inv (chan_put (l @ [CR, NL]) (to_master ?pp))" "chan_content (chan_put (l @ [CR, NL]) (to_master ?pp)) = l @ [CR, NL]"
    using put_on_empty [of "to_slave ?pp" "l @ [NL]"] put_on_empty [of "to_master ?pp" "l @ [CR, NL]"] i l(2) by (simp_all add: PTY_BUF_def)
  show ?thesis
    using w p ld(1,2) i by (intro exI [of _ ?q]) (simp add: pair_ok_def in_background_def)
qed

text \<open>
  Claim C15. On a terminal with its first settings and nothing in it, a line of up to 510 characters that are no control characters, typed on the
  master side and ended with return, is what the program then reads, with a newline; the master reads the same line back as echo, with return
  and newline; and the terminal is as before, ready for the next line.
\<close>

theorem pty_line_roundtrip:
  assumes "ptys_ok ps" "i < NPTY" "pty_idle (ps ! i)" "list_all plain l" "length l \<le> 510"
    "int (length l) + 2 \<le> n" "\<not> in_background (slave_of i) cl (ps ! i)"
  shows "\<exists>ps1 ps2 ps3.
    pty_filewrite so cm (master_of i) (l @ [CR]) (int (length l) + 1) ps = (Returned (int (length l) + 1), ps1, []) \<and>
    pty_fileread so cl (slave_of i) n ps1 = (Read_done (int (length l) + 1) (l @ [NL]), ps2, []) \<and>
    pty_fileread so cm (master_of i) n ps2 = (Read_done (int (length l) + 2) (l @ [CR, NL]), ps3, []) \<and>
    pty_idle (ps3 ! i)"
proof -
  have len: "length ps = NPTY" using assms(1) by (simp add: ptys_ok_def)
  obtain pp where w: "pty_filewrite so cm (master_of i) (l @ [CR]) (int (length l) + 1) ps = (Returned (int (length l) + 1), ps[i := pp], [])"
    and pp: "pair_ok pp" "allocated pp" "pty_tio pp = pty_termios" "line (ldisc pp) = []"
      "chan_content (to_slave pp) = l @ [NL]" "chan_content (to_master pp) = l @ [CR, NL]"
      "\<forall>f c. in_background f c pp = in_background f c (ps ! i)"
    using master_line [OF assms(2) len assms(3-5), of so cm] by blast
  have u: "chan_used (to_slave pp) = length l + 1" "chan_used (to_master pp) = length l + 2"
    using arg_cong [OF pp(5), of length] arg_cong [OF pp(6), of length] by simp_all
  have inv: "chan_inv (to_slave pp)" "chan_inv (to_master pp)" "ld_ok (ldisc pp)" using pp(1) by (simp_all add: pair_ok_def)
  let ?p2 = "pp\<lparr>to_slave := chan_discard (chan_used (to_slave pp)) (to_slave pp)\<rparr>"
  let ?p3 = "?p2\<lparr>to_master := chan_discard (chan_used (to_master pp)) (to_master pp)\<rparr>"
  have r1: "pty_fileread so cl (slave_of i) n (ps[i := pp]) = (Read_done (int (length l) + 1) (l @ [NL]), ps[i := ?p2], [])"
    using assms pp inv u len by (subst fileread_slave) (simp_all add: add_ac)
  have r2: "pty_fileread so cm (master_of i) n (ps[i := ?p2]) = (Read_done (int (length l) + 2) (l @ [CR, NL]), ps[i := ?p3], [])"
    using assms pp inv u len by (subst fileread_master) (simp_all add: add_ac)
  have "pty_idle ?p3"
    using discard_all [OF inv(1)] discard_all [OF inv(2)] inv pp by (simp add: pty_idle_def pair_ok_def)
  then have "pty_idle (ps[i := ?p3] ! i)" using assms(2) len by simp
  with w r1 r2 show ?thesis by blast
qed

definition one_pty :: ptys where "one_pty = ptyinit[0 := pty_pair_init_defaults]"

lemma one_pty_ok: "ptys_ok one_pty"
  by (simp add: one_pty_def ptys_ok_upd ptyinit_ok pair_ok_new)

lemma one_pty_0 [simp]: "one_pty ! 0 = pty_pair_init_defaults" "0 < NPTY"
  by (simp_all add: one_pty_def ptyinit_def NPTY_def)

lemma new_idle: "pty_idle pty_pair_init_defaults" "\<not> in_background f cl pty_pair_init_defaults"
  using pair_ok_new
  by (simp_all add: pty_idle_def in_background_def)
    (simp_all add: pty_pair_init_defaults_def pty_zero_def)

theorem pty_line_roundtrip_witness:
  "\<exists>ps1 ps2 ps3.
    pty_filewrite (\<lambda>_ _. True) \<lparr>pc_killed = False, pc_sid = 1, pc_pgid = 1\<rparr> (master_of 0) [108, 115, 13] 3 one_pty = (Returned 3, ps1, []) \<and>
    pty_fileread (\<lambda>_ _. True) \<lparr>pc_killed = False, pc_sid = 2, pc_pgid = 2\<rparr> (slave_of 0) 4096 ps1 = (Read_done 3 [108, 115, 10], ps2, []) \<and>
    pty_fileread (\<lambda>_ _. True) \<lparr>pc_killed = False, pc_sid = 1, pc_pgid = 1\<rparr> (master_of 0) 4096 ps2 = (Read_done 4 [108, 115, 13, 10], ps3, []) \<and>
    pty_idle (ps3 ! 0)"
  using pty_line_roundtrip [OF one_pty_ok, of 0 "[108, 115]" 4096 "\<lparr>pc_killed = False, pc_sid = 2, pc_pgid = 2\<rparr>"
      "\<lambda>_ _. True" "\<lparr>pc_killed = False, pc_sid = 1, pc_pgid = 1\<rparr>"]
  by (simp add: new_idle plain_def CR_def NL_def)

subsection \<open>Two flaws\<close>

text \<open>A master that types more than the master's ring holds, with nothing for the program yet.\<close>

lemma write_echo_sleeps:
  assumes "chan_inv (to_master pp)" "\<not> chan_room (length es) (to_master pp)" "so (int i) PTY_SIDE_MASTER"
  shows "write_echo so False i es put len pp =
    (let r = PTY_BUF - chan_used (to_master pp)
     in (In_echo (drop r es) (put + r) len, pp\<lparr>to_master := chan_put (take r es) (to_master pp)\<rparr>))"
proof -
  have "es \<noteq> []" using assms by (auto simp: chan_room_def chan_inv_def)
  then show ?thesis using assms by (simp add: write_echo_def write_sleeps Let_def)
qed

lemma poll_master:
  assumes "i < NPTY" "allocated (ps ! i)" "chan_used (to_slave (ps ! i)) = 0"
  shows "fst (snd (pty_poll_events so (master_of i) ps))"
proof -
  have "ch_r (to_slave (ps ! i)) = ch_w (to_slave (ps ! i))" using assms(3) by (simp add: chan_empty_iff)
  then show ?thesis using assms by (simp add: pty_poll_events_def lookup_of Let_def PTY_BUF_def)
qed

text \<open>
  Claim C26. The writer on the master side waits for itself. When more than 512 plain characters are written to the master of an idle terminal, the
  poll before the call says that the master is writable, yet the call sleeps on the ring that only the master's own reader empties: as
  long as nobody reads the master, it wakes up to the same state, whatever the slave side does, and also when no process holds the slave.
\<close>

theorem pty_echo_blocks:
  assumes "ptys_ok ps" "i < NPTY" "pty_idle (ps ! i)" "list_all plain l" "512 < length l" "length l \<le> 4096"
    "\<not> pc_killed cm" "so (int i) PTY_SIDE_MASTER"
  shows "\<exists>w pp. pty_filewrite so cm (master_of i) l (int (length l)) ps = (w, ps[i := pp], []) \<and>
    fst (snd (pty_poll_events so (master_of i) ps)) \<and>
    w = In_echo (drop 512 (take 1024 l)) 512 (int (length l)) \<and>
    (\<forall>so' ch. so' (int i) PTY_SIDE_MASTER \<longrightarrow>
       pty_write_resume so' False i w (pp\<lparr>to_slave := ch\<rparr>) = (w, pp\<lparr>to_slave := ch\<rparr>))"
proof -
  let ?pp = "ps ! i" and ?e = "editor_of (ldisc (ps ! i))"
  have i: "allocated ?pp" "chan_inv (to_slave ?pp)" "chan_used (to_slave ?pp) = 0" "chan_inv (to_master ?pp)" "chan_used (to_master ?pp) = 0"
    "ed_line ?e = []" "ed_out ?e = []" "ed_echo ?e = []" "ed_sig ?e = 0"
    using assms(3) by (simp_all add: pty_idle_def pair_ok_def editor_of_def)
  have e: "edit_all pty_termios l ?e = ?e\<lparr>ed_line := l, ed_echo := l\<rparr>"
    using edit_plain [OF assms(4), of ?e] assms(6) i by (simp add: TTY_LDISC_CANON_BUFSZ_def)
  have "ed_sig (?e\<lparr>ed_line := l, ed_echo := l\<rparr>) = 0" using i by simp
  from master_write_chunk [OF assms(3) e this, of so False i] i(7)
  obtain ld where ld: "pty_write_chunk_locked so False i PTY_SIDE_MASTER l (int (length l)) ?pp =
      (let (r, pp') = write_echo so False i (take 1024 l) 0 (int (length l)) (?pp\<lparr>ldisc := ld\<rparr>) in (r, pp', []))"
    by (auto simp: write_data_def)
  let ?w = "In_echo (drop 512 (take 1024 l)) 512 (int (length l))"
  let ?q = "?pp\<lparr>ldisc := ld, to_master := chan_put (take 512 l) (to_master ?pp)\<rparr>"
  have "write_echo so False i (take 1024 l) 0 (int (length l)) (?pp\<lparr>ldisc := ld\<rparr>) = (?w, ?q)"
    using i assms(5,8) by (subst write_echo_sleeps) (simp_all add: chan_room_def PTY_BUF_def Let_def min_def)
  then have w: "pty_filewrite so cm (master_of i) l (int (length l)) ps = (?w, ps[i := ?q], [])"
    using assms(2,7) i(1) by (simp add: filewrite_master ld)
  have full: "chan_inv (to_master ?q)" "chan_used (to_master ?q) = 512"
    using put_on_empty [of "to_master ?pp" "take 512 l"] i assms(5) by (simp_all add: PTY_BUF_def)
  have "pty_write_resume so' False i ?w (?q\<lparr>to_slave := ch\<rparr>) = (?w, ?q\<lparr>to_slave := ch\<rparr>)"
    if "so' (int i) PTY_SIDE_MASTER" for so' ch
    using full that assms(5)
    by (simp del: pty_pair.update_convs take_drop drop_take)
      (subst write_echo_sleeps, simp_all add: chan_room_def PTY_BUF_def Let_def)
  moreover have "fst (snd (pty_poll_events so (master_of i) ps))" by (rule poll_master) (use assms(2) i in simp_all)
  ultimately show ?thesis using w by blast
qed

theorem pty_echo_blocks_witness:
  "\<exists>w pp. pty_filewrite (\<lambda>_ _. True) \<lparr>pc_killed = False, pc_sid = 1, pc_pgid = 1\<rparr> (master_of 0) (replicate 513 97) 513 one_pty = (w, one_pty[0 := pp], []) \<and>
    fst (snd (pty_poll_events (\<lambda>_ _. True) (master_of 0) one_pty)) \<and> w = In_echo [97] 512 513"
proof -
  have l: "list_all plain (replicate 513 97)" by (simp add: list_all_length plain_def)
  have "drop 512 (take 1024 (replicate 513 (97 :: u8))) = [97]" by simp
  then show ?thesis
    using pty_echo_blocks [OF one_pty_ok, of 0 "replicate 513 97" "\<lparr>pc_killed = False, pc_sid = 1, pc_pgid = 1\<rparr>" "\<lambda>_ _. True"]
    by (auto simp: new_idle l)
qed

text \<open>A slave that writes more than the driver's scratch buffer holds.\<close>

lemma write_out_sleeps:
  assumes "chan_inv (to_master pp)" "\<not> chan_room (length ds) (to_master pp)" "so (int i) PTY_SIDE_MASTER"
  shows "write_out so False i ds put len pp =
    (let r = PTY_BUF - chan_used (to_master pp)
     in (In_out (drop r ds) (put + r) len, pp\<lparr>to_master := chan_put (take r ds) (to_master pp)\<rparr>))"
proof -
  have "ds \<noteq> []" using assms by (auto simp: chan_room_def chan_inv_def)
  then show ?thesis using assms by (simp add: write_out_def write_sleeps Let_def)
qed

lemma write_out_fits:
  assumes "chan_inv (to_master pp)" "chan_room (length ds) (to_master pp)"
  shows "write_out so kld i ds put len pp = (Returned len, pp\<lparr>to_master := chan_put ds (to_master pp)\<rparr>)"
  using assms by (cases ds) (simp_all add: write_out_def write_fits del: pty_chan_write_peer_locked.simps chan_put_Cons(2))

lemma slave_write_raw:
  assumes "i < NPTY" "allocated (ps ! i)" "\<not> flag_on (c_oflag (pty_tio (ps ! i))) OPOST" "chan_inv (to_master (ps ! i))"
    "chan_used (to_master (ps ! i)) = 0" "1024 < length bs" "\<not> pc_killed cs" "so (int i) PTY_SIDE_MASTER"
    "\<not> in_background (slave_of i) cs (ps ! i)"
  shows "\<exists>ld. pty_filewrite so cs (slave_of i) bs (int (length bs)) ps =
    (In_out (take 512 (drop 512 bs)) 512 (int (length bs)),
     ps[i := (ps ! i)\<lparr>ldisc := ld, to_master := chan_put (take 512 bs) (to_master (ps ! i))\<rparr>], [])"
proof -
  let ?pp = "ps ! i"
  obtain ld where ld: "tty_ldisc_process_output (pty_tio ?pp) (ldisc ?pp) bs (int (length bs)) 1024 = Some (take 1024 bs, ld)"
    using process_output_raw [OF assms(3), of 1024 "ldisc ?pp" bs] by auto
  have "write_out so False i (take 1024 bs) 0 (int (length bs)) (?pp\<lparr>ldisc := ld\<rparr>) =
      (In_out (take 512 (drop 512 bs)) 512 (int (length bs)), ?pp\<lparr>ldisc := ld, to_master := chan_put (take 512 bs) (to_master ?pp)\<rparr>)"
    using assms by (subst write_out_sleeps) (simp_all add: chan_room_def PTY_BUF_def Let_def drop_take)
  then show ?thesis using assms
    by (intro exI [of _ ld])
      (simp add: pty_filewrite_def lookup_of Let_def pty_write_chunk_locked_def TTY_LDISC_SCRATCH_BUFSZ_def ld)
qed

lemma fileread_master_sleeps:
  assumes "i < NPTY" "length ps = NPTY" "allocated (ps ! i)" "chan_used (to_master (ps ! i)) = 0" "so (int i) PTY_SIDE_SLAVE" "\<not> pc_killed cl" "0 < n"
  shows "fst (pty_fileread so cl (master_of i) n ps) = Read_sleep"
  using assms
  by (simp add: pty_fileread_def lookup_of Let_def pty_chan_read_peer_locked_def read_empty)

text \<open>
  Claim C25. A write of more than 1024 bytes on the slave side loses the rest. The program's bytes are passed on unprocessed here and the
  master reads all there is, twice: it gets the first 1024 bytes, the write returns the full length as written, and the next read finds
  nothing and sleeps.
\<close>

theorem pty_write_truncates:
  assumes "ptys_ok ps" "i < NPTY" "allocated (ps ! i)" "\<not> flag_on (c_oflag (pty_tio (ps ! i))) OPOST"
    "chan_used (to_master (ps ! i)) = 0" "1024 < length bs" "\<not> pc_killed cs" "\<not> pc_killed cm"
    "so (int i) PTY_SIDE_MASTER" "so (int i) PTY_SIDE_SLAVE" "\<not> in_background (slave_of i) cs (ps ! i)" "512 \<le> n"
  shows "\<exists>w ps1 ps2 pp ps3.
    pty_filewrite so cs (slave_of i) bs (int (length bs)) ps = (w, ps1, []) \<and>
    pty_fileread so cm (master_of i) n ps1 = (Read_done 512 (take 512 bs), ps2, []) \<and>
    pty_write_resume so False i w (ps2 ! i) = (Returned (int (length bs)), pp) \<and>
    pty_fileread so cm (master_of i) n (ps2[i := pp]) = (Read_done 512 (take 512 (drop 512 bs)), ps3, []) \<and>
    fst (pty_fileread so cm (master_of i) n ps3) = Read_sleep"
proof -
  let ?pp = "ps ! i" and ?b1 = "take 512 bs" and ?b2 = "take 512 (drop 512 bs)"
  have len: "length ps = NPTY" using assms(1) by (simp add: ptys_ok_def)
  have inv: "chan_inv (to_master ?pp)" using ptys_ok_nth [OF assms(1,2)] by (simp add: pair_ok_def)
  obtain ld where w: "pty_filewrite so cs (slave_of i) bs (int (length bs)) ps =
      (In_out ?b2 512 (int (length bs)), ps[i := ?pp\<lparr>ldisc := ld, to_master := chan_put ?b1 (to_master ?pp)\<rparr>], [])"
    using slave_write_raw [OF assms(2-4) inv assms(5-7) _ assms(11)] assms(9) by blast
  let ?c1 = "chan_put ?b1 (to_master ?pp)"
  have c1: "chan_inv ?c1" "chan_content ?c1 = ?b1" "chan_used ?c1 = 512"
    using put_on_empty [OF inv assms(5), of ?b1] assms(6) by (simp_all add: PTY_BUF_def)
  let ?d1 = "chan_discard 512 ?c1"
  have d1: "chan_inv ?d1" "chan_used ?d1 = 0" using discard_all [OF c1(1)] c1(3) by simp_all
  let ?p2 = "?pp\<lparr>ldisc := ld, to_master := ?d1\<rparr>"
  have r1: "pty_fileread so cm (master_of i) n (ps[i := ?pp\<lparr>ldisc := ld, to_master := ?c1\<rparr>]) = (Read_done 512 ?b1, ps[i := ?p2], [])"
    using assms c1 len by (subst fileread_master) simp_all
  let ?c2 = "chan_put ?b2 ?d1"
  have c2: "chan_inv ?c2" "chan_content ?c2 = ?b2" "chan_used ?c2 = 512"
    using put_on_empty [OF d1, of ?b2] assms(6) by (simp_all add: PTY_BUF_def)
  have rs: "pty_write_resume so False i (In_out ?b2 512 (int (length bs))) (ps[i := ?p2] ! i) = (Returned (int (length bs)), ?p2\<lparr>to_master := ?c2\<rparr>)"
    using d1 assms len by (simp add: write_out_fits chan_room_def PTY_BUF_def)
  let ?d2 = "chan_discard 512 ?c2"
  have d2: "chan_used ?d2 = 0" using discard_all [OF c2(1)] c2(3) by simp
  have r2: "pty_fileread so cm (master_of i) n (ps[i := ?p2, i := ?p2\<lparr>to_master := ?c2\<rparr>]) =
      (Read_done 512 ?b2, ps[i := ?p2\<lparr>to_master := ?d2\<rparr>], [])"
    using assms c2 len by (subst fileread_master) simp_all
  have "fst (pty_fileread so cm (master_of i) n (ps[i := ?p2\<lparr>to_master := ?d2\<rparr>])) = Read_sleep"
    by (rule fileread_master_sleeps) (use assms len d2 in simp_all)
  with w r1 rs r2 show ?thesis by blast
qed

definition raw_pty :: ptys where
  "raw_pty = ptyinit[0 := pty_pair_init_defaults\<lparr>pty_tio := pty_termios\<lparr>c_oflag := 0\<rparr>\<rparr>]"

theorem pty_write_truncates_witness:
  "\<exists>w ps1 ps2 pp ps3.
    pty_filewrite (\<lambda>_ _. True) \<lparr>pc_killed = False, pc_sid = 2, pc_pgid = 2\<rparr> (slave_of 0) (replicate 2000 97) 2000 raw_pty = (w, ps1, []) \<and>
    pty_fileread (\<lambda>_ _. True) \<lparr>pc_killed = False, pc_sid = 1, pc_pgid = 1\<rparr> (master_of 0) 4096 ps1 = (Read_done 512 (replicate 512 97), ps2, []) \<and>
    pty_write_resume (\<lambda>_ _. True) False 0 w (ps2 ! 0) = (Returned 2000, pp) \<and>
    pty_fileread (\<lambda>_ _. True) \<lparr>pc_killed = False, pc_sid = 1, pc_pgid = 1\<rparr> (master_of 0) 4096 (ps2[0 := pp]) = (Read_done 512 (replicate 512 97), ps3, []) \<and>
    fst (pty_fileread (\<lambda>_ _. True) \<lparr>pc_killed = False, pc_sid = 1, pc_pgid = 1\<rparr> (master_of 0) 4096 ps3) = Read_sleep"
proof -
  have "pair_ok (pty_pair_init_defaults\<lparr>pty_tio := pty_termios\<lparr>c_oflag := 0\<rparr>\<rparr>)" using pair_ok_new by (simp add: pair_ok_def)
  then have ok: "ptys_ok raw_pty" by (simp add: raw_pty_def ptys_ok_upd ptyinit_ok)
  have p: "raw_pty ! 0 = pty_pair_init_defaults\<lparr>pty_tio := pty_termios\<lparr>c_oflag := 0\<rparr>\<rparr>" by (simp add: raw_pty_def ptyinit_def NPTY_def)
  have "allocated (raw_pty ! 0)" "\<not> flag_on (c_oflag (pty_tio (raw_pty ! 0))) OPOST" "chan_used (to_master (raw_pty ! 0)) = 0"
    "\<not> in_background (slave_of 0) \<lparr>pc_killed = False, pc_sid = 2, pc_pgid = 2\<rparr> (raw_pty ! 0)"
    by (simp_all add: p flag_on_def in_background_def) (simp_all add: pty_pair_init_defaults_def pty_zero_def)
  then show ?thesis
    using pty_write_truncates [OF ok, of 0 "replicate 2000 97" "\<lparr>pc_killed = False, pc_sid = 2, pc_pgid = 2\<rparr>"
        "\<lparr>pc_killed = False, pc_sid = 1, pc_pgid = 1\<rparr>" "\<lambda>_ _. True" 4096]
    by simp
qed

end
