(* ===== verification/Tcp.thy ===== *)
theory Tcp
  imports Inet
begin

text \<open>
  TCP (\<open>kernel/net/tcp.c\<close>) and the parts of \<open>kernel/net/socket.c\<close> that open, close and count references of a stream socket. The sockets are
  a table and a pointer to one is its index; a socket's fields are those that a connection uses, so listen queues, passed descriptors
  and Unix peers are left out. Each critical section on the socket is a function of its own (with the suffix \<open>_locked\<close>), and what follows it, sending through
  \<open>ip_output\<close> or dropping a reference, is in the routine around it, which is one step. Wakeups are left out: sleepers test their
  condition again. The clock is the network state's; the outcome of the page allocator is an argument.
\<close>

definition NSOCKET :: nat where "NSOCKET = 64"
definition AF_INET :: u32 where "AF_INET = 2"
definition SOCK_STREAM :: u32 where "SOCK_STREAM = 1"
definition TCP_FLAG_FIN :: u8 where "TCP_FLAG_FIN = 0x01"
definition TCP_FLAG_SYN :: u8 where "TCP_FLAG_SYN = 0x02"
definition TCP_FLAG_RST :: u8 where "TCP_FLAG_RST = 0x04"
definition TCP_FLAG_PSH :: u8 where "TCP_FLAG_PSH = 0x08"
definition TCP_FLAG_ACK :: u8 where "TCP_FLAG_ACK = 0x10"
definition TCP_HDR_LEN :: nat where "TCP_HDR_LEN = 20"
definition TCP_CONNECT_TIMEOUT_TICKS :: u32 where "TCP_CONNECT_TIMEOUT_TICKS = 300"
definition TCP_MAX_SEGMENT_DATA :: nat where "TCP_MAX_SEGMENT_DATA = MBUF_SIZE - TCP_HDR_LEN - 40"
definition TCP_RTO_INIT :: u32 where "TCP_RTO_INIT = 100"
definition TCP_RTO_MIN :: u32 where "TCP_RTO_MIN = 20"
definition TCP_RTO_MAX :: u32 where "TCP_RTO_MAX = 6000"
definition TCP_TIME_WAIT_TICKS :: u32 where "TCP_TIME_WAIT_TICKS = 12000"
definition TCP_MAX_RETRANSMIT :: u32 where "TCP_MAX_RETRANSMIT = 5"

datatype sock_state = SOCK_CLOSED | SOCK_BOUND | SOCK_LISTEN | SOCK_CONNECT | SOCK_ESTAB

datatype tcp_state = TCPS_CLOSED | TCPS_LISTEN | TCPS_SYN_SENT | TCPS_SYN_RECEIVED | TCPS_ESTABLISHED
  | TCPS_FIN_WAIT_1 | TCPS_FIN_WAIT_2 | TCPS_CLOSE_WAIT | TCPS_LAST_ACK | TCPS_TIME_WAIT

record tcpcb =
  t_state :: tcp_state
  iss :: u32
  irs :: u32
  snd_una :: u32
  snd_nxt :: u32
  snd_wnd :: u32
  rcv_nxt :: u32
  rcv_wnd :: u32
  rto :: u32
  rtt_est :: u32
  retransmits :: u32
  last_send :: u32
  unacked_buf :: "bytes option"
  unacked_len :: u32
  unacked_seq :: u32
  fin_seq :: u32
  time_wait_start :: u32
  close_pending :: bool

text \<open>The receive buffer is a page, \<open>recv_len\<close> of its bytes are in use.\<close>

record socket =
  so_state :: sock_state
  so_type :: u32
  so_family :: u32
  local_addr :: sockaddr_in
  remote_addr :: sockaddr_in
  recv_buf :: "bytes option"
  recv_len :: u32
  recv_cap :: u32
  tcp :: tcpcb
  so_ref :: u32
  shut_rd :: bool
  shut_wr :: bool

record tsys =
  socks :: "socket list"
  tcp_iss :: u32
  next_ephemeral :: u16
  tnet :: net

definition in_tcp :: "(tcpcb \<Rightarrow> tcpcb) \<Rightarrow> socket \<Rightarrow> socket" where "in_tcp g s = s\<lparr>tcp := g (tcp s)\<rparr>"

definition set_sock :: "nat \<Rightarrow> socket \<Rightarrow> tsys \<Rightarrow> tsys" where "set_sock i s T = T\<lparr>socks := (socks T)[i := s]\<rparr>"

definition fl :: "u8 \<Rightarrow> u8 \<Rightarrow> bool" where "fl flags f \<longleftrightarrow> flags AND f \<noteq> 0"

subsection \<open>Checksum and segments\<close>

fun tcp_cksum_add_buf :: "u32 \<Rightarrow> bytes \<Rightarrow> u32" where
  "tcp_cksum_add_buf acc (a # b # bs) = tcp_cksum_add_buf (acc + (push_bit 8 (ucast a) OR ucast b)) bs"
| "tcp_cksum_add_buf acc [a] = acc + push_bit 8 (ucast a)"
| "tcp_cksum_add_buf acc [] = acc"

definition tcp_cksum_finalize :: "u32 \<Rightarrow> u16" where "tcp_cksum_finalize acc = ucast (NOT (fold_carry acc))"

definition tcp_checksum :: "u32 \<Rightarrow> u32 \<Rightarrow> bytes \<Rightarrow> u16" where
  "tcp_checksum src dst seg =
     tcp_cksum_finalize (tcp_cksum_add_buf
       (drop_bit 16 src + (src AND 0xffff) + drop_bit 16 dst + (dst AND 0xffff) + ucast NET_IP_TCP + ucast (of_nat (length seg) :: u16)) seg)"

definition tcp_recv_window_locked :: "socket \<Rightarrow> u16" where
  "tcp_recv_window_locked s =
     (if recv_cap s \<le> recv_len s then 0
      else let win = recv_cap s - recv_len s in ucast (if win > 0xffff then 0xffff else win))"

definition tcp_header :: "u16 \<Rightarrow> u16 \<Rightarrow> u32 \<Rightarrow> u32 \<Rightarrow> u8 \<Rightarrow> u16 \<Rightarrow> u16 \<Rightarrow> bytes" where
  "tcp_header sport dport seq ack flags win csum =
     be16 sport @ be16 dport @ be32 seq @ be32 ack @ [0x50, flags] @ be16 win @ be16 csum @ [0, 0]"

definition tcp_segment :: "sockaddr_in \<Rightarrow> sockaddr_in \<Rightarrow> u32 \<Rightarrow> u32 \<Rightarrow> u8 \<Rightarrow> u16 \<Rightarrow> bytes \<Rightarrow> bytes" where
  "tcp_segment src dst seq ack flags win payload =
     (let h = tcp_header (sin_port src) (sin_port dst) seq ack flags win in
      h (tcp_checksum (s_addr src) (s_addr dst) (h 0 @ payload)) @ payload)"

definition tcp_send_segment ::
    "outf \<Rightarrow> nat \<Rightarrow> sockaddr_in \<Rightarrow> sockaddr_in \<Rightarrow> u32 \<Rightarrow> u32 \<Rightarrow> u8 \<Rightarrow> u16 \<Rightarrow> bytes \<Rightarrow> tsys \<Rightarrow> (int \<times> tsys) kres" where
  "tcp_send_segment out ifp src dst seq ack flags win payload T =
     (if sin_port src = 0 \<or> sin_port dst = 0 then Ok (-1, T)
      else if length payload > MBUF_SIZE - TCP_HDR_LEN then Ok (-1, T)
      else kbind (ip_output out ifp NET_IP_TCP (s_addr src) (s_addr dst) (tcp_segment src dst seq ack flags win payload) (tnet T))
             (\<lambda>(r, n). Ok (r, T\<lparr>tnet := n\<rparr>)))"

text \<open>The same where the caller does not look at the result.\<close>

definition tcp_emit ::
    "outf \<Rightarrow> nat \<Rightarrow> sockaddr_in \<Rightarrow> sockaddr_in \<Rightarrow> u32 \<Rightarrow> u32 \<Rightarrow> u8 \<Rightarrow> u16 \<Rightarrow> bytes \<Rightarrow> tsys \<Rightarrow> tsys kres" where
  "tcp_emit out ifp src dst seq ack flags win payload T =
     kbind (tcp_send_segment out ifp src dst seq ack flags win payload T) (\<lambda>(r, T). Ok T)"

definition route_of :: "u32 \<Rightarrow> tsys \<Rightarrow> (nat \<times> u32) option" where
  "route_of dst T = (case route_lookup dst (tnet T) of Some (Some ifp, src, _) \<Rightarrow> Some (ifp, src) | _ \<Rightarrow> None)"

definition loopback_if :: "nat \<Rightarrow> tsys \<Rightarrow> bool" where
  "loopback_if ifp T \<longleftrightarrow> if_flags (ifp_of (tnet T) ifp) AND IFF_LOOPBACK \<noteq> 0"

definition tcp_send_ack :: "outf \<Rightarrow> nat \<Rightarrow> tsys \<Rightarrow> (int \<times> tsys) kres" where
  "tcp_send_ack out i T =
     (let s = socks T ! i in
      if so_type s \<noteq> SOCK_STREAM then Ok (-1, T)
      else if so_state s \<noteq> SOCK_ESTAB \<or>
          t_state (tcp s) \<notin> {TCPS_ESTABLISHED, TCPS_CLOSE_WAIT, TCPS_FIN_WAIT_1, TCPS_FIN_WAIT_2} \<or>
          sin_port (remote_addr s) = 0 then Ok (-1, T)
      else case route_of (s_addr (remote_addr s)) T of None \<Rightarrow> Ok (-1, T)
      | Some (ifp, route_src) \<Rightarrow>
          let src = (if s_addr (local_addr s) = 0 then (local_addr s)\<lparr>s_addr := route_src\<rparr> else local_addr s)
          in tcp_send_segment out ifp src (remote_addr s) (snd_nxt (tcp s)) (rcv_nxt (tcp s)) TCP_FLAG_ACK (tcp_recv_window_locked s) [] T)"

text \<open>\<open>a\<close> is not after \<open>b\<close> in the sequence space.\<close>

definition tcp_seq_leq :: "u32 \<Rightarrow> u32 \<Rightarrow> bool" where "tcp_seq_leq a b \<longleftrightarrow> sint (a - b) \<le> 0"

subsection \<open>References\<close>

text \<open>The round-trip fields of the control block are not among those that a reset clears.\<close>

definition socket_reset_locked :: "socket \<Rightarrow> socket" where
  "socket_reset_locked s =
     s\<lparr>so_state := SOCK_CLOSED, so_type := 0, so_family := 0, local_addr := \<lparr>sin_port = 0, s_addr = 0\<rparr>,
       remote_addr := \<lparr>sin_port = 0, s_addr = 0\<rparr>, recv_buf := None, recv_len := 0, recv_cap := 0,
       tcp := (tcp s)\<lparr>t_state := TCPS_CLOSED, iss := 0, snd_nxt := 0, snd_una := 0, snd_wnd := 0, irs := 0, rcv_nxt := 0, rcv_wnd := 0,
         close_pending := False, fin_seq := 0, time_wait_start := 0, unacked_buf := None, unacked_len := 0, unacked_seq := 0\<rparr>,
       shut_rd := False, shut_wr := False\<rparr>"

definition socket_deref_locked :: "socket \<Rightarrow> socket" where
  "socket_deref_locked s =
     (let s = (if so_ref s > 0 then s\<lparr>so_ref := so_ref s - 1\<rparr> else s)
      in if so_ref s = 0 then socket_reset_locked s else s)"

definition socket_deref :: "nat \<Rightarrow> tsys \<Rightarrow> tsys" where
  "socket_deref i T = set_sock i (socket_deref_locked (socks T ! i)) T"

definition socket_alloc_locked :: "tsys \<Rightarrow> nat option \<times> tsys" where
  "socket_alloc_locked T =
     (case first_index (\<lambda>s. so_ref s = 0) (socks T) of None \<Rightarrow> (None, T)
      | Some i \<Rightarrow> (Some i, set_sock i (socket_reset_locked ((socks T ! i)\<lparr>so_ref := 1\<rparr>)) T))"

definition closed_locked :: "socket \<Rightarrow> socket" where
  "closed_locked s = (in_tcp (\<lambda>t. t\<lparr>t_state := TCPS_CLOSED\<rparr>) s)\<lparr>so_state := SOCK_CLOSED\<rparr>"

text \<open>A connection that has ended gives up the reference of its teardown; the flag says whether there is one to drop.\<close>

definition take_pending :: "socket \<Rightarrow> bool \<times> socket" where
  "take_pending s =
     (close_pending (tcp s), if close_pending (tcp s) then in_tcp (\<lambda>t. t\<lparr>close_pending := False\<rparr>) s else s)"

subsection \<open>Closing\<close>

definition tcp_close_state :: "socket \<Rightarrow> bool \<times> socket" where
  "tcp_close_state s =
     (case t_state (tcp s) of
        TCPS_ESTABLISHED \<Rightarrow> (True, in_tcp (\<lambda>t. t\<lparr>fin_seq := snd_nxt t, snd_nxt := snd_nxt t + 1, t_state := TCPS_FIN_WAIT_1\<rparr>) s)
      | TCPS_CLOSE_WAIT \<Rightarrow> (True, in_tcp (\<lambda>t. t\<lparr>fin_seq := snd_nxt t, snd_nxt := snd_nxt t + 1, t_state := TCPS_LAST_ACK\<rparr>) s)
      | TCPS_SYN_SENT \<Rightarrow> (False, closed_locked s)
      | _ \<Rightarrow> (False, s))"

definition tcp_close_locked :: "u32 \<Rightarrow> socket \<Rightarrow> bool \<times> socket" where
  "tcp_close_locked now s =
     (let (send_fin, s) = tcp_close_state s;
          s = in_tcp (\<lambda>t. t\<lparr>unacked_buf := None\<rparr>) s
      in (send_fin, if send_fin then in_tcp (\<lambda>t. t\<lparr>last_send := now, retransmits := 0\<rparr>) s else s))"

definition tcp_close :: "outf \<Rightarrow> nat \<Rightarrow> nat \<Rightarrow> tsys \<Rightarrow> (int \<times> tsys) kres" where
  "tcp_close out i ifp T =
     (if so_type (socks T ! i) \<noteq> SOCK_STREAM then Ok (-1, T)
      else if loopback_if ifp T then Ok (0, T)
      else let (send_fin, s) = tcp_close_locked (net_ticks (tnet T)) (socks T ! i); T = set_sock i s T
           in if send_fin
              then kbind (tcp_emit out ifp (local_addr s) (remote_addr s) (fin_seq (tcp s)) (rcv_nxt (tcp s)) (TCP_FLAG_FIN OR TCP_FLAG_ACK)
                     (tcp_recv_window_locked s) [] T) (\<lambda>T. Ok (0, T))
              else Ok (0, T))"

text \<open>Without a route the connection is dropped at once.\<close>

definition abort_locked :: "socket \<Rightarrow> socket" where
  "abort_locked s =
     (let s = (if close_pending (tcp s) then (in_tcp (\<lambda>t. t\<lparr>close_pending := False\<rparr>) s)\<lparr>so_ref := so_ref s - 1\<rparr> else s)
      in closed_locked s)"

definition needs_fin :: "socket \<Rightarrow> bool" where
  "needs_fin s \<longleftrightarrow> t_state (tcp s) = TCPS_ESTABLISHED \<or> t_state (tcp s) = TCPS_CLOSE_WAIT"

definition hold_teardown :: "socket \<Rightarrow> socket" where
  "hold_teardown s = (in_tcp (\<lambda>t. t\<lparr>close_pending := True\<rparr>) s)\<lparr>so_ref := so_ref s + 1\<rparr>"

text \<open>\<open>socket_close\<close> of a stream socket of the Internet family.\<close>

definition socket_close :: "outf \<Rightarrow> nat \<Rightarrow> tsys \<Rightarrow> tsys kres" where
  "socket_close out i T =
     (let s = socks T ! i in
      kbind
        (if needs_fin s
         then let T = set_sock i (hold_teardown s) T in
              case route_of (s_addr (remote_addr s)) T of
                Some (ifp, _) \<Rightarrow> kbind (tcp_close out i ifp T) (\<lambda>(r, T). Ok T)
              | None \<Rightarrow> Ok (set_sock i (in_tcp (\<lambda>t. t\<lparr>unacked_buf := None\<rparr>) (abort_locked (socks T ! i))) T)
         else Ok (set_sock i (closed_locked (in_tcp (\<lambda>t. t\<lparr>unacked_buf := None\<rparr>) s)) T))
        (\<lambda>T. Ok (socket_deref i T)))"

text \<open>\<open>sys_shutdown\<close> once the descriptor has given the socket: 0 ends reading, 1 writing, 2 both.\<close>

definition sys_shutdown :: "outf \<Rightarrow> nat \<Rightarrow> int \<Rightarrow> tsys \<Rightarrow> (int \<times> tsys) kres" where
  "sys_shutdown out i how T =
     (if how < 0 \<or> how > 2 then Ok (-1, T)
      else
        let s = socks T ! i;
            s = (if how = 0 \<or> how = 2 then s\<lparr>shut_rd := True\<rparr> else s);
            s = (if how = 1 \<or> how = 2 then s\<lparr>shut_wr := True\<rparr> else s)
        in if (how = 1 \<or> how = 2) \<and> so_type s = SOCK_STREAM \<and> needs_fin s
           then let T = set_sock i (hold_teardown s) T in
                kbind
                  (case route_of (s_addr (remote_addr s)) T of
                     Some (ifp, _) \<Rightarrow> kbind (tcp_close out i ifp T) (\<lambda>(r, T). Ok T)
                   | None \<Rightarrow> Ok (set_sock i (abort_locked (socks T ! i)) T))
                  (\<lambda>T. Ok (0, socket_deref i T))
           else Ok (0, set_sock i s T))"

subsection \<open>Timers\<close>

definition back_off :: "u32 \<Rightarrow> tcpcb \<Rightarrow> tcpcb" where
  "back_off now t =
     (let r = rto t * 2 in t\<lparr>rto := (if r > TCP_RTO_MAX then TCP_RTO_MAX else r), last_send := now\<rparr>)"

text \<open>What a timer asks for once the lock is released: nothing, a segment with this data, or a reset, with or without a reference to drop.\<close>

datatype tcp_timer = Timer_none | Timer_send bytes | Timer_reset bool

definition tcp_retransmit_locked :: "u32 \<Rightarrow> socket \<Rightarrow> tcp_timer \<times> socket" where
  "tcp_retransmit_locked now s =
     (if t_state (tcp s) \<noteq> TCPS_ESTABLISHED \<and> t_state (tcp s) \<noteq> TCPS_FIN_WAIT_1 then (Timer_none, s)
      else case unacked_buf (tcp s) of None \<Rightarrow> (Timer_none, s)
      | Some buf \<Rightarrow>
          if now - last_send (tcp s) < rto (tcp s) then (Timer_none, s)
          else let s = in_tcp (\<lambda>t. t\<lparr>retransmits := retransmits t + 1\<rparr>) s in
               if retransmits (tcp s) > TCP_MAX_RETRANSMIT
               then let s = closed_locked (in_tcp (\<lambda>t. t\<lparr>unacked_buf := None\<rparr>) s);
                        (pending, s) = take_pending s
                    in (Timer_reset pending, s)
               else (Timer_send (take (unat (unacked_len (tcp s))) buf), in_tcp (back_off now) s))"

definition tcp_retransmit_check :: "outf \<Rightarrow> nat \<Rightarrow> nat \<Rightarrow> tsys \<Rightarrow> (int \<times> tsys) kres" where
  "tcp_retransmit_check out i ifp T =
     (let s0 = socks T ! i in
      if so_type s0 \<noteq> SOCK_STREAM then Ok (0, T)
      else if loopback_if ifp T then Ok (0, T)
      else
        let (act, s) = tcp_retransmit_locked (net_ticks (tnet T)) s0; T = set_sock i s T;
            seq = unacked_seq (tcp s0); ack = rcv_nxt (tcp s0)
        in case act of
             Timer_none \<Rightarrow> Ok (0, T)
           | Timer_send data \<Rightarrow>
               kbind (tcp_emit out ifp (local_addr s0) (remote_addr s0) seq ack (TCP_FLAG_ACK OR TCP_FLAG_PSH) (tcp_recv_window_locked s0) data T)
                 (\<lambda>T. Ok (1, T))
           | Timer_reset True \<Rightarrow>
               (let T = socket_deref i T in
                if s_addr (remote_addr s0) \<noteq> 0
                then kbind (tcp_emit out ifp (local_addr s0) (remote_addr s0) seq ack TCP_FLAG_RST 0 [] T) (\<lambda>T. Ok (0, T))
                else Ok (0, T))
           | Timer_reset False \<Rightarrow>
               kbind (tcp_emit out ifp (local_addr s0) (remote_addr s0) seq ack TCP_FLAG_RST 0 [] T) (\<lambda>T. Ok (0, T)))"

definition tcp_timewait_locked :: "u32 \<Rightarrow> socket \<Rightarrow> bool \<times> socket" where
  "tcp_timewait_locked now s =
     (if t_state (tcp s) \<noteq> TCPS_TIME_WAIT then (False, s)
      else if now - time_wait_start (tcp s) \<ge> TCP_TIME_WAIT_TICKS then take_pending (closed_locked s)
      else (False, s))"

definition tcp_timewait_check :: "nat \<Rightarrow> tsys \<Rightarrow> tsys" where
  "tcp_timewait_check i T =
     (if so_type (socks T ! i) \<noteq> SOCK_STREAM then T
      else let (do_deref, s) = tcp_timewait_locked (net_ticks (tnet T)) (socks T ! i); T = set_sock i s T
           in if do_deref then socket_deref i T else T)"

definition tcp_syn_locked :: "u32 \<Rightarrow> socket \<Rightarrow> bool \<times> socket" where
  "tcp_syn_locked now s =
     (if t_state (tcp s) \<noteq> TCPS_SYN_SENT then (False, s)
      else if now - last_send (tcp s) < rto (tcp s) then (False, s)
      else let s = in_tcp (\<lambda>t. t\<lparr>retransmits := retransmits t + 1\<rparr>) s in
           if retransmits (tcp s) > TCP_MAX_RETRANSMIT then (False, closed_locked s)
           else (True, in_tcp (back_off now) s))"

definition tcp_syn_retransmit_ifp :: "outf \<Rightarrow> nat \<Rightarrow> nat \<Rightarrow> tsys \<Rightarrow> tsys kres" where
  "tcp_syn_retransmit_ifp out i ifp T =
     (let (again, s) = tcp_syn_locked (net_ticks (tnet T)) (socks T ! i); T = set_sock i s T
      in if again then tcp_emit out ifp (local_addr s) (remote_addr s) (iss (tcp s)) 0 TCP_FLAG_SYN (tcp_recv_window_locked s) [] T
         else Ok T)"

text \<open>The first flag is for sending the FIN again, the second for a reference to drop.\<close>

definition tcp_fin_locked :: "u32 \<Rightarrow> socket \<Rightarrow> (bool \<times> bool) \<times> socket" where
  "tcp_fin_locked now s =
     (if t_state (tcp s) \<noteq> TCPS_FIN_WAIT_1 \<and> t_state (tcp s) \<noteq> TCPS_LAST_ACK then ((False, False), s)
      else if fin_seq (tcp s) = 0 \<or> tcp_seq_leq (fin_seq (tcp s) + 1) (snd_una (tcp s)) then ((False, False), s)
      else if unacked_buf (tcp s) \<noteq> None then ((False, False), s)
      else if now - last_send (tcp s) < rto (tcp s) then ((False, False), s)
      else let s = in_tcp (\<lambda>t. t\<lparr>retransmits := retransmits t + 1\<rparr>) s in
           if retransmits (tcp s) > TCP_MAX_RETRANSMIT
           then let (pending, s) = take_pending (closed_locked s) in ((False, pending), s)
           else ((True, False), in_tcp (back_off now) s))"

definition tcp_fin_retransmit :: "outf \<Rightarrow> nat \<Rightarrow> nat \<Rightarrow> tsys \<Rightarrow> tsys kres" where
  "tcp_fin_retransmit out i ifp T =
     (let ((again, do_deref), s) = tcp_fin_locked (net_ticks (tnet T)) (socks T ! i); T = set_sock i s T
      in kbind (if again
                then tcp_emit out ifp (local_addr s) (remote_addr s) (fin_seq (tcp s)) (rcv_nxt (tcp s)) (TCP_FLAG_FIN OR TCP_FLAG_ACK)
                       (tcp_recv_window_locked s) [] T
                else Ok T)
           (\<lambda>T. Ok (if do_deref then socket_deref i T else T)))"

definition slowtimo_one :: "outf \<Rightarrow> nat \<Rightarrow> tsys \<Rightarrow> tsys kres" where
  "slowtimo_one out i T =
     (let s = socks T ! i; st = (\<lambda>T. t_state (tcp (socks T ! i))) in
      if so_ref s = 0 then Ok T
      else if so_family s \<noteq> AF_INET \<or> so_type s \<noteq> SOCK_STREAM then Ok T
      else if st T = TCPS_TIME_WAIT then Ok (tcp_timewait_check i T)
      else case route_of (s_addr (remote_addr s)) T of None \<Rightarrow> Ok T
      | Some (ifp, _) \<Rightarrow>
          if st T = TCPS_SYN_SENT then tcp_syn_retransmit_ifp out i ifp T
          else kbind (if st T = TCPS_FIN_WAIT_1 \<or> st T = TCPS_LAST_ACK then tcp_fin_retransmit out i ifp T else Ok T)
                 (\<lambda>T. if st T = TCPS_ESTABLISHED \<or> st T = TCPS_FIN_WAIT_1
                      then kbind (tcp_retransmit_check out i ifp T) (\<lambda>(r, T). Ok T) else Ok T))"

definition tcp_slowtimo :: "outf \<Rightarrow> tsys \<Rightarrow> tsys kres" where
  "tcp_slowtimo out T = kfold (slowtimo_one out) [0..<NSOCKET] T"

subsection \<open>Connecting and sending\<close>

text \<open>The search for a free port: 20000 numbers are tried, beginning with the next one.\<close>

fun alloc_ephemeral_loop :: "nat \<Rightarrow> tsys \<Rightarrow> u16 \<times> tsys" where
  "alloc_ephemeral_loop 0 T = (0, T)"
| "alloc_ephemeral_loop (Suc n) T =
     (let p = next_ephemeral T; q = p + 1; T = T\<lparr>next_ephemeral := (if q < 40000 then 40000 else q)\<rparr>
      in if list_ex (\<lambda>s. so_ref s > 0 \<and> sin_port (local_addr s) = p) (socks T) then alloc_ephemeral_loop n T else (p, T))"

definition alloc_ephemeral_port_locked :: "tsys \<Rightarrow> u16 \<times> tsys" where
  "alloc_ephemeral_port_locked T = alloc_ephemeral_loop 20000 T"

definition new_connection :: "u32 \<Rightarrow> u32 \<Rightarrow> tcpcb \<Rightarrow> tcpcb" where
  "new_connection isn now t =
     t\<lparr>t_state := TCPS_SYN_SENT, iss := isn, snd_una := isn, snd_nxt := isn + 1, irs := 0, rcv_nxt := 0, rcv_wnd := 4096,
       rto := TCP_RTO_INIT, rtt_est := 0, retransmits := 0, unacked_buf := None, unacked_len := 0, unacked_seq := 0, fin_seq := 0,
       time_wait_start := 0, last_send := now\<rparr>"

text \<open>
  \<open>tcp_connect\<close> up to its wait, over an interface that is not the loopback: the result is \<open>-1\<close>, or the caller waits for the state that
  \<open>tcp_connect_wait\<close> tests at each tick, and gives up after \<open>TCP_CONNECT_TIMEOUT_TICKS\<close>.
\<close>

definition tcp_connect_begin :: "outf \<Rightarrow> nat \<Rightarrow> nat \<Rightarrow> sockaddr_in \<Rightarrow> tsys \<Rightarrow> (int \<times> tsys) kres" where
  "tcp_connect_begin out ifp i dst T =
     (let s = socks T ! i in
      if so_type s \<noteq> SOCK_STREAM then Ok (-1, T)
      else if so_state s = SOCK_LISTEN \<or> t_state (tcp s) \<noteq> TCPS_CLOSED then Ok (-1, T)
      else
        let (p, T) = (if sin_port (local_addr s) = 0 then alloc_ephemeral_port_locked T else (sin_port (local_addr s), T)) in
        if p = 0 then Ok (-1, T)
        else let s = in_tcp (new_connection (tcp_iss T) (net_ticks (tnet T)))
                       (s\<lparr>local_addr := (local_addr s)\<lparr>sin_port := p\<rparr>, remote_addr := dst, so_state := SOCK_CONNECT\<rparr>);
                 T = (set_sock i s T)\<lparr>tcp_iss := tcp_iss T + 1\<rparr>
             in kbind (tcp_send_segment out ifp (local_addr s) dst (iss (tcp s)) 0 TCP_FLAG_SYN (tcp_recv_window_locked s) [] T)
                  (\<lambda>(r, T). Ok (if r < 0 then -1 else 0, T)))"

datatype connect_wait = Connected | Waiting | Failed

definition tcp_connect_wait :: "u32 \<Rightarrow> nat \<Rightarrow> tsys \<Rightarrow> connect_wait \<times> tsys" where
  "tcp_connect_wait start i T =
     (let s = socks T ! i in
      if so_state s = SOCK_ESTAB \<and> t_state (tcp s) = TCPS_ESTABLISHED then (Connected, T)
      else if net_ticks (tnet T) - start \<ge> TCP_CONNECT_TIMEOUT_TICKS
      then (Failed, if t_state (tcp s) = TCPS_SYN_SENT
                    then set_sock i ((closed_locked s)\<lparr>remote_addr := \<lparr>sin_port = 0, s_addr = 0\<rparr>\<rparr>) T else T)
      else (Waiting, T))"

definition sends_from :: "sockaddr_in \<Rightarrow> sockaddr_in \<Rightarrow> socket \<Rightarrow> bool" where
  "sends_from src dst s \<longleftrightarrow>
     so_ref s \<noteq> 0 \<and> so_family s = AF_INET \<and> so_type s = SOCK_STREAM \<and> t_state (tcp s) = TCPS_ESTABLISHED \<and>
     sin_port (local_addr s) = sin_port src \<and> sin_port (remote_addr s) = sin_port dst \<and> s_addr (remote_addr s) = s_addr dst \<and>
     (s_addr (local_addr s) = 0 \<or> s_addr (local_addr s) = s_addr src)"

text \<open>The data joins the stream; it is kept for retransmission when nothing else is and \<open>kalloc\<close> gives a page.\<close>

definition tcp_output_locked :: "bool \<Rightarrow> u32 \<Rightarrow> bytes \<Rightarrow> socket \<Rightarrow> socket" where
  "tcp_output_locked page now data s =
     in_tcp (\<lambda>t.
       let seq = snd_nxt t; t = t\<lparr>snd_nxt := snd_nxt t + of_nat (length data)\<rparr>
       in if unacked_buf t = None \<and> page
          then t\<lparr>unacked_buf := Some data, unacked_len := of_nat (length data), unacked_seq := seq, last_send := now\<rparr>
          else t) s"

text \<open>\<open>tcp_output\<close> over an interface that is not the loopback.\<close>

definition tcp_output :: "outf \<Rightarrow> bool \<Rightarrow> nat \<Rightarrow> sockaddr_in \<Rightarrow> sockaddr_in \<Rightarrow> bytes \<Rightarrow> tsys \<Rightarrow> (int \<times> tsys) kres" where
  "tcp_output out page ifp src dst payload T =
     (if sin_port src = 0 \<or> sin_port dst = 0 then Ok (-1, T)
      else
        let data = take TCP_MAX_SEGMENT_DATA payload in
        case first_index (sends_from src dst) (socks T) of None \<Rightarrow> Ok (-1, T)
        | Some i \<Rightarrow>
            let s = socks T ! i; T = set_sock i (tcp_output_locked page (net_ticks (tnet T)) data s) T in
            if snd_nxt (tcp s) = 0 then Ok (-1, T)
            else kbind (tcp_send_segment out ifp src dst (snd_nxt (tcp s)) (rcv_nxt (tcp s)) (TCP_FLAG_ACK OR TCP_FLAG_PSH)
                          (tcp_recv_window_locked s) data T)
                   (\<lambda>(r, T). Ok (if r < 0 then -1 else int (length data), T)))"

text \<open>The loop of \<open>socket_filewrite\<close>: one segment after the other, until one is refused.\<close>

function tcp_send_loop :: "outf \<Rightarrow> (nat \<Rightarrow> bool) \<Rightarrow> nat \<Rightarrow> sockaddr_in \<Rightarrow> sockaddr_in \<Rightarrow> bytes \<Rightarrow> nat \<Rightarrow> tsys \<Rightarrow> (nat \<times> tsys) kres" where
  "tcp_send_loop out page ifp src dst payload sofar T =
     (if payload = [] then Ok (sofar, T)
      else kbind (tcp_output out (page sofar) ifp src dst payload T)
             (\<lambda>(r, T). if r \<le> 0 then Ok (sofar, T)
                       else tcp_send_loop out page ifp src dst (drop (nat r) payload) (sofar + nat r) T))"
  by pat_completeness auto

termination tcp_send_loop
  by (relation "measure (\<lambda>(out, page, ifp, src, dst, payload, sofar, T). length payload)") auto

declare tcp_send_loop.simps [simp del]

subsection \<open>Input\<close>

record tcp_seg =
  sg_src :: sockaddr_in
  sg_dst :: sockaddr_in
  sg_seq :: u32
  sg_ack :: u32
  sg_flags :: u8
  sg_win :: u16
  sg_data :: bytes

definition sub :: "nat \<Rightarrow> nat \<Rightarrow> bytes \<Rightarrow> bytes" where "sub i n bs = take n (drop i bs)"

definition tcp_parse :: "u32 \<Rightarrow> u32 \<Rightarrow> bytes \<Rightarrow> tcp_seg option" where
  "tcp_parse ipsrc ipdst payload =
     (let len = length payload; hlen = unat (drop_bit 4 (payload ! 12)) * 4; received = de16 (sub 16 2 payload) in
      if len < TCP_HDR_LEN then None
      else if hlen < TCP_HDR_LEN \<or> hlen > len then None
      else if tcp_checksum ipsrc ipdst (splice 16 [0, 0] payload) \<noteq> received then None
      else Some \<lparr>sg_src = \<lparr>sin_port = de16 (sub 0 2 payload), s_addr = ipsrc\<rparr>, sg_dst = \<lparr>sin_port = de16 (sub 2 2 payload), s_addr = ipdst\<rparr>,
        sg_seq = de32 (sub 4 4 payload), sg_ack = de32 (sub 8 4 payload), sg_flags = payload ! 13, sg_win = de16 (sub 14 2 payload),
        sg_data = drop hlen payload\<rparr>)"

definition receives_for :: "sockaddr_in \<Rightarrow> sockaddr_in \<Rightarrow> socket \<Rightarrow> bool" where
  "receives_for src dst s \<longleftrightarrow>
     so_ref s \<noteq> 0 \<and> so_family s = AF_INET \<and> so_type s = SOCK_STREAM \<and> sin_port (local_addr s) = sin_port dst \<and>
     (sin_port (remote_addr s) = 0 \<or> sin_port (remote_addr s) = sin_port src) \<and>
     (s_addr (remote_addr s) = 0 \<or> s_addr (remote_addr s) = s_addr src) \<and>
     (s_addr (local_addr s) = 0 \<or> s_addr (local_addr s) = s_addr dst)"

definition tcp_find_client_socket_locked :: "sockaddr_in \<Rightarrow> sockaddr_in \<Rightarrow> tsys \<Rightarrow> nat option" where
  "tcp_find_client_socket_locked src dst T = first_index (receives_for src dst) (socks T)"

definition new_rto :: "u32 \<Rightarrow> u32" where
  "new_rto est =
     (let r = est * 2; r = (if r < TCP_RTO_MIN then TCP_RTO_MIN else r) in if r > TCP_RTO_MAX then TCP_RTO_MAX else r)"

definition tcp_ack_locked :: "u32 \<Rightarrow> tcp_seg \<Rightarrow> tcpcb \<Rightarrow> tcpcb" where
  "tcp_ack_locked now sg t =
     (if fl (sg_flags sg) TCP_FLAG_ACK \<and> unacked_buf t \<noteq> None \<and> tcp_seq_leq (unacked_seq t + unacked_len t) (sg_ack sg)
      then let rtt = now - last_send t; est = (if rtt_est t = 0 then rtt else (rtt_est t * 7 + rtt) div 8)
           in t\<lparr>unacked_buf := None, unacked_len := 0, snd_una := sg_ack sg, retransmits := 0, rtt_est := est, rto := new_rto est\<rparr>
      else t)"

text \<open>What follows the critical section: nothing, an acknowledgement with the socket's counters, or a reference to drop.\<close>

datatype tcp_act = Act_none | Act_ack | Act_deref

definition fin_here :: "tcp_seg \<Rightarrow> socket \<Rightarrow> bool" where
  "fin_here sg s \<longleftrightarrow> fl (sg_flags sg) TCP_FLAG_FIN \<and> sg_seq sg + of_nat (length (sg_data sg)) = rcv_nxt (tcp s)"

definition tcp_syn_sent :: "tcp_seg \<Rightarrow> socket \<Rightarrow> tcp_act \<times> socket" where
  "tcp_syn_sent sg s =
     (if sg_flags sg AND (TCP_FLAG_SYN OR TCP_FLAG_ACK) = TCP_FLAG_SYN OR TCP_FLAG_ACK \<and> sg_ack sg = snd_nxt (tcp s)
      then (Act_ack, (in_tcp (\<lambda>t. t\<lparr>irs := sg_seq sg, rcv_nxt := sg_seq sg + 1, snd_una := sg_ack sg, t_state := TCPS_ESTABLISHED\<rparr>) s)
              \<lparr>so_state := SOCK_ESTAB\<rparr>)
      else (Act_none, s))"

definition tcp_take_data :: "tcp_seg \<Rightarrow> bytes \<Rightarrow> socket \<Rightarrow> socket" where
  "tcp_take_data sg buf s =
     (let room = unat (recv_cap s - recv_len s); data = take room (sg_data sg)
      in (in_tcp (\<lambda>t. t\<lparr>rcv_nxt := rcv_nxt t + of_nat (length data)\<rparr>) s)
           \<lparr>recv_buf := Some (splice (unat (recv_len s)) data buf), recv_len := recv_len s + of_nat (length data), remote_addr := sg_src sg\<rparr>)"

definition tcp_passive_fin :: "tcp_seg \<Rightarrow> tcp_act \<Rightarrow> socket \<Rightarrow> tcp_act \<times> socket" where
  "tcp_passive_fin sg act s =
     (if fin_here sg s then (Act_ack, in_tcp (\<lambda>t. t\<lparr>rcv_nxt := rcv_nxt t + 1, t_state := TCPS_CLOSE_WAIT\<rparr>) s) else (act, s))"

definition tcp_established :: "tcp_seg \<Rightarrow> socket \<Rightarrow> tcp_act \<times> socket" where
  "tcp_established sg s =
     (let s = (if fl (sg_flags sg) TCP_FLAG_ACK then in_tcp (\<lambda>t. t\<lparr>snd_wnd := ucast (sg_win sg)\<rparr>) s else s) in
      if sg_data sg \<noteq> []
      then if sg_seq sg \<noteq> rcv_nxt (tcp s) then (Act_ack, s)
           else tcp_passive_fin sg Act_ack
                  (case recv_buf s of Some buf \<Rightarrow> if recv_cap s > recv_len s then tcp_take_data sg buf s else s | None \<Rightarrow> s)
      else tcp_passive_fin sg Act_none s)"

definition start_time_wait :: "u32 \<Rightarrow> socket \<Rightarrow> socket" where
  "start_time_wait now s = in_tcp (\<lambda>t. t\<lparr>rcv_nxt := rcv_nxt t + 1, t_state := TCPS_TIME_WAIT, time_wait_start := now\<rparr>) s"

definition fin_acked :: "tcp_seg \<Rightarrow> socket \<Rightarrow> bool" where
  "fin_acked sg s \<longleftrightarrow> fl (sg_flags sg) TCP_FLAG_ACK \<and> sg_ack sg = fin_seq (tcp s) + 1"

definition tcp_fin_wait_1 :: "u32 \<Rightarrow> tcp_seg \<Rightarrow> socket \<Rightarrow> tcp_act \<times> socket" where
  "tcp_fin_wait_1 now sg s =
     (if fin_acked sg s
      then let s = in_tcp (\<lambda>t. t\<lparr>snd_una := sg_ack sg\<rparr>) s in
           if fin_here sg s then (Act_ack, start_time_wait now s)
           else (Act_none, in_tcp (\<lambda>t. t\<lparr>t_state := TCPS_FIN_WAIT_2\<rparr>) s)
      else if fin_here sg s then (Act_ack, in_tcp (\<lambda>t. t\<lparr>rcv_nxt := rcv_nxt t + 1\<rparr>) s)
      else (Act_none, s))"

definition tcp_process :: "u32 \<Rightarrow> tcp_seg \<Rightarrow> socket \<Rightarrow> tcp_act \<times> socket" where
  "tcp_process now sg s =
     (case t_state (tcp s) of
        TCPS_SYN_SENT \<Rightarrow> tcp_syn_sent sg s
      | TCPS_ESTABLISHED \<Rightarrow> tcp_established sg s
      | TCPS_FIN_WAIT_1 \<Rightarrow> tcp_fin_wait_1 now sg s
      | TCPS_FIN_WAIT_2 \<Rightarrow> if fin_here sg s then (Act_ack, start_time_wait now s) else (Act_none, s)
      | TCPS_CLOSE_WAIT \<Rightarrow> (if sg_data sg \<noteq> [] \<or> fl (sg_flags sg) TCP_FLAG_FIN then Act_ack else Act_none, s)
      | TCPS_LAST_ACK \<Rightarrow>
          if fin_acked sg s
          then let (pending, s) = take_pending (closed_locked s) in (if pending then Act_deref else Act_none, s)
          else (Act_none, s)
      | TCPS_TIME_WAIT \<Rightarrow> (if fl (sg_flags sg) TCP_FLAG_FIN then Act_ack else Act_none, s)
      | _ \<Rightarrow> (Act_none, s))"

text \<open>The critical section of \<open>tcp_input\<close> on the socket that was found.\<close>

definition tcp_input_locked :: "u32 \<Rightarrow> tcp_seg \<Rightarrow> socket \<Rightarrow> tcp_act \<times> socket" where
  "tcp_input_locked now sg s =
     (if fl (sg_flags sg) TCP_FLAG_RST
      then let (pending, s) = take_pending (closed_locked (in_tcp (\<lambda>t. t\<lparr>unacked_buf := None\<rparr>) s))
           in (if pending then Act_deref else Act_none, s)
      else tcp_process now sg (in_tcp (tcp_ack_locked now sg) s))"

definition tcp_refuse :: "outf \<Rightarrow> nat \<Rightarrow> tcp_seg \<Rightarrow> tsys \<Rightarrow> tsys kres" where
  "tcp_refuse out ifp sg T =
     (if fl (sg_flags sg) TCP_FLAG_RST then Ok T
      else tcp_emit out ifp (sg_dst sg) (sg_src sg) (sg_ack sg)
             (sg_seq sg + of_nat (length (sg_data sg)) + (if fl (sg_flags sg) TCP_FLAG_SYN then 1 else 0) + (if fl (sg_flags sg) TCP_FLAG_FIN then 1 else 0))
             (TCP_FLAG_RST OR TCP_FLAG_ACK) 0 [] T)"

definition tcp_input :: "outf \<Rightarrow> nat \<Rightarrow> u32 \<Rightarrow> u32 \<Rightarrow> bytes \<Rightarrow> tsys \<Rightarrow> tsys kres" where
  "tcp_input out ifp ipsrc ipdst payload T =
     (case tcp_parse ipsrc ipdst payload of None \<Rightarrow> Ok T
      | Some sg \<Rightarrow>
          case tcp_find_client_socket_locked (sg_src sg) (sg_dst sg) T of None \<Rightarrow> tcp_refuse out ifp sg T
          | Some i \<Rightarrow>
              let (act, s) = tcp_input_locked (net_ticks (tnet T)) sg (socks T ! i); T = set_sock i s T
              in case act of
                   Act_none \<Rightarrow> Ok T
                 | Act_deref \<Rightarrow> Ok (socket_deref i T)
                 | Act_ack \<Rightarrow> tcp_emit out ifp (sg_dst sg) (sg_src sg) (snd_nxt (tcp s)) (rcv_nxt (tcp s)) TCP_FLAG_ACK (tcp_recv_window_locked s) [] T)"

text \<open>What a reader takes from the front of the buffer.\<close>

definition socket_recv_copy_locked :: "int \<Rightarrow> socket \<Rightarrow> bytes \<times> socket" where
  "socket_recv_copy_locked len s =
     (let n = (if word_of_int len > recv_len s then recv_len s else word_of_int len); k = unat n; r = unat (recv_len s);
          buf = (case recv_buf s of Some b \<Rightarrow> b | None \<Rightarrow> [])
      in (take k buf,
          s\<lparr>recv_buf := (if n < recv_len s then map_option (splice 0 (sub k (r - k) buf)) (recv_buf s) else recv_buf s),
            recv_len := recv_len s - n\<rparr>))"

definition socket_stream_eof_locked :: "socket \<Rightarrow> bool" where
  "socket_stream_eof_locked s \<longleftrightarrow>
     so_type s = SOCK_STREAM \<and> recv_len s = 0 \<and>
     (so_state s = SOCK_CLOSED \<or> t_state (tcp s) = TCPS_CLOSE_WAIT \<or> t_state (tcp s) = TCPS_CLOSED)"

end
