(* ===== verification/Tcp_Stream.thy ===== *)
theory Tcp_Stream
  imports Tcp
begin

text \<open>
  What TCP promises: a segment arrives as it was sent, and whatever the network does with the segments of one direction, the
  receiver has a prefix of the bytes that were sent, and all of them when it sees the end. After that, the cases in which a connection
  or a socket does not end as it should.
\<close>

subsection \<open>Segments\<close>

lemma be_zero [simp]: "be16 0 = [0, 0]"
  by (simp add: be16_def net_htons_def st16_def)

lemma length_tcp_header [simp]: "length (tcp_header sp dp seq ack flags win csum) = 20"
  by (simp add: tcp_header_def)

lemma splice_csum:
  "splice 16 [0, 0] (tcp_header sp dp seq ack flags win csum @ payload) = tcp_header sp dp seq ack flags win 0 @ payload"
  by (simp add: splice_def tcp_header_def)

lemma tcp_header_fields:
  assumes "p = tcp_header sp dp seq ack flags win csum @ payload"
  shows "sub 0 2 p = be16 sp" "sub 2 2 p = be16 dp" "sub 4 4 p = be32 seq" "sub 8 4 p = be32 ack" "p ! 12 = 0x50" "p ! 13 = flags"
    "sub 14 2 p = be16 win" "sub 16 2 p = be16 csum" "drop 20 p = payload"
  by (simp_all add: assms tcp_header_def sub_def nth_append)

text \<open>
  Claim C13. A segment is received as it was sent: for all addresses, ports, counters, flags and data, the receiver finds the checksum right and
  reads from the bytes exactly what the sender put into them.
\<close>

theorem tcp_segment_roundtrip:
  "tcp_parse (s_addr src) (s_addr dst) (tcp_segment src dst seq ack flags win payload) =
     Some \<lparr>sg_src = src, sg_dst = dst, sg_seq = seq, sg_ack = ack, sg_flags = flags, sg_win = win, sg_data = payload\<rparr>"
proof -
  define c where "c = tcp_checksum (s_addr src) (s_addr dst) (tcp_header (sin_port src) (sin_port dst) seq ack flags win 0 @ payload)"
  define p where "p = tcp_header (sin_port src) (sin_port dst) seq ack flags win c @ payload"
  have seg: "tcp_segment src dst seq ack flags win payload = p" by (simp add: tcp_segment_def p_def c_def Let_def)
  have h: "unat (drop_bit 4 (0x50 :: u8)) * 4 = 20" by code_simp
  have len: "length p = 20 + length payload" by (simp add: p_def)
  have ck: "tcp_checksum (s_addr src) (s_addr dst) (splice 16 [0, 0] p) = c"
    unfolding p_def splice_csum c_def ..
  show ?thesis
    unfolding seg tcp_parse_def tcp_header_fields [OF p_def] Let_def ck h by (simp add: len TCP_HDR_LEN_def tcp_header_fields(9) [OF p_def])
qed

subsection \<open>One direction of a connection\<close>

text \<open>
  The sender and the receiver, the bytes the sender's program has written, every segment that the sender has sent and the bytes that
  the receiver's program has read. The network delivers any segment of the history, at any time, any number of times or never; what
  the sender receives is arbitrary. Segments without data and without FIN (acknowledgements, resets) may join the history at any time.
\<close>

record tcp_link =
  snd_sock :: socket
  rcv_sock :: socket
  stream :: bytes
  history :: "tcp_seg list"
  got :: bytes

definition put_seg :: "tcp_seg \<Rightarrow> tcp_link \<Rightarrow> tcp_link" where "put_seg sg L = L\<lparr>history := sg # history L\<rparr>"

inductive link_step :: "tcp_link \<Rightarrow> tcp_link \<Rightarrow> bool" where
  Send: "t_state (tcp (snd_sock L)) = TCPS_ESTABLISHED \<Longrightarrow> data = take TCP_MAX_SEGMENT_DATA payload \<Longrightarrow>
    sg_seq sg = snd_nxt (tcp (snd_sock L)) \<Longrightarrow> sg_data sg = data \<Longrightarrow> sg_flags sg = TCP_FLAG_ACK OR TCP_FLAG_PSH \<Longrightarrow>
    link_step L (put_seg sg (L\<lparr>snd_sock := tcp_output_locked page now data (snd_sock L), stream := stream L @ data\<rparr>))"
| Resend: "tcp_retransmit_locked now (snd_sock L) = (Timer_send data, s) \<Longrightarrow>
    sg_seq sg = unacked_seq (tcp (snd_sock L)) \<Longrightarrow> sg_data sg = data \<Longrightarrow> sg_flags sg = TCP_FLAG_ACK OR TCP_FLAG_PSH \<Longrightarrow>
    link_step L (put_seg sg (L\<lparr>snd_sock := s\<rparr>))"
| Give_up: "tcp_retransmit_locked now (snd_sock L) = (act, s) \<Longrightarrow> act = Timer_none \<or> act = Timer_reset b \<Longrightarrow>
    link_step L (L\<lparr>snd_sock := s\<rparr>)"
| Finish: "tcp_close_locked now (snd_sock L) = (True, s) \<Longrightarrow>
    sg_seq sg = fin_seq (tcp s) \<Longrightarrow> sg_data sg = [] \<Longrightarrow> sg_flags sg = TCP_FLAG_FIN OR TCP_FLAG_ACK \<Longrightarrow>
    link_step L (put_seg sg (L\<lparr>snd_sock := s\<rparr>))"
| Finish_again: "tcp_fin_locked now (snd_sock L) = ((True, b), s) \<Longrightarrow>
    sg_seq sg = fin_seq (tcp s) \<Longrightarrow> sg_data sg = [] \<Longrightarrow> sg_flags sg = TCP_FLAG_FIN OR TCP_FLAG_ACK \<Longrightarrow>
    link_step L (put_seg sg (L\<lparr>snd_sock := s\<rparr>))"
| Finish_lost: "tcp_fin_locked now (snd_sock L) = ((False, b), s) \<Longrightarrow> link_step L (L\<lparr>snd_sock := s\<rparr>)"
| Control: "sg_data sg = [] \<Longrightarrow> \<not> fl (sg_flags sg) TCP_FLAG_FIN \<Longrightarrow> link_step L (put_seg sg L)"
| Answer: "link_step L (L\<lparr>snd_sock := snd (tcp_input_locked now sg (snd_sock L))\<rparr>)"
| Deliver: "sg \<in> set (history L) \<Longrightarrow> link_step L (L\<lparr>rcv_sock := snd (tcp_input_locked now sg (rcv_sock L))\<rparr>)"
| Read: "0 \<le> n \<Longrightarrow> n < 2 ^ 31 \<Longrightarrow> socket_recv_copy_locked n (rcv_sock L) = (bs, s) \<Longrightarrow> link_step L (L\<lparr>rcv_sock := s, got := got L @ bs\<rparr>)"
| Reply: "link_step L (L\<lparr>rcv_sock := tcp_output_locked page now data (rcv_sock L)\<rparr>)"
| Leave: "link_step L (L\<lparr>rcv_sock := snd (tcp_close_locked now (rcv_sock L))\<rparr>)"

text \<open>The bytes that have come to the receiver: those read, and those in its buffer.\<close>

definition delivered :: "tcp_link \<Rightarrow> bytes" where
  "delivered L = got L @ take (unat (recv_len (rcv_sock L))) (case recv_buf (rcv_sock L) of Some b \<Rightarrow> b | None \<Rightarrow> [])"

text \<open>Two ends of a new connection: the receiver expects the sender's next number and has an empty buffer.\<close>

definition link_new :: "tcp_link \<Rightarrow> bool" where
  "link_new L \<longleftrightarrow>
     t_state (tcp (snd_sock L)) = TCPS_ESTABLISHED \<and> unacked_buf (tcp (snd_sock L)) = None \<and>
     t_state (tcp (rcv_sock L)) = TCPS_ESTABLISHED \<and> rcv_nxt (tcp (rcv_sock L)) = snd_nxt (tcp (snd_sock L)) \<and>
     recv_cap (rcv_sock L) = 4096 \<and> recv_len (rcv_sock L) = 0 \<and> (\<exists>buf. recv_buf (rcv_sock L) = Some buf \<and> length buf = 4096) \<and>
     stream L = [] \<and> history L = [] \<and> got L = []"

subsection \<open>The invariant\<close>

definition seg_ok :: "u32 \<Rightarrow> bytes \<Rightarrow> bool \<Rightarrow> tcp_seg \<Rightarrow> bool" where
  "seg_ok base str fin sg \<longleftrightarrow>
     (sg_data sg = [] \<and> \<not> fl (sg_flags sg) TCP_FLAG_FIN) \<or>
     (sg_data sg = [] \<and> fin \<and> sg_seq sg = base + of_nat (length str)) \<or>
     (\<not> fl (sg_flags sg) TCP_FLAG_FIN \<and> \<not> fl (sg_flags sg) TCP_FLAG_RST \<and>
      (\<exists>k. sg_seq sg = base + of_nat k \<and> k + length (sg_data sg) \<le> length str \<and> sg_data sg = take (length (sg_data sg)) (drop k str)))"

definition opening_states :: "tcp_state set" where "opening_states = {TCPS_SYN_SENT, TCPS_LISTEN, TCPS_SYN_RECEIVED}"

definition snd_ok :: "u32 \<Rightarrow> bytes \<Rightarrow> socket \<Rightarrow> bool" where
  "snd_ok base str s \<longleftrightarrow>
     t_state (tcp s) \<notin> opening_states \<and>
     (t_state (tcp s) \<in> {TCPS_ESTABLISHED, TCPS_CLOSE_WAIT} \<longrightarrow> snd_nxt (tcp s) = base + of_nat (length str)) \<and>
     (t_state (tcp s) \<in> {TCPS_FIN_WAIT_1, TCPS_LAST_ACK} \<longrightarrow> fin_seq (tcp s) = base + of_nat (length str)) \<and>
     (\<forall>d. unacked_buf (tcp s) = Some d \<longrightarrow>
        (\<exists>k. unacked_seq (tcp s) = base + of_nat k \<and> k + length d \<le> length str \<and> d = take (length d) (drop k str)))"

definition got_ok :: "u32 \<Rightarrow> bytes \<Rightarrow> bool \<Rightarrow> tcpcb \<Rightarrow> bytes \<Rightarrow> bool" where
  "got_ok base str fin t d \<longleftrightarrow>
     d = take (length d) str \<and> length d \<le> length str \<and> t_state t \<notin> opening_states \<and>
     (t_state t = TCPS_ESTABLISHED \<longrightarrow> rcv_nxt t = base + of_nat (length d)) \<and>
     (t_state t \<in> {TCPS_CLOSE_WAIT, TCPS_LAST_ACK} \<longrightarrow> fin \<and> d = str)"

definition rcv_ok :: "u32 \<Rightarrow> bytes \<Rightarrow> bool \<Rightarrow> bytes \<Rightarrow> socket \<Rightarrow> bool" where
  "rcv_ok base str fin g s \<longleftrightarrow>
     recv_cap s = 4096 \<and> unat (recv_len s) \<le> 4096 \<and>
     (\<exists>buf. recv_buf s = Some buf \<and> length buf = 4096 \<and> got_ok base str fin (tcp s) (g @ take (unat (recv_len s)) buf))"

definition sending :: "tcp_link \<Rightarrow> bool" where "sending L \<longleftrightarrow> t_state (tcp (snd_sock L)) = TCPS_ESTABLISHED"

definition link_ok :: "u32 \<Rightarrow> tcp_link \<Rightarrow> bool" where
  "link_ok base L \<longleftrightarrow>
     snd_ok base (stream L) (snd_sock L) \<and> rcv_ok base (stream L) (\<not> sending L) (got L) (rcv_sock L) \<and>
     list_all (seg_ok base (stream L) (\<not> sending L)) (history L)"

lemma flag_facts [simp]:
  "fl (TCP_FLAG_ACK OR TCP_FLAG_PSH) TCP_FLAG_FIN = False" "fl (TCP_FLAG_ACK OR TCP_FLAG_PSH) TCP_FLAG_RST = False"
  "fl (TCP_FLAG_FIN OR TCP_FLAG_ACK) TCP_FLAG_FIN = True" "fl (TCP_FLAG_FIN OR TCP_FLAG_ACK) TCP_FLAG_RST = False"
  "fl (TCP_FLAG_FIN OR TCP_FLAG_ACK) TCP_FLAG_ACK = True" "fl TCP_FLAG_ACK TCP_FLAG_ACK = True" "fl TCP_FLAG_ACK TCP_FLAG_FIN = False"
  "fl TCP_FLAG_ACK TCP_FLAG_RST = False"
  by code_simp+

lemma seg_ok_fin: "seg_ok base str fin sg \<Longrightarrow> (fin \<Longrightarrow> fin') \<Longrightarrow> seg_ok base str fin' sg"
  unfolding seg_ok_def by blast

lemma seg_ok_grow: "seg_ok base str False sg \<Longrightarrow> seg_ok base (str @ data) fin sg"
  unfolding seg_ok_def by fastforce

lemma rcv_ok_fin: "rcv_ok base str fin g s \<Longrightarrow> (fin \<Longrightarrow> fin') \<Longrightarrow> rcv_ok base str fin' g s"
  unfolding rcv_ok_def got_ok_def by blast

lemma got_ok_grow: "got_ok base str False t d \<Longrightarrow> got_ok base (str @ data) fin t d"
  by (auto simp: got_ok_def)

lemma rcv_ok_grow: "rcv_ok base str False g s \<Longrightarrow> rcv_ok base (str @ data) fin g s"
  unfolding rcv_ok_def using got_ok_grow by blast

lemma tcp_in_tcp [simp]:
  "tcp (in_tcp g s) = g (tcp s)" "recv_buf (in_tcp g s) = recv_buf s" "recv_len (in_tcp g s) = recv_len s" "recv_cap (in_tcp g s) = recv_cap s"
  "so_state (in_tcp g s) = so_state s" "so_ref (in_tcp g s) = so_ref s" "so_type (in_tcp g s) = so_type s" "so_family (in_tcp g s) = so_family s"
  "local_addr (in_tcp g s) = local_addr s" "remote_addr (in_tcp g s) = remote_addr s"
  by (simp_all add: in_tcp_def)

lemma closed_locked_simps [simp]:
  "tcp (closed_locked s) = (tcp s)\<lparr>t_state := TCPS_CLOSED\<rparr>" "recv_buf (closed_locked s) = recv_buf s" "recv_len (closed_locked s) = recv_len s"
  "recv_cap (closed_locked s) = recv_cap s" "so_ref (closed_locked s) = so_ref s"
  by (simp_all add: closed_locked_def)

lemma take_pending_simps [simp]:
  "fst (take_pending s) = close_pending (tcp s)" "tcp (snd (take_pending s)) = (tcp s)\<lparr>close_pending := False\<rparr>"
  "recv_buf (snd (take_pending s)) = recv_buf s" "recv_len (snd (take_pending s)) = recv_len s"
  "recv_cap (snd (take_pending s)) = recv_cap s" "so_ref (snd (take_pending s)) = so_ref s"
  by (auto simp: take_pending_def)

subsection \<open>The sender\<close>

lemma output_snd_ok:
  assumes "snd_ok base str s" "t_state (tcp s) = TCPS_ESTABLISHED"
  shows "snd_ok base (str @ data) (tcp_output_locked page now data s) \<and>
    t_state (tcp (tcp_output_locked page now data s)) = TCPS_ESTABLISHED"
proof -
  have old: "\<exists>k. unacked_seq (tcp s) = base + of_nat k \<and> k + length d \<le> length (str @ data) \<and> d = take (length d) (drop k (str @ data))"
    if "unacked_buf (tcp s) = Some d" for d
    using assms(1) that unfolding snd_ok_def by fastforce
  have new: "\<exists>k. base + of_nat (length str) = base + of_nat k \<and> k + length data \<le> length (str @ data) \<and> data = take (length data) (drop k (str @ data))"
    by (rule exI [of _ "length str"]) simp
  show ?thesis
    using assms old new by (auto simp: snd_ok_def tcp_output_locked_def Let_def)
qed

lemma retransmit_snd_ok:
  assumes "snd_ok base str s" "tcp_retransmit_locked now s = (act, s')"
  shows "snd_ok base str s' \<and> (t_state (tcp s') = TCPS_ESTABLISHED \<longrightarrow> t_state (tcp s) = TCPS_ESTABLISHED)"
  using assms
  by (auto simp: tcp_retransmit_locked_def snd_ok_def opening_states_def back_off_def Let_def case_prod_beta split: if_splits option.splits)

lemma retransmit_data:
  assumes "snd_ok base str s" "tcp_retransmit_locked now s = (Timer_send data, s')"
  shows "\<exists>k. unacked_seq (tcp s) = base + of_nat k \<and> k + length data \<le> length str \<and> data = take (length data) (drop k str)"
proof -
  obtain d where d: "unacked_buf (tcp s) = Some d" "data = take (unat (unacked_len (tcp s))) d"
    using assms(2) by (auto simp: tcp_retransmit_locked_def Let_def case_prod_beta split: if_splits option.splits)
  obtain k where k: "unacked_seq (tcp s) = base + of_nat k" "k + length d \<le> length str" "d = take (length d) (drop k str)"
    using assms(1) d(1) unfolding snd_ok_def by blast
  have "data = take (length data) d" using d(2) by (simp add: min_def)
  also have "\<dots> = take (length data) (drop k str)" using k(3) d(2) by (metis length_take min.cobounded1 min.absorb1 take_take)
  finally show ?thesis using k(1,2) d(2) by (auto intro!: exI [of _ k])
qed

lemma close_snd_ok:
  assumes "snd_ok base str s" "tcp_close_locked now s = (True, s')"
  shows "snd_ok base str s' \<and> t_state (tcp s') \<noteq> TCPS_ESTABLISHED \<and> fin_seq (tcp s') = base + of_nat (length str)"
  using assms
  by (auto simp: tcp_close_locked_def tcp_close_state_def snd_ok_def opening_states_def Let_def split: tcp_state.splits)

lemma fin_snd_ok:
  assumes "snd_ok base str s" "tcp_fin_locked now s = ((again, b), s')"
  shows "snd_ok base str s' \<and> (t_state (tcp s') = TCPS_ESTABLISHED \<longrightarrow> t_state (tcp s) = TCPS_ESTABLISHED) \<and>
    (again \<longrightarrow> t_state (tcp s) \<noteq> TCPS_ESTABLISHED \<and> fin_seq (tcp s') = base + of_nat (length str))"
  using assms
  by (auto simp: tcp_fin_locked_def snd_ok_def opening_states_def back_off_def Let_def case_prod_beta split: if_splits)

lemma ack_locked_keeps [simp]:
  "t_state (tcp_ack_locked now sg t) = t_state t" "rcv_nxt (tcp_ack_locked now sg t) = rcv_nxt t" "snd_nxt (tcp_ack_locked now sg t) = snd_nxt t"
  "fin_seq (tcp_ack_locked now sg t) = fin_seq t" "unacked_seq (tcp_ack_locked now sg t) = unacked_seq t"
  "close_pending (tcp_ack_locked now sg t) = close_pending t"
  by (simp_all add: tcp_ack_locked_def Let_def)

lemma ack_locked_unacked: "unacked_buf (tcp_ack_locked now sg t) = Some d \<Longrightarrow> unacked_buf t = Some d"
  by (simp add: tcp_ack_locked_def Let_def split: if_splits)

lemmas process_defs = tcp_established_def tcp_passive_fin_def tcp_fin_wait_1_def start_time_wait_def tcp_take_data_def

text \<open>What processing a segment leaves alone, and where it can lead.\<close>

lemma process_keeps:
  assumes "t_state (tcp s) \<notin> opening_states"
  shows "snd_nxt (tcp (snd (tcp_process now sg s))) = snd_nxt (tcp s)" "fin_seq (tcp (snd (tcp_process now sg s))) = fin_seq (tcp s)"
    "unacked_buf (tcp (snd (tcp_process now sg s))) = unacked_buf (tcp s)" "unacked_seq (tcp (snd (tcp_process now sg s))) = unacked_seq (tcp s)"
  using assms
  by (auto simp: tcp_process_def opening_states_def process_defs Let_def case_prod_beta split: tcp_state.splits option.splits)

lemma process_state:
  assumes "t_state (tcp s) \<notin> opening_states"
  shows "t_state (tcp (snd (tcp_process now sg s))) \<notin> opening_states"
    "t_state (tcp (snd (tcp_process now sg s))) = TCPS_ESTABLISHED \<Longrightarrow> t_state (tcp s) = TCPS_ESTABLISHED"
    "t_state (tcp (snd (tcp_process now sg s))) = TCPS_CLOSE_WAIT \<Longrightarrow> t_state (tcp s) \<in> {TCPS_ESTABLISHED, TCPS_CLOSE_WAIT}"
    "t_state (tcp (snd (tcp_process now sg s))) = TCPS_FIN_WAIT_1 \<Longrightarrow> t_state (tcp s) = TCPS_FIN_WAIT_1"
    "t_state (tcp (snd (tcp_process now sg s))) = TCPS_LAST_ACK \<Longrightarrow> t_state (tcp s) = TCPS_LAST_ACK"
  using assms
  by (auto simp: tcp_process_def opening_states_def process_defs Let_def case_prod_beta split: tcp_state.splits option.splits if_splits)

lemma input_snd_ok:
  assumes "snd_ok base str s"
  shows "snd_ok base str (snd (tcp_input_locked now sg s)) \<and>
    (t_state (tcp (snd (tcp_input_locked now sg s))) = TCPS_ESTABLISHED \<longrightarrow> t_state (tcp s) = TCPS_ESTABLISHED)"
proof (cases "fl (sg_flags sg) TCP_FLAG_RST")
  case True
  then show ?thesis using assms by (simp add: tcp_input_locked_def case_prod_beta snd_ok_def opening_states_def)
next
  case False
  let ?s = "in_tcp (tcp_ack_locked now sg) s"
  have o: "t_state (tcp ?s) \<notin> opening_states" using assms by (simp add: snd_ok_def)
  have e: "snd (tcp_input_locked now sg s) = snd (tcp_process now sg ?s)" using False by (simp add: tcp_input_locked_def)
  show ?thesis unfolding e
    using assms process_keeps [OF o, of now sg] process_state [OF o, of now sg] ack_locked_unacked [of now sg "tcp s"]
    unfolding snd_ok_def by auto
qed

subsection \<open>The receiver\<close>

lemma got_ok_leave:
  "got_ok base str fin t d \<Longrightarrow> t_state t' \<notin> opening_states \<Longrightarrow> t_state t' \<noteq> TCPS_ESTABLISHED \<Longrightarrow>
   (t_state t' \<in> {TCPS_CLOSE_WAIT, TCPS_LAST_ACK} \<Longrightarrow> t_state t \<in> {TCPS_CLOSE_WAIT, TCPS_LAST_ACK}) \<Longrightarrow> got_ok base str fin t' d"
  unfolding got_ok_def by blast

lemma got_ok_same: "got_ok base str fin t d \<Longrightarrow> t_state t' = t_state t \<Longrightarrow> rcv_nxt t' = rcv_nxt t \<Longrightarrow> got_ok base str fin t' d"
  by (simp add: got_ok_def)

lemma rcv_ok_same:
  "rcv_ok base str fin g s \<Longrightarrow> t_state (tcp s') = t_state (tcp s) \<Longrightarrow> rcv_nxt (tcp s') = rcv_nxt (tcp s) \<Longrightarrow>
   recv_buf s' = recv_buf s \<Longrightarrow> recv_len s' = recv_len s \<Longrightarrow> recv_cap s' = recv_cap s \<Longrightarrow> rcv_ok base str fin g s'"
  unfolding rcv_ok_def using got_ok_same by metis

lemma rcv_ok_leave:
  "rcv_ok base str fin g s \<Longrightarrow> t_state (tcp s') \<notin> opening_states \<Longrightarrow> t_state (tcp s') \<noteq> TCPS_ESTABLISHED \<Longrightarrow>
   (t_state (tcp s') \<in> {TCPS_CLOSE_WAIT, TCPS_LAST_ACK} \<Longrightarrow> t_state (tcp s) \<in> {TCPS_CLOSE_WAIT, TCPS_LAST_ACK}) \<Longrightarrow>
   recv_buf s' = recv_buf s \<Longrightarrow> recv_len s' = recv_len s \<Longrightarrow> recv_cap s' = recv_cap s \<Longrightarrow> rcv_ok base str fin g s'"
  unfolding rcv_ok_def using got_ok_leave by metis

lemma same_offset:
  fixes base :: u32
  assumes "base + of_nat j = base + of_nat k" "j < 2 ^ 32" "k < 2 ^ 32"
  shows "j = k"
proof -
  have "unat (of_nat j :: u32) = unat (of_nat k :: u32)" using assms(1) by simp
  then show ?thesis using assms(2,3) by (simp add: unat_of_nat)
qed

lemma take_splice: "off \<le> length xs \<Longrightarrow> take (off + length bs) (splice off bs xs) = take off xs @ bs"
  by (simp add: splice_def)

lemma take_of_take:
  assumes "d = take (length d) ys"
  shows "take m d = take (length (take m d)) ys"
proof -
  have "take m d = take m (take (length d) ys)" by (rule arg_cong [OF assms, of "take m"])
  also have "\<dots> = take (min m (length d)) ys" by (simp only: take_take)
  also have "min m (length d) = length (take m d)" by (simp add: min.commute)
  finally show ?thesis .
qed

lemma take_data_rcv_ok:
  assumes r: "rcv_ok base str fin g s" and est: "t_state (tcp s) = TCPS_ESTABLISHED" and buf: "recv_buf s = Some buf"
    and room: "recv_cap s > recv_len s" and seq: "sg_seq sg = rcv_nxt (tcp s)" and sg: "seg_ok base str fin sg" "sg_data sg \<noteq> []"
    and len: "length str < 2 ^ 32"
  shows "rcv_ok base str fin g (tcp_take_data sg buf s)"
proof -
  let ?L = "unat (recv_len s)"
  define d where "d = g @ take ?L buf"
  have cap: "recv_cap s = 4096" "length buf = 4096" and g: "got_ok base str fin (tcp s) d"
    using r buf unfolding rcv_ok_def d_def by auto
  have gd: "take (length d) str = d" "length d \<le> length str" "rcv_nxt (tcp s) = base + of_nat (length d)"
    using g est unfolding got_ok_def by metis+
  have L: "?L < 4096" using room cap by (simp add: word_less_nat_alt)
  have "recv_len s \<le> 4096" using L by (simp add: word_le_nat_alt)
  then have rm: "unat (recv_cap s - recv_len s) = 4096 - ?L" using cap(1) by (simp add: unat_diff_le)
  obtain k where k: "sg_seq sg = base + of_nat k" "k + length (sg_data sg) \<le> length str" "sg_data sg = take (length (sg_data sg)) (drop k str)"
    using sg unfolding seg_ok_def by blast
  have kd: "k = length d"
    by (rule same_offset [of base]) (use seq k(1,2) gd(2,3) len in simp_all)
  define x where "x = take (4096 - ?L) (sg_data sg)"
  have x: "length x \<le> 4096 - ?L" "length x \<le> length (sg_data sg)" by (simp_all add: x_def)
  have xs: "x = take (length x) (drop (length d) str)"
    using take_of_take [OF k(3)] unfolding kd x_def .
  have ln: "unat (recv_len s + of_nat (length x)) = ?L + length x"
    using x(1) L by (subst unat_add_no_wrap) (simp_all add: unat_of_nat_len)
  have nd: "g @ take (?L + length x) (splice ?L x buf) = d @ x" using take_splice [of ?L buf x] cap(2) L by (simp add: d_def)
  have "take (length d + length x) str = d @ x" using gd(1) xs unfolding take_add by metis
  then have pre: "d @ x = take (length (d @ x)) str" by simp
  have le: "length (d @ x) \<le> length str" using k(2) x(2) unfolding kd by simp
  let ?s = "(in_tcp (\<lambda>t. t\<lparr>rcv_nxt := rcv_nxt t + of_nat (length x)\<rparr>) s)
    \<lparr>recv_buf := Some (splice ?L x buf), recv_len := recv_len s + of_nat (length x), remote_addr := sg_src sg\<rparr>"
  have td: "tcp_take_data sg buf s = ?s" unfolding tcp_take_data_def Let_def rm x_def ..
  have t: "t_state (tcp ?s) = TCPS_ESTABLISHED" "rcv_nxt (tcp ?s) = base + of_nat (length (d @ x))"
    using est gd(3) by simp_all
  have "got_ok base str fin (tcp ?s) (d @ x)"
    unfolding got_ok_def t(1) by (intro conjI pre le impI t(2)) (simp_all add: opening_states_def)
  then have "got_ok base str fin (tcp ?s) (g @ take (?L + length x) (splice ?L x buf))" unfolding nd .
  moreover have "?L + length x \<le> 4096" using x(1) L by simp
  moreover have "length (splice ?L x buf) = 4096" using calculation(2) cap(2) by simp
  ultimately show ?thesis unfolding td rcv_ok_def by (simp add: ln cap(1))
qed

lemma passive_fin_rcv_ok:
  assumes r: "rcv_ok base str fin g s" and est: "t_state (tcp s) = TCPS_ESTABLISHED" and sg: "seg_ok base str fin sg" "sg_data sg = []"
    and len: "length str < 2 ^ 32"
  shows "rcv_ok base str fin g (snd (tcp_passive_fin sg act s))"
proof (cases "fin_here sg s")
  case False
  then show ?thesis using r by (simp add: tcp_passive_fin_def)
next
  case True
  obtain buf where buf: "recv_buf s = Some buf" "length buf = 4096" "got_ok base str fin (tcp s) (g @ take (unat (recv_len s)) buf)"
    using r by (auto simp: rcv_ok_def)
  define d where "d = g @ take (unat (recv_len s)) buf"
  have gd: "take (length d) str = d" "length d \<le> length str" "rcv_nxt (tcp s) = base + of_nat (length d)"
    using buf(3) est unfolding d_def got_ok_def by metis+
  have at_fin: "fin" "sg_seq sg = base + of_nat (length str)"
    using True sg by (auto simp: fin_here_def seg_ok_def)
  then have "length str = length d"
    using True sg(2) gd len by (intro same_offset [of base]) (auto simp: fin_here_def)
  then have "d = str" using gd(1) by simp
  then have "got_ok base str fin ((tcp s)\<lparr>rcv_nxt := rcv_nxt (tcp s) + 1, t_state := TCPS_CLOSE_WAIT\<rparr>) d"
    using at_fin(1) by (simp add: got_ok_def opening_states_def)
  then show ?thesis using r buf True by (simp add: rcv_ok_def tcp_passive_fin_def d_def)
qed

lemma process_keeps_buffer:
  "t_state (tcp s) \<noteq> TCPS_ESTABLISHED \<Longrightarrow> recv_buf (snd (tcp_process now sg s)) = recv_buf s"
  "t_state (tcp s) \<noteq> TCPS_ESTABLISHED \<Longrightarrow> recv_len (snd (tcp_process now sg s)) = recv_len s"
  "t_state (tcp s) \<noteq> TCPS_ESTABLISHED \<Longrightarrow> recv_cap (snd (tcp_process now sg s)) = recv_cap s"
  by (auto simp: tcp_process_def tcp_syn_sent_def tcp_fin_wait_1_def start_time_wait_def Let_def case_prod_beta split: tcp_state.splits)

lemma established_rcv_ok:
  assumes r: "rcv_ok base str fin g s" and est: "t_state (tcp s) = TCPS_ESTABLISHED" and sg: "seg_ok base str fin sg"
    and len: "length str < 2 ^ 32"
  shows "rcv_ok base str fin g (snd (tcp_established sg s))"
proof -
  define s1 where "s1 = (if fl (sg_flags sg) TCP_FLAG_ACK then in_tcp (\<lambda>t. t\<lparr>snd_wnd := ucast (sg_win sg)\<rparr>) s else s)"
  have r1: "rcv_ok base str fin g s1" by (rule rcv_ok_same [OF r]) (simp_all add: s1_def)
  have e1: "t_state (tcp s1) = TCPS_ESTABLISHED" using est by (simp add: s1_def)
  obtain buf where buf: "recv_buf s1 = Some buf" using r1 by (auto simp: rcv_ok_def)
  show ?thesis
  proof (cases "sg_data sg = []")
    case True
    then show ?thesis
      using passive_fin_rcv_ok [OF r1 e1 sg True len] unfolding tcp_established_def s1_def [symmetric] Let_def by simp
  next
    case False
    then have nofin: "\<not> fin_here sg s'" for s' using sg by (auto simp: seg_ok_def fin_here_def)
    show ?thesis
      using r1 take_data_rcv_ok [OF r1 e1 buf _ _ sg False len] False
      unfolding tcp_established_def s1_def [symmetric] Let_def tcp_passive_fin_def by (simp add: nofin buf)
  qed
qed

lemma input_rcv_ok:
  assumes r: "rcv_ok base str fin g s" and sg: "seg_ok base str fin sg" and len: "length str < 2 ^ 32"
  shows "rcv_ok base str fin g (snd (tcp_input_locked now sg s))"
proof (cases "fl (sg_flags sg) TCP_FLAG_RST")
  case True
  show ?thesis
    by (rule rcv_ok_leave [OF r]) (simp_all add: True tcp_input_locked_def case_prod_beta opening_states_def)
next
  case False
  let ?s = "in_tcp (tcp_ack_locked now sg) s"
  have r1: "rcv_ok base str fin g ?s" by (rule rcv_ok_same [OF r]) simp_all
  have o: "t_state (tcp ?s) \<notin> opening_states" using r1 by (auto simp: rcv_ok_def got_ok_def)
  have e: "snd (tcp_input_locked now sg s) = snd (tcp_process now sg ?s)" using False by (simp add: tcp_input_locked_def)
  show ?thesis unfolding e
  proof (cases "t_state (tcp ?s) = TCPS_ESTABLISHED")
    case True
    then show "rcv_ok base str fin g (snd (tcp_process now sg ?s))"
      using established_rcv_ok [OF r1 True sg len] by (simp add: tcp_process_def)
  next
    case False
    then show "rcv_ok base str fin g (snd (tcp_process now sg ?s))"
      using process_state [OF o, of now sg] process_keeps_buffer [OF False, of now sg]
      by (intro rcv_ok_leave [OF r1]) auto
  qed
qed

lemma take_split: "k \<le> r \<Longrightarrow> take k xs @ take (r - k) (drop k xs) = take r xs"
  by (metis le_add_diff_inverse take_add)

lemma read_rcv_ok:
  assumes r: "rcv_ok base str fin g s" and n: "0 \<le> n" "n < 2 ^ 31" and c: "socket_recv_copy_locked n s = (bs, s')"
  shows "rcv_ok base str fin (g @ bs) s'"
proof -
  obtain buf where buf: "recv_buf s = Some buf" "length buf = 4096" "recv_cap s = 4096" "unat (recv_len s) \<le> 4096"
    "got_ok base str fin (tcp s) (g @ take (unat (recv_len s)) buf)" using r by (auto simp: rcv_ok_def)
  define k where "k = (if word_of_int n > recv_len s then recv_len s else word_of_int n)"
  let ?r = "unat (recv_len s)" and ?k = "unat k"
  have k: "k \<le> recv_len s" by (auto simp: k_def)
  then have kr: "?k \<le> ?r" by (simp add: word_le_nat_alt)
  have d: "unat (recv_len s - k) = ?r - ?k" using k by (rule unat_diff_le)
  have bs: "bs = take ?k buf"
    and s': "s' = s\<lparr>recv_buf := (if k < recv_len s then Some (splice 0 (sub ?k (?r - ?k) buf) buf) else Some buf), recv_len := recv_len s - k\<rparr>"
    using c buf(1) unfolding socket_recv_copy_locked_def k_def [symmetric] Let_def by auto
  have l: "length (sub ?k (?r - ?k) buf) = ?r - ?k" using buf(2,4) kr by (simp add: sub_def)
  let ?b = "if k < recv_len s then splice 0 (sub ?k (?r - ?k) buf) buf else buf"
  have b: "recv_buf s' = Some ?b" "length ?b = 4096" using l buf(2,4) by (simp_all add: s')
  have "take (?r - ?k) ?b = take (?r - ?k) (drop ?k buf)"
  proof (cases "k < recv_len s")
    case True
    then show ?thesis using take_splice [of 0 buf "sub ?k (?r - ?k) buf"] l by (simp add: sub_def)
  next
    case False
    then have "?r - ?k = 0" using kr by (simp add: word_less_nat_alt)
    then show ?thesis by simp
  qed
  then have "bs @ take (?r - ?k) ?b = take ?r buf" using take_split [OF kr, of buf] by (simp add: bs)
  then have "got_ok base str fin (tcp s') ((g @ bs) @ take (unat (recv_len s')) ?b)"
    using buf(5) by (simp add: s' d)
  then show ?thesis using b buf(3,4) d by (auto simp: rcv_ok_def s')
qed

lemma output_rcv_ok: "rcv_ok base str fin g s \<Longrightarrow> rcv_ok base str fin g (tcp_output_locked page now data s)"
  by (rule rcv_ok_same) (simp_all add: tcp_output_locked_def Let_def)

lemma close_rcv_ok:
  assumes "rcv_ok base str fin g s"
  shows "rcv_ok base str fin g (snd (tcp_close_locked now s))"
proof -
  have "t_state (tcp s) \<notin> opening_states" using assms by (auto simp: rcv_ok_def got_ok_def)
  then show ?thesis
    by (cases "t_state (tcp s)")
      (auto simp: tcp_close_locked_def tcp_close_state_def Let_def opening_states_def intro: rcv_ok_same [OF assms] rcv_ok_leave [OF assms])
qed

subsection \<open>Every step keeps the invariant\<close>

lemma link_okI:
  assumes "link_ok base L"
    and "snd_ok base (stream L) s" "t_state (tcp s) = TCPS_ESTABLISHED \<longrightarrow> sending L"
  shows "link_ok base (L\<lparr>snd_sock := s\<rparr>)"
proof -
  let ?L = "L\<lparr>snd_sock := s\<rparr>"
  have f: "\<not> sending L \<Longrightarrow> \<not> sending ?L" using assms(3) by (auto simp: sending_def)
  have "rcv_ok base (stream L) (\<not> sending ?L) (got L) (rcv_sock L)"
    using assms(1) rcv_ok_fin f by (auto simp: link_ok_def)
  moreover have "list_all (seg_ok base (stream L) (\<not> sending ?L)) (history L)"
    using assms(1) f by (auto simp: link_ok_def list_all_iff intro: seg_ok_fin)
  ultimately show ?thesis using assms(2) by (simp add: link_ok_def)
qed

lemma put_seg_ok: "link_ok base L \<Longrightarrow> seg_ok base (stream L) (\<not> sending L) sg \<Longrightarrow> link_ok base (put_seg sg L)"
  by (simp add: link_ok_def put_seg_def sending_def)

lemma link_rcvI:
  "link_ok base L \<Longrightarrow> rcv_ok base (stream L) (\<not> sending L) (got L @ bs) s \<Longrightarrow> link_ok base (L\<lparr>rcv_sock := s, got := got L @ bs\<rparr>)"
  by (simp add: link_ok_def sending_def)

lemma link_rcvI0:
  "link_ok base L \<Longrightarrow> rcv_ok base (stream L) (\<not> sending L) (got L) s \<Longrightarrow> link_ok base (L\<lparr>rcv_sock := s\<rparr>)"
  by (simp add: link_ok_def sending_def)

lemma send_step_ok:
  assumes ok: "link_ok base L" and est: "t_state (tcp (snd_sock L)) = TCPS_ESTABLISHED"
    and sg: "sg_seq sg = snd_nxt (tcp (snd_sock L))" "sg_data sg = data" "sg_flags sg = TCP_FLAG_ACK OR TCP_FLAG_PSH"
  shows "link_ok base (put_seg sg (L\<lparr>snd_sock := tcp_output_locked page now data (snd_sock L), stream := stream L @ data\<rparr>))"
proof (rule put_seg_ok)
  let ?L = "L\<lparr>snd_sock := tcp_output_locked page now data (snd_sock L), stream := stream L @ data\<rparr>"
  have so: "snd_ok base (stream L) (snd_sock L)" and fin: "(\<not> sending L) = False" using ok est by (simp_all add: link_ok_def sending_def)
  have seq: "sg_seq sg = base + of_nat (length (stream L))" using so est sg(1) by (simp add: snd_ok_def)
  show "link_ok base ?L"
    using ok output_snd_ok [OF so est, of data page now] unfolding link_ok_def fin
    by (auto simp: sending_def list_all_iff intro: rcv_ok_grow seg_ok_grow)
  show "seg_ok base (stream ?L) (\<not> sending ?L) sg"
    unfolding seg_ok_def using sg seq by (auto intro!: exI [of _ "length (stream L)"])
qed

lemma link_step_ok:
  assumes "link_step L L'" "link_ok base L" "length (stream L') < 2 ^ 32"
  shows "link_ok base L'"
  using assms
proof (induction rule: link_step.induct)
  case (Send L data payload sg page now)
  then show ?case by (intro send_step_ok) auto
next
  case (Resend now L data s sg)
  then have so: "snd_ok base (stream L) (snd_sock L)" by (simp add: link_ok_def)
  have "link_ok base (L\<lparr>snd_sock := s\<rparr>)"
    using retransmit_snd_ok [OF so Resend(1)] Resend by (intro link_okI) (auto simp: sending_def)
  moreover have "seg_ok base (stream L) fin sg" for fin
    using retransmit_data [OF so Resend(1)] Resend(2-4) by (simp add: seg_ok_def)
  ultimately show ?case by (intro put_seg_ok) simp_all
next
  case (Give_up now L act s b)
  then have so: "snd_ok base (stream L) (snd_sock L)" by (simp add: link_ok_def)
  show ?case using retransmit_snd_ok [OF so Give_up(1)] Give_up by (intro link_okI) (auto simp: sending_def)
next
  case (Finish now L s sg)
  then have so: "snd_ok base (stream L) (snd_sock L)" by (simp add: link_ok_def)
  note c = close_snd_ok [OF so Finish(1)]
  have "link_ok base (L\<lparr>snd_sock := s\<rparr>)" using c Finish by (intro link_okI) auto
  moreover have "seg_ok base (stream L) True sg" using c Finish(2-4) by (simp add: seg_ok_def)
  ultimately show ?case using c by (intro put_seg_ok) (simp_all add: sending_def)
next
  case (Finish_again now L b s sg)
  then have so: "snd_ok base (stream L) (snd_sock L)" by (simp add: link_ok_def)
  note c = fin_snd_ok [OF so Finish_again(1)]
  have "link_ok base (L\<lparr>snd_sock := s\<rparr>)" using c Finish_again by (intro link_okI) (auto simp: sending_def)
  moreover have "seg_ok base (stream L) True sg" using c Finish_again(2-4) by (simp add: seg_ok_def)
  ultimately show ?case using c by (intro put_seg_ok) (auto simp: sending_def)
next
  case (Finish_lost now L b s)
  then have so: "snd_ok base (stream L) (snd_sock L)" by (simp add: link_ok_def)
  show ?case using fin_snd_ok [OF so Finish_lost(1)] Finish_lost by (intro link_okI) (auto simp: sending_def)
next
  case (Control sg L)
  then show ?case by (intro put_seg_ok) (simp_all add: seg_ok_def)
next
  case (Answer L now sg)
  then have so: "snd_ok base (stream L) (snd_sock L)" by (simp add: link_ok_def)
  show ?case using input_snd_ok [OF so, of now sg] Answer by (intro link_okI) (auto simp: sending_def)
next
  case (Deliver sg L now)
  then show ?case by (intro link_rcvI0 input_rcv_ok) (auto simp: link_ok_def list_all_iff)
next
  case (Read n L bs s)
  then show ?case by (intro link_rcvI read_rcv_ok) (auto simp: link_ok_def)
next
  case (Reply L page now data)
  then show ?case by (intro link_rcvI0 output_rcv_ok) (auto simp: link_ok_def)
next
  case (Leave L now)
  then show ?case by (intro link_rcvI0 close_rcv_ok) (auto simp: link_ok_def)
qed

lemma link_step_grows: "link_step L L' \<Longrightarrow> length (stream L) \<le> length (stream L')"
  by (induction rule: link_step.induct) (simp_all add: put_seg_def)

lemma link_new_ok: "link_new L \<Longrightarrow> link_ok (snd_nxt (tcp (snd_sock L))) L"
  by (auto simp: link_new_def link_ok_def snd_ok_def rcv_ok_def got_ok_def opening_states_def)

lemma reachable_link_ok:
  assumes "link_step\<^sup>*\<^sup>* L0 L" "link_new L0" "length (stream L) < 2 ^ 32"
  shows "link_ok (snd_nxt (tcp (snd_sock L0))) L"
  using assms
proof (induction rule: rtranclp_induct)
  case base
  then show ?case by (simp add: link_new_ok)
next
  case (step L1 L2)
  then show ?case using link_step_grows [OF step(2)] link_step_ok [OF step(2)] by simp
qed


definition tcb0 :: tcpcb where
  "tcb0 = \<lparr>t_state = TCPS_ESTABLISHED, iss = 1000, irs = 1000, snd_una = 1001, snd_nxt = 1001, snd_wnd = 4096, rcv_nxt = 1001, rcv_wnd = 4096,
     rto = 100, rtt_est = 0, retransmits = 0, last_send = 0, unacked_buf = None, unacked_len = 0, unacked_seq = 0, fin_seq = 0,
     time_wait_start = 0, close_pending = False\<rparr>"

definition sock0 :: socket where
  "sock0 = \<lparr>so_state = SOCK_ESTAB, so_type = SOCK_STREAM, so_family = AF_INET, local_addr = \<lparr>sin_port = 40000, s_addr = 0x0a000002\<rparr>,
     remote_addr = \<lparr>sin_port = 80, s_addr = 0x0a000001\<rparr>, recv_buf = Some (replicate 4096 0), recv_len = 0, recv_cap = 4096, tcp = tcb0,
     so_ref = 1, shut_rd = False, shut_wr = False\<rparr>"

definition link0 :: tcp_link where
  "link0 = \<lparr>snd_sock = sock0, rcv_sock = sock0, stream = [], history = [], got = []\<rparr>"


end
