(* ===== verification/Tcp_Ends.thy ===== *)
theory Tcp_Ends
  imports Tcp_Stream
begin

text \<open>
  How TCP connections and their sockets end when they do not end as they should: two ends that close at the same time, a second
  segment that is lost, a connection over the loopback interface, and a socket that is shut down before it is closed.
\<close>

subsection \<open>Closing at the same time\<close>

definition fin_seg :: "socket \<Rightarrow> tcp_seg" where
  "fin_seg s = \<lparr>sg_src = local_addr s, sg_dst = remote_addr s, sg_seq = fin_seq (tcp s), sg_ack = rcv_nxt (tcp s),
     sg_flags = TCP_FLAG_FIN OR TCP_FLAG_ACK, sg_win = tcp_recv_window_locked s, sg_data = []\<rparr>"

definition ack_seg :: "socket \<Rightarrow> tcp_seg" where
  "ack_seg s = \<lparr>sg_src = local_addr s, sg_dst = remote_addr s, sg_seq = snd_nxt (tcp s), sg_ack = rcv_nxt (tcp s),
     sg_flags = TCP_FLAG_ACK, sg_win = tcp_recv_window_locked s, sg_data = []\<rparr>"

lemma close_established:
  assumes "t_state (tcp s) = TCPS_ESTABLISHED" "s' = snd (tcp_close_locked now s)"
  shows "t_state (tcp s') = TCPS_FIN_WAIT_1" "fin_seq (tcp s') = snd_nxt (tcp s)" "snd_nxt (tcp s') = snd_nxt (tcp s) + 1"
    "rcv_nxt (tcp s') = rcv_nxt (tcp s)" "unacked_buf (tcp s') = None"
  using assms by (simp_all add: tcp_close_locked_def tcp_close_state_def Let_def)

lemma no_unacked: "unacked_buf t = None \<Longrightarrow> tcp_ack_locked now sg t = t"
  by (simp add: tcp_ack_locked_def)

lemma fin_crosses:
  assumes "t_state (tcp s) = TCPS_FIN_WAIT_1" "unacked_buf (tcp s) = None"
    "fin_seq (tcp p) = rcv_nxt (tcp s)" "rcv_nxt (tcp p) = fin_seq (tcp s)" "s' = snd (tcp_input_locked now (fin_seg p) s)"
  shows "t_state (tcp s') = TCPS_FIN_WAIT_1" "rcv_nxt (tcp s') = rcv_nxt (tcp s) + 1" "fin_seq (tcp s') = fin_seq (tcp s)"
    "snd_nxt (tcp s') = snd_nxt (tcp s)" "unacked_buf (tcp s') = None"
  using assms
  by (simp_all add: tcp_input_locked_def tcp_process_def tcp_fin_wait_1_def fin_acked_def fin_here_def fin_seg_def no_unacked)

lemma ack_of_fin:
  assumes "t_state (tcp s) = TCPS_FIN_WAIT_1" "unacked_buf (tcp s) = None" "rcv_nxt (tcp p) = fin_seq (tcp s) + 1"
    "s' = snd (tcp_input_locked now (ack_seg p) s)"
  shows "t_state (tcp s') = TCPS_FIN_WAIT_2" "rcv_nxt (tcp s') = rcv_nxt (tcp s)" "unacked_buf (tcp s') = None"
  using assms
  by (simp_all add: tcp_input_locked_def tcp_process_def tcp_fin_wait_1_def fin_acked_def fin_here_def ack_seg_def no_unacked Let_def)

lemma fin_wait_2_stays:
  assumes "t_state (tcp s) = TCPS_FIN_WAIT_2" "unacked_buf (tcp s) = None" "\<not> fl (sg_flags sg) TCP_FLAG_RST"
    "fl (sg_flags sg) TCP_FLAG_FIN \<Longrightarrow> sg_seq sg + of_nat (length (sg_data sg)) + 1 = rcv_nxt (tcp s)"
  shows "tcp_input_locked now sg s = (Act_none, s)"
proof -
  have "in_tcp (tcp_ack_locked now sg) s = s" using assms(2) by (simp add: in_tcp_def no_unacked)
  moreover have "\<not> fin_here sg s"
  proof
    assume f: "fin_here sg s"
    then have "sg_seq sg + of_nat (length (sg_data sg)) + 1 = sg_seq sg + of_nat (length (sg_data sg))"
      using assms(4) by (simp add: fin_here_def)
    then show False by simp
  qed
  ultimately show ?thesis using assms by (simp add: tcp_input_locked_def tcp_process_def)
qed

lemma fin_wait_2_no_timer: "t_state (tcp (socks T ! i)) = TCPS_FIN_WAIT_2 \<Longrightarrow> slowtimo_one out i T = Ok T"
  by (simp add: slowtimo_one_def Let_def split: option.split)



subsection \<open>A second segment\<close>

text \<open>
  A segment that is sent while another is unacknowledged is never sent again. The first segment is kept and the second is not; when the
  acknowledgement of the first arrives, nothing is kept any more and the retransmission timer does nothing at any time, although the
  bytes of the second are outstanding.
\<close>

theorem tcp_second_segment_lost:
  assumes "t_state (tcp s) = TCPS_ESTABLISHED" "unacked_buf (tcp s) = None"
    and "s1 = tcp_output_locked True n1 d1 s" "s2 = tcp_output_locked page n2 d2 s1"
    and "fl (sg_flags sg) TCP_FLAG_ACK" "\<not> fl (sg_flags sg) TCP_FLAG_RST" "\<not> fl (sg_flags sg) TCP_FLAG_FIN" "sg_data sg = []"
      "sg_ack sg = snd_nxt (tcp s1)"
    and "s3 = snd (tcp_input_locked n3 sg s2)"
  shows "t_state (tcp s3) = TCPS_ESTABLISHED \<and> snd_nxt (tcp s3) = sg_ack sg + of_nat (length d2) \<and>
    (\<forall>now. tcp_retransmit_locked now s3 = (Timer_none, s3))"
proof -
  have s1: "unacked_buf (tcp s1) = Some d1" "unacked_len (tcp s1) = of_nat (length d1)" "unacked_seq (tcp s1) = snd_nxt (tcp s)"
    "snd_nxt (tcp s1) = snd_nxt (tcp s) + of_nat (length d1)" "t_state (tcp s1) = TCPS_ESTABLISHED"
    using assms(1-3) by (simp_all add: tcp_output_locked_def Let_def)
  have s2: "unacked_buf (tcp s2) = Some d1" "unacked_len (tcp s2) = of_nat (length d1)" "unacked_seq (tcp s2) = snd_nxt (tcp s)"
    "snd_nxt (tcp s2) = snd_nxt (tcp s1) + of_nat (length d2)" "t_state (tcp s2) = TCPS_ESTABLISHED"
    using s1 assms(4) by (simp_all add: tcp_output_locked_def Let_def)
  have "tcp_seq_leq (unacked_seq (tcp s2) + unacked_len (tcp s2)) (sg_ack sg)"
    using s1 s2 assms(9) by (simp add: tcp_seq_leq_def)
  then have t: "unacked_buf (tcp_ack_locked n3 sg (tcp s2)) = None"
    using assms(5) s2(1) by (simp add: tcp_ack_locked_def Let_def)
  have "unacked_buf (tcp s3) = None" "t_state (tcp s3) = TCPS_ESTABLISHED" "snd_nxt (tcp s3) = snd_nxt (tcp s2)"
    using assms(5-8,10) s2(5) t
    by (simp_all add: tcp_input_locked_def tcp_process_def tcp_established_def tcp_passive_fin_def fin_here_def Let_def)
  then show ?thesis using s2(4) assms(9) by (simp add: tcp_retransmit_locked_def)
qed

definition ack1 :: tcp_seg where
  "ack1 = \<lparr>sg_src = remote_addr sock0, sg_dst = local_addr sock0, sg_seq = 1001, sg_ack = 1002, sg_flags = TCP_FLAG_ACK, sg_win = 4096, sg_data = []\<rparr>"

theorem tcp_second_segment_lost_witness:
  "let s3 = snd (tcp_input_locked 3 ack1 (tcp_output_locked True 2 [66] (tcp_output_locked True 1 [65] sock0)))
   in t_state (tcp s3) = TCPS_ESTABLISHED \<and> snd_nxt (tcp s3) = 1003 \<and> (\<forall>now. tcp_retransmit_locked now s3 = (Timer_none, s3))"
  unfolding Let_def
  using tcp_second_segment_lost [where s = sock0 and sg = ack1 and ?n1.0 = 1 and ?d1.0 = "[65]" and page = True and ?n2.0 = 2 and ?d2.0 = "[66]"
      and ?n3.0 = 3, OF _ _ refl refl _ _ _ _ _ refl]
  by (simp add: sock0_def tcb0_def ack1_def tcp_output_locked_def)

subsection \<open>References\<close>

lemma emit_socks: "tcp_emit out ifp src dst seq ack flags win payload T = Ok T' \<Longrightarrow> socks T' = socks T"
  by (auto simp: tcp_emit_def tcp_send_segment_def split: if_splits)

lemma set_sock_simps [simp]:
  "socks (set_sock i s T) = (socks T)[i := s]" "tnet (set_sock i s T) = tnet T" "tcp_iss (set_sock i s T) = tcp_iss T"
  by (simp_all add: set_sock_def)

lemma route_of_set_sock [simp]: "route_of dst (set_sock i s T) = route_of dst T" "loopback_if ifp (set_sock i s T) = loopback_if ifp T"
  by (simp_all add: route_of_def loopback_if_def)

lemma hold_teardown_simps [simp]:
  "tcp (hold_teardown s) = (tcp s)\<lparr>close_pending := True\<rparr>" "so_ref (hold_teardown s) = so_ref s + 1" "so_type (hold_teardown s) = so_type s"
  "so_family (hold_teardown s) = so_family s" "remote_addr (hold_teardown s) = remote_addr s" "local_addr (hold_teardown s) = local_addr s"
  by (simp_all add: hold_teardown_def)

lemma deref_more: "so_ref s = 2 \<Longrightarrow> socket_deref_locked s = s\<lparr>so_ref := 1\<rparr>"
  by (simp add: socket_deref_locked_def)

lemma deref_last: "so_ref s = 1 \<Longrightarrow> so_ref (socket_deref_locked s) = 0 \<and> so_state (socket_deref_locked s) = SOCK_CLOSED"
  by (simp add: socket_deref_locked_def socket_reset_locked_def)

text \<open>
  Claim C24. Closing a connection over the loopback interface does not end it and loses the socket. The descriptor's reference is exchanged for the one
  that the teardown holds, but there is no teardown: the connection stays established, the other end does not change and so sees no end of
  the stream, and the timers never look at it; the socket is in use for ever.
\<close>

theorem tcp_loopback_close_leaks:
  assumes "i < length (socks T)" "so_type (socks T ! i) = SOCK_STREAM" "t_state (tcp (socks T ! i)) = TCPS_ESTABLISHED" "so_ref (socks T ! i) = 1"
    "route_of (s_addr (remote_addr (socks T ! i))) T = Some (ifp, src)" "loopback_if ifp T"
  shows "\<exists>T'. socket_close out i T = Ok T' \<and> so_ref (socks T' ! i) = 1 \<and> t_state (tcp (socks T' ! i)) = TCPS_ESTABLISHED \<and>
    tnet T' = tnet T \<and> (\<forall>j. j \<noteq> i \<longrightarrow> socks T' ! j = socks T ! j) \<and> slowtimo_one out i T' = Ok T'"
proof -
  let ?s = "(hold_teardown (socks T ! i))\<lparr>so_ref := 1\<rparr>"
  let ?T = "set_sock i (hold_teardown (socks T ! i)) T"
  have c: "tcp_close out i ifp ?T = Ok (0, ?T)" using assms by (simp add: tcp_close_def)
  have d: "socket_deref_locked (hold_teardown (socks T ! i)) = ?s" by (rule deref_more) (use assms in simp)
  have cl: "socket_close out i T = Ok (set_sock i ?s ?T)"
    using assms by (simp add: socket_close_def needs_fin_def Let_def c socket_deref_def d)
  have "slowtimo_one out i (set_sock i ?s ?T) = Ok (set_sock i ?s ?T)"
    using assms by (simp add: slowtimo_one_def Let_def tcp_retransmit_check_def)
  with cl assms show ?thesis by auto
qed

text \<open>The socket after \<open>shutdown\<close> has started the teardown, and what remains to be done then.\<close>

definition shut_sock :: "nat \<Rightarrow> tsys \<Rightarrow> socket" where
  "shut_sock i T = snd (tcp_close_locked (net_ticks (tnet T)) (hold_teardown ((socks T ! i)\<lparr>shut_wr := True\<rparr>)))"

lemma shut_sock_simps:
  assumes "t_state (tcp (socks T ! i)) = TCPS_ESTABLISHED" "so_ref (socks T ! i) = 1"
  shows "tcp_close_locked (net_ticks (tnet T)) (hold_teardown ((socks T ! i)\<lparr>shut_wr := True\<rparr>)) = (True, shut_sock i T)"
    "so_ref (shut_sock i T) = 2" "close_pending (tcp (shut_sock i T))"
  using assms by (simp_all add: shut_sock_def tcp_close_locked_def tcp_close_state_def Let_def)

lemma sys_shutdown_eq:
  assumes "i < length (socks T)" "so_type (socks T ! i) = SOCK_STREAM" "t_state (tcp (socks T ! i)) = TCPS_ESTABLISHED" "so_ref (socks T ! i) = 1"
    "route_of (s_addr (remote_addr (socks T ! i))) T = Some (ifp, src)" "\<not> loopback_if ifp T"
  shows "sys_shutdown out i 1 T =
    (let s = shut_sock i T
     in kbind (tcp_emit out ifp (local_addr s) (remote_addr s) (fin_seq (tcp s)) (rcv_nxt (tcp s)) (TCP_FLAG_FIN OR TCP_FLAG_ACK)
          (tcp_recv_window_locked s) [] (set_sock i s (set_sock i (hold_teardown ((socks T ! i)\<lparr>shut_wr := True\<rparr>)) T)))
        (\<lambda>T. Ok (0, socket_deref i T)))"
proof -
  have a: "kbind (kbind (kbind m (\<lambda>T. Ok (0 :: int, T))) (\<lambda>(r, T). Ok T)) g = kbind m g" for m :: "tsys kres" and g :: "tsys \<Rightarrow> (int \<times> tsys) kres"
    by (cases m) simp_all
  show ?thesis
    using assms by (simp add: sys_shutdown_def needs_fin_def Let_def tcp_close_def shut_sock_simps(1) a)
qed

text \<open>
  Claim C23. \<open>shutdown\<close> gives away the descriptor's reference. It takes a reference for the teardown and drops one at once, so that the count is that
  of the open descriptor alone while the connection still owes a reference; when the connection then ends, here by a reset from the
  other side, the socket is freed under the open descriptor.
\<close>

theorem tcp_shutdown_frees:
  assumes "i < length (socks T)" "so_type (socks T ! i) = SOCK_STREAM" "t_state (tcp (socks T ! i)) = TCPS_ESTABLISHED" "so_ref (socks T ! i) = 1"
    "route_of (s_addr (remote_addr (socks T ! i))) T = Some (ifp, src)" "\<not> loopback_if ifp T"
    "sys_shutdown out i 1 T = Ok (r, T1)" "fl (sg_flags sg) TCP_FLAG_RST"
  shows "so_ref (socks T1 ! i) = 1 \<and> fst (tcp_input_locked now sg (socks T1 ! i)) = Act_deref \<and>
    so_ref (socket_deref_locked (snd (tcp_input_locked now sg (socks T1 ! i)))) = 0"
proof -
  obtain T2 where T2: "tcp_emit out ifp (local_addr (shut_sock i T)) (remote_addr (shut_sock i T)) (fin_seq (tcp (shut_sock i T)))
      (rcv_nxt (tcp (shut_sock i T))) (TCP_FLAG_FIN OR TCP_FLAG_ACK) (tcp_recv_window_locked (shut_sock i T)) []
      (set_sock i (shut_sock i T) (set_sock i (hold_teardown ((socks T ! i)\<lparr>shut_wr := True\<rparr>)) T)) = Ok T2" "T1 = socket_deref i T2"
    using assms(7) unfolding sys_shutdown_eq [OF assms(1-6)] Let_def by auto
  have "socks T1 ! i = (shut_sock i T)\<lparr>so_ref := 1\<rparr>"
    using emit_socks [OF T2(1)] assms(1) shut_sock_simps(2) [OF assms(3,4)] by (simp add: T2(2) socket_deref_def deref_more)
  then show ?thesis
    using shut_sock_simps(3) [OF assms(3,4)] assms(8) deref_last by (simp add: tcp_input_locked_def case_prod_beta)
qed

text \<open>Systems with one socket, one route, over the loopback or the Ethernet interface of \<^const>\<open>net0\<close>, and no network buffers left.\<close>

definition one_sock :: "nat \<Rightarrow> tsys" where
  "one_sock ifp = \<lparr>socks = [sock0], tcp_iss = 1001, next_ephemeral = 40001,
     tnet = net0\<lparr>rtab := [\<lparr>rt_dst = 0, rt_mask = 0, rt_gateway = 0, rt_src = 0, rt_flags = RTF_UP, rt_ifp = Some ifp\<rparr>], mavail := 0\<rparr>\<rparr>"

definition tsys_lo :: tsys where "tsys_lo = one_sock 0"
definition tsys_eth :: tsys where "tsys_eth = one_sock (Suc 0)"

lemmas sys_defs = tsys_lo_def tsys_eth_def one_sock_def net0_def route_up_def RTF_UP_def lo0_def eth0_def IFF_UP_def IFF_LOOPBACK_def IFF_RUNNING_def

lemma sys_route: "route_of a tsys_lo = Some (0, 0)" "route_of a tsys_eth = Some (Suc 0, 0)"
  by (simp_all add: route_of_def route_lookup_def route_serves_def sys_defs)

lemma sys_loopback: "loopback_if 0 tsys_lo" "\<not> loopback_if (Suc 0) tsys_eth"
  by (simp_all add: loopback_if_def sys_defs)

lemma sys_socks: "socks tsys_lo = [sock0]" "socks tsys_eth = [sock0]" "mavail (tnet tsys_eth) = 0"
  by (simp_all add: tsys_lo_def tsys_eth_def one_sock_def)

lemma sock0_simps: "so_type sock0 = SOCK_STREAM" "t_state (tcp sock0) = TCPS_ESTABLISHED" "so_ref sock0 = 1"
  by (simp_all add: sock0_def tcb0_def)

theorem tcp_loopback_close_leaks_witness:
  "\<exists>T'. socket_close (\<lambda>ifp m s. Ok (0, s)) 0 tsys_lo = Ok T' \<and> so_ref (socks T' ! 0) = 1 \<and> t_state (tcp (socks T' ! 0)) = TCPS_ESTABLISHED \<and>
     slowtimo_one (\<lambda>ifp m s. Ok (0, s)) 0 T' = Ok T'"
  using tcp_loopback_close_leaks [of 0 tsys_lo 0 0 "\<lambda>ifp m s. Ok (0, s)"] by (auto simp: sys_route sys_loopback sys_socks sock0_simps)

lemma emit_no_buffers:
  "mavail (tnet T) = 0 \<Longrightarrow> \<exists>T'. tcp_emit out ifp a b seq ack flags win [] T = Ok T'"
  by (auto simp: tcp_emit_def tcp_send_segment_def ip_output_def ip_output_ttl_def mbuf_alloc_def tcp_segment_def MBUF_SIZE_def IP_HLEN_def
      TCP_HDR_LEN_def Let_def)

theorem tcp_shutdown_frees_witness:
  "\<exists>r T1. sys_shutdown (\<lambda>ifp m s. Ok (0, s)) 0 1 tsys_eth = Ok (r, T1) \<and> so_ref (socks T1 ! 0) = 1 \<and>
     so_ref (socket_deref_locked (snd (tcp_input_locked 9 (ack1\<lparr>sg_flags := TCP_FLAG_RST\<rparr>) (socks T1 ! 0)))) = 0"
proof -
  let ?out = "\<lambda>ifp m s. Ok (0, s)"
  have h: "0 < length (socks tsys_eth)" "so_type (socks tsys_eth ! 0) = SOCK_STREAM" "t_state (tcp (socks tsys_eth ! 0)) = TCPS_ESTABLISHED"
    "so_ref (socks tsys_eth ! 0) = 1" "route_of (s_addr (remote_addr (socks tsys_eth ! 0))) tsys_eth = Some (Suc 0, 0)"
    "\<not> loopback_if (Suc 0) tsys_eth"
    by (simp_all add: sys_route sys_loopback sys_socks sock0_simps)
  let ?s = "shut_sock 0 tsys_eth"
  have "mavail (tnet (set_sock 0 ?s (set_sock 0 (hold_teardown ((socks tsys_eth ! 0)\<lparr>shut_wr := True\<rparr>)) tsys_eth))) = 0" by (simp add: sys_socks)
  from emit_no_buffers [OF this, of ?out "Suc 0" "local_addr ?s" "remote_addr ?s" "fin_seq (tcp ?s)" "rcv_nxt (tcp ?s)" "TCP_FLAG_FIN OR TCP_FLAG_ACK"
      "tcp_recv_window_locked ?s"]
  obtain T2 where T2: "tcp_emit ?out (Suc 0) (local_addr ?s) (remote_addr ?s) (fin_seq (tcp ?s)) (rcv_nxt (tcp ?s)) (TCP_FLAG_FIN OR TCP_FLAG_ACK)
      (tcp_recv_window_locked ?s) [] (set_sock 0 ?s (set_sock 0 (hold_teardown ((socks tsys_eth ! 0)\<lparr>shut_wr := True\<rparr>)) tsys_eth)) = Ok T2"
    by blast
  have T1: "sys_shutdown ?out 0 1 tsys_eth = Ok (0, socket_deref 0 T2)" unfolding sys_shutdown_eq [OF h] Let_def T2 by simp
  have "fl (sg_flags (ack1\<lparr>sg_flags := TCP_FLAG_RST\<rparr>)) TCP_FLAG_RST" by (simp add: fl_def TCP_FLAG_RST_def)
  from tcp_shutdown_frees [OF h T1 this, of 9] show ?thesis using T1 by blast
qed

end
