(* ===== verification/Spec2Isabelle.thy ===== *)
theory Spec2Isabelle
  imports Kstring Libgcc Usercopy Pipe Bio Fs_Log Vma Sched Proc Xdr Inet_Own Pty Tcp_Ends
begin

text \<open>
  A verification library for the kernel of auxv6, a Unix-like system for 32-bit x86 derived from xv6.

  \<^bold>\<open>The program.\<close> The kernel (\<open>src/kernel\<close>, \<open>src/include\<close>) runs processes under a multi-level feedback scheduler, gives them pipes, signals and
  address spaces, stores files through a buffer cache and a write-ahead log on block devices, and has a network stack. The rest of
  the repository (\<open>libc\<close>, \<open>user\<close>, \<open>ports\<close>, \<open>6wm\<close>, \<open>tools\<close>) runs in user space or on the build host. The library models the parts of the kernel
  whose behaviour is a matter of data structures, protocols and interleavings, in one theory per group of source files. Each
  definition has the name of the C function or type it translates wherever it translates a whole one.

  \<^bold>\<open>Conventions.\<close> A C \<open>uint\<close> is a \<open>32 word\<close> and wraps; a C \<open>int\<close> is an \<open>int\<close> where its sign matters, a count is a \<open>nat\<close>. A pointer into a table is an
  index, a pointer that may be null an \<open>option\<close>. A routine that can panic or sleep returns \<open>kres\<close>; \<open>None\<close> as a result is a loop that does not end (\<open>Vma\<close>,
  \<open>Kstring\<close>) or an access outside a buffer (\<open>Xdr\<close>). A critical section is one atomic step, and a routine that releases its lock in the middle has one
  definition for each part, so that other steps may come between them. Allocation outcomes, drivers and page-table walks
  are arguments.

  \<^bold>\<open>The theories.\<close>

  \<^item> \<open>Prelude\<close>: machine types, outcomes, sequencing, and the shared lemmas on words, lists and table scans.

  \<^item> \<open>Kstring\<close> (\<open>core/string.c\<close>): the memory and string routines over a byte memory. \<open>memmove\<close> copies what was there also when the ranges overlap,
    \<open>memset\<close> fills exactly its range with its word-wide fast path, \<open>safestrcpy\<close> terminates its destination.

  \<^item> \<open>Libgcc\<close> (\<open>core/libgcc_compat.c\<close>): the shift-and-subtract division is 64-bit division, the signed wrappers truncate.

  \<^item> \<open>Usercopy\<close> (\<open>copyin\<close> and \<open>copyout\<close> of \<open>core/vm.c\<close>): page-wise copies over an address space that says what each page resolves to; what was
    copied out is copied in again.

  \<^item> \<open>Pipe\<close> (\<open>core/pipe.c\<close>): the ring with its free-running counters as a state, the read and write loops as steps between their sleeps. The ring
    implements the locale \<open>byte_fifo\<close>; every interleaving delivers the bytes in order; kernel readers lose no wakeup, user readers
    may, and polling is exact away from the counter wrap.

  \<^item> \<open>Bio\<close> (\<open>core/sleeplock.c\<close>, \<open>core/blockdev.c\<close>, \<open>driver/memide.c\<close>, \<open>fs/bio.c\<close>): block buffers with their locks, hash chains and recycling order. One buffer
    per block is an invariant; the device renaming in \<open>bdevrw\<close> can break it.

  \<^item> \<open>Fs_Log\<close> (\<open>fs/log.c\<close>): the log on top of the buffer cache, with the header block byte by byte. A commit is atomic under a crash between
    any two block writes; a transaction does not overflow a log of 31 blocks, and can overflow the 30 blocks that \<open>mkfs\<close> makes.

  \<^item> \<open>Vma\<close> (\<open>vm/vma.c\<close>): the growable sorted array of address ranges refines a partial map from addresses to attributes.

  \<^item> \<open>Sched\<close> (\<open>core/proc_sched.c\<close>): the linked run queues refine lists per level (locale \<open>run_queues\<close>); enqueueing follows the policy, picking takes the
    oldest of the highest level, a boost lifts every process.

  \<^item> \<open>Proc\<close> (\<open>core/proc.c\<close>, \<open>proc_signal.c\<close>, \<open>proc_lifecycle.c\<close>): sleep, wakeup, signals, alarms, allocation, exit and reaping as a step relation of
    the whole process table. Without stop signals no process runs on two CPUs; with them one can.

  \<^item> \<open>Byteorder\<close> and \<open>Xdr\<close> (\<open>include/net.h\<close>, \<open>net/xdr.c\<close>): the locale \<open>xdr_filter\<close> is the contract of an encoding routine, kept by integers, byte
    strings, strings and arrays of them, and gives their round trip; \<open>safe_decoder\<close> is the contract of a decoder on arbitrary bytes.

  \<^item> \<open>Netdev\<close>, \<open>Inet\<close> and \<open>Inet_Own\<close> (\<open>net/device.c\<close>, \<open>route.c\<close>, \<open>ethernet.c\<close>, \<open>arp.c\<close>, \<open>ip.c\<close>, \<open>icmp.c\<close>, \<open>udp.c\<close>, \<open>loopback.c\<close>): interfaces and
    routes, the packet paths in both directions, and who owns a buffer. Routing is longest prefix; a datagram sent over the
    loopback arrives; the locale \<open>output_routine\<close> is the contract of an interface's output routine, and with it no traffic makes the kernel
    misuse or lose a buffer.

  \<^item> \<open>Tcp\<close>, \<open>Tcp_Stream\<close> and \<open>Tcp_Ends\<close> (\<open>net/tcp.c\<close> and the stream sockets of \<open>net/socket.c\<close>): the state machine, its timers and the references of its sockets over
    the packet layers. \<open>Tcp_Stream\<close> has two ends and a network that delivers any segment ever sent, and shows that the receiver has a
    prefix of the stream; \<open>Tcp_Ends\<close> has the endings that fail: simultaneous close, close over the loopback, \<open>shutdown\<close>, a lost second segment.

  \<^item> \<open>Tty\<close> and \<open>Pty\<close> (\<open>driver/tty_ldisc.c\<close>, \<open>driver/pty.c\<close>): the line discipline refines a line editor on lists, and the pseudo terminals use it
    between two rings, which implement the locale \<open>byte_fifo\<close> again. A typed line reaches the program and its echo the master; a write
    longer than the driver's scratch buffer loses its end, and a long write to the master waits for the master's own reader.

  \<^bold>\<open>Bounds and fuel.\<close> Loops are structural or proved to terminate, or they are partial functions whose results are proved to exist where they do.
  The one use of fuel is \<open>drv_output\<close>, whose argument counts the nested passes of a packet through the loopback interface: \<open>Inet_Own\<close>
  proves that two are always enough, because the answer to a packet is itself not answered. The proofs about XDR streams hold for
  buffers of up to \<open>2 ^ 31\<close> bytes, far above the buffers in use. The stream theorem of TCP is for streams
  shorter than \<open>2 ^ 32\<close> bytes, where a sequence number names one byte.

  \<^bold>\<open>Not modelled.\<close> Page tables, page faults and the page allocators (their outcomes are arguments); traps, interrupt controllers and
  start-up code; spin locks (a critical section is atomic); system call argument fetching and the ELF loader; inodes, directories, the
  VFS and the foreign file systems; the socket system calls, datagram and Unix sockets
  and connections inside the machine (the packet layers record what they deliver); RPC and NFS messages; the console and
  hardware drivers, whose registers have no meaning inside the program text; everything in user space. Text reports and statistics for
  users are left out where they only read the state.
\<close>

end
